(* ===== verification/Prelude.thy ===== *)
theory Prelude
  imports Main "HOL-Library.Char_ord" "HOL-Library.List_Lexorder"
begin

text \<open>
  Shared vocabulary of the development: the result type of fallible Go functions, Go maps
  as key-sorted association lists (\<open>gomap\<close>), and the lemma collections the component
  theories add to.

  A Go \<open>map[K]V\<close> has no order.  It is represented by its entries sorted by key, so that two
  maps with the same contents are the same list: structural equality is then
  \<open>reflect.DeepEqual\<close>, and a \<open>range\<close> loop is a fold over the entries.  Where the
  result of such a loop could depend on the unspecified iteration order, the theories
  prove it for every order.
\<close>

section \<open>Lemma collections\<close>

named_theorems inv_intros \<open>preservation of component invariants\<close>
named_theorems gomap_simps \<open>lookups after updates of a Go map\<close>

section \<open>Results\<close>

text \<open>A Go pair \<open>(value, error)\<close> of which exactly one side is meaningful: \<open>Inl\<close> is the error.\<close>

type_synonym ('e, 'a) result = "'e + 'a"

section \<open>Go maps\<close>

type_synonym ('k, 'v) gomap = "('k \<times> 'v) list"

abbreviation gm_get :: "('k, 'v) gomap \<Rightarrow> 'k \<Rightarrow> 'v option" where
  "gm_get m k \<equiv> map_of m k"

abbreviation gm_keys :: "('k, 'v) gomap \<Rightarrow> 'k list" where
  "gm_keys m \<equiv> map fst m"

definition gm_wf :: "('k::linorder, 'v) gomap \<Rightarrow> bool" where
  "gm_wf m \<longleftrightarrow> sorted_wrt (<) (gm_keys m)"

definition gm_put :: "'k::linorder \<Rightarrow> 'v \<Rightarrow> ('k, 'v) gomap \<Rightarrow> ('k, 'v) gomap" where
  "gm_put k v m = takeWhile (\<lambda>p. fst p < k) m @ (k, v) # dropWhile (\<lambda>p. fst p \<le> k) m"

definition gm_del :: "'k \<Rightarrow> ('k, 'v) gomap \<Rightarrow> ('k, 'v) gomap" where
  "gm_del k m = filter (\<lambda>p. fst p \<noteq> k) m"

lemma gm_wf_Nil [simp, intro!]: "gm_wf []"
  by (simp add: gm_wf_def)

lemma gm_wf_Cons: "gm_wf ((k, v) # m) \<longleftrightarrow> gm_wf m \<and> (\<forall>p \<in> set m. k < fst p)"
  by (auto simp: gm_wf_def)

lemma gm_wf_distinct: "gm_wf m \<Longrightarrow> distinct (gm_keys m)"
  by (auto simp: gm_wf_def strict_sorted_iff)

lemma gm_put_Nil [simp]: "gm_put k v [] = [(k, v)]"
  by (simp add: gm_put_def)

lemma gm_put_Cons:
  "gm_wf ((a, b) # m) \<Longrightarrow> gm_put k v ((a, b) # m) =
     (if k < a then (k, v) # (a, b) # m else if k = a then (k, v) # m else (a, b) # gm_put k v m)"
proof -
  assume wf: "gm_wf ((a, b) # m)"
  have "dropWhile (\<lambda>p. fst p \<le> a) m = m"
    using wf by (cases m) (auto simp: gm_wf_Cons)
  moreover have "takeWhile (\<lambda>p. fst p < a) m = []"
    using wf by (cases m) (auto simp: gm_wf_Cons)
  ultimately show ?thesis by (auto simp: gm_put_def)
qed

lemma set_gm_put: "gm_wf m \<Longrightarrow> set (gm_put k v m) = {p \<in> set m. fst p \<noteq> k} \<union> {(k, v)}"
proof (induction m)
  case (Cons p m)
  then show ?case by (cases p) (auto simp: gm_put_Cons gm_wf_Cons)
qed simp

lemma gm_wf_put [simp, intro]: "gm_wf m \<Longrightarrow> gm_wf (gm_put k v m)"
proof (induction m)
  case (Cons p m)
  then show ?case by (cases p) (auto simp: gm_put_Cons gm_wf_Cons set_gm_put)
qed (simp add: gm_wf_Cons)

lemma gm_get_put [gomap_simps]: "gm_wf m \<Longrightarrow> gm_get (gm_put k v m) = (map_of m)(k \<mapsto> v)"
proof (induction m)
  case (Cons p m)
  then show ?case by (cases p) (auto simp: gm_put_Cons gm_wf_Cons fun_eq_iff)
qed (simp add: fun_eq_iff)

lemma gm_get_del [gomap_simps]: "gm_get (gm_del k m) = (map_of m)(k := None)"
  by (induction m) (auto simp: gm_del_def fun_eq_iff)

lemma gm_wf_filter [simp, intro]: "gm_wf m \<Longrightarrow> gm_wf (filter P m)"
  by (induction m) (auto simp: gm_wf_Cons)

lemma gm_wf_del [simp, intro]: "gm_wf m \<Longrightarrow> gm_wf (gm_del k m)"
  by (simp add: gm_del_def)

lemma gm_get_filter:
  "gm_wf m \<Longrightarrow> gm_get (filter P m) k = (case gm_get m k of Some v \<Rightarrow> if P (k, v) then Some v else None | None \<Rightarrow> None)"
  by (induction m) (force simp: gm_wf_Cons dest: map_of_SomeD split: option.splits)+

lemma gm_get_in_set: "gm_wf m \<Longrightarrow> gm_get m k = Some v \<longleftrightarrow> (k, v) \<in> set m"
  by (simp add: gm_wf_distinct map_of_eq_Some_iff)

lemma gm_get_None_iff: "gm_get m k = None \<longleftrightarrow> k \<notin> set (gm_keys m)"
  by (simp add: map_of_eq_None_iff image_def)

lemma inj_on_fst_set: "distinct (gm_keys m) \<Longrightarrow> inj_on fst (set m)"
  by (auto simp: inj_on_def dest: eq_key_imp_eq_value)

text \<open>Two maps with the same lookups are the same map.\<close>

lemma gm_eqI:
  assumes "gm_wf m" and "gm_wf m'" and "\<And>k. gm_get m k = gm_get m' k"
  shows "m = m'"
proof -
  have "set m = set m'"
    using assms by (auto simp flip: gm_get_in_set)
  moreover have "inj_on fst (set m)"
    using assms(1) by (simp add: gm_wf_distinct inj_on_fst_set)
  moreover have "sorted (gm_keys m)" "sorted (gm_keys m')"
      "distinct (gm_keys m)" "distinct (gm_keys m')"
    using assms(1,2) by (auto simp: gm_wf_def strict_sorted_iff)
  ultimately show ?thesis
    using map_sorted_distinct_set_unique [of fst m m'] by simp
qed

lemma gm_put_same: "gm_wf m \<Longrightarrow> gm_get m k = Some v \<Longrightarrow> gm_put k v m = m"
  by (rule gm_eqI) (auto simp: gomap_simps)

lemma gm_del_absent: "gm_get m k = None \<Longrightarrow> gm_del k m = m"
  by (auto simp: gm_del_def gm_get_None_iff filter_id_conv)

end
