(* ===== verification/SurfaceLane.thy ===== *)
theory SurfaceLane
  imports Prelude
begin

text \<open>
  The surface stream between the server and one client, abstractly: the frames, what a
  client does with them (docs/protocol.md section 10, \<open>SurfaceState.applyLayout\<close> and
  \<open>applyKey\<close> of client/lib/services/surface_state.dart), and the specification of a
  coalescing lane: what a pushed frame replaces.  The locale \<open>coalescing_queue\<close> is the
  interface of a connection's outbound queue; its theorem says that coalescing is
  invisible to the client, whatever was popped in between.
\<close>

section \<open>Frames and the client's view\<close>

text \<open>\<open>surfaceFrame\<close>: a key's render, or a re-baseline when \<open>sf_layout\<close> is set.\<close>

record 'd surface_frame =
  sf_data :: 'd
  sf_key :: int
  sf_seq :: int
  sf_layout :: bool

text \<open>
  What a client holds: the last layout applied, and per key the sequence and data last
  applied.  The asynchronous bitmap decoding of the client is not part of the view.
\<close>

record 'd surface_view =
  sv_layout :: "'d option"
  sv_keys :: "int \<Rightarrow> (int \<times> 'd) option"

definition empty_view :: "'d surface_view" where
  "empty_view = \<lparr>sv_layout = None, sv_keys = (\<lambda>_. None)\<rparr>"

definition applyLayout :: "int \<Rightarrow> 'd \<Rightarrow> 'd surface_view \<Rightarrow> 'd surface_view" where
  "applyLayout s d v =
     v\<lparr>sv_layout := Some d,
       sv_keys := (\<lambda>k. case sv_keys v k of
                          Some (s', d') \<Rightarrow> if s' \<le> s then None else Some (s', d')
                        | None \<Rightarrow> None)\<rparr>"

definition applyKey :: "int \<Rightarrow> int \<Rightarrow> 'd \<Rightarrow> 'd surface_view \<Rightarrow> 'd surface_view" where
  "applyKey k s d v =
     (case sv_keys v k of
        Some (s', _) \<Rightarrow> if s \<le> s' then v else v\<lparr>sv_keys := (sv_keys v)(k \<mapsto> (s, d))\<rparr>
      | None \<Rightarrow> v\<lparr>sv_keys := (sv_keys v)(k \<mapsto> (s, d))\<rparr>)"

definition apply_frame :: "'d surface_view \<Rightarrow> 'd surface_frame \<Rightarrow> 'd surface_view" where
  "apply_frame v f =
     (if sf_layout f then applyLayout (sf_seq f) (sf_data f) v
      else applyKey (sf_key f) (sf_seq f) (sf_data f) v)"

abbreviation apply_frames :: "'d surface_view \<Rightarrow> 'd surface_frame list \<Rightarrow> 'd surface_view" where
  "apply_frames \<equiv> foldl apply_frame"

section \<open>The coalescing lane, as a list\<close>

definition key_frame :: "int \<Rightarrow> int \<Rightarrow> 'd \<Rightarrow> 'd surface_frame" where
  "key_frame k s d = \<lparr>sf_data = d, sf_key = k, sf_seq = s, sf_layout = False\<rparr>"

definition layout_frame :: "int \<Rightarrow> 'd \<Rightarrow> 'd surface_frame" where
  "layout_frame s d = \<lparr>sf_data = d, sf_key = 0, sf_seq = s, sf_layout = True\<rparr>"

abbreviation is_key :: "int \<Rightarrow> 'd surface_frame \<Rightarrow> bool" where
  "is_key k f \<equiv> \<not> sf_layout f \<and> sf_key f = k"

text \<open>Specification of a push: what the lane holds afterwards.\<close>

definition put_key :: "int \<Rightarrow> int \<Rightarrow> 'd \<Rightarrow> 'd surface_frame list \<Rightarrow> 'd surface_frame list" where
  "put_key k s d xs =
     (if \<exists>f \<in> set xs. is_key k f \<and> s \<le> sf_seq f then xs
      else if \<exists>f \<in> set xs. is_key k f
      then map (\<lambda>f. if is_key k f then key_frame k s d else f) xs
      else xs @ [key_frame k s d])"

definition put_layout :: "int \<Rightarrow> 'd \<Rightarrow> 'd surface_frame list \<Rightarrow> 'd surface_frame list" where
  "put_layout s d xs =
     (if \<exists>f \<in> set xs. sf_layout f \<and> s < sf_seq f then xs
      else filter (\<lambda>f. \<not> sf_layout f \<and> s < sf_seq f) xs @ [layout_frame s d])"

text \<open>
  The lane's invariant: at most one frame per key and one layout, and a key frame queued
  ahead of the layout is one the layout does not cover.
\<close>

definition slot :: "'d surface_frame \<Rightarrow> int option" where
  "slot f = (if sf_layout f then None else Some (sf_key f))"

definition lane_ok :: "'d surface_frame list \<Rightarrow> bool" where
  "lane_ok xs \<longleftrightarrow> distinct (map slot xs) \<and>
     sorted_wrt (\<lambda>f g. sf_layout g \<longrightarrow> sf_seq g < sf_seq f) xs"

lemma frame_sels [simp]:
  "sf_data (key_frame k s d) = d" "sf_key (key_frame k s d) = k"
  "sf_seq (key_frame k s d) = s" "\<not> sf_layout (key_frame k s d)"
  "sf_data (layout_frame s d) = d" "sf_seq (layout_frame s d) = s"
  "sf_layout (layout_frame s d)"
  by (simp_all add: key_frame_def layout_frame_def)

lemma slot_simps [simp]: "slot (key_frame k s d) = Some k" "slot (layout_frame s d) = None"
  by (simp_all add: slot_def)

lemma slot_eq_Some: "slot f = Some k \<longleftrightarrow> is_key k f"
  by (simp add: slot_def)

lemma slot_eq_None: "slot f = None \<longleftrightarrow> sf_layout f"
  by (simp add: slot_def)

lemma lane_ok_Nil [simp]: "lane_ok []"
  by (simp add: lane_ok_def)

lemma lane_ok_append_key:
  "lane_ok xs \<Longrightarrow> \<forall>f \<in> set xs. \<not> is_key k f \<Longrightarrow> lane_ok (xs @ [key_frame k s d])"
  by (auto simp: lane_ok_def sorted_wrt_append simp flip: slot_eq_Some)

lemma lane_ok_subseq: "lane_ok (xs @ f # ys) \<Longrightarrow> lane_ok (xs @ ys)"
  by (auto simp: lane_ok_def sorted_wrt_append)

lemma lane_ok_tl: "lane_ok (f # xs) \<Longrightarrow> lane_ok xs"
  using lane_ok_subseq [of "[]" f xs] by simp

lemma lane_ok_filter: "lane_ok xs \<Longrightarrow> lane_ok (filter P xs)"
  by (auto simp: lane_ok_def distinct_map_filter sorted_wrt_filter)

lemma lane_ok_put_layout: "lane_ok xs \<Longrightarrow> lane_ok (put_layout s d xs)"
  using lane_ok_filter [of xs "\<lambda>f. \<not> sf_layout f \<and> s < sf_seq f"]
  by (auto simp: put_layout_def lane_ok_def sorted_wrt_append simp flip: slot_eq_None)

text \<open>A lane that holds a frame for a key holds it at one position.\<close>

lemma lane_split_key:
  assumes "lane_ok xs" and "f \<in> set xs" and "is_key k f"
  obtains ys zs where "xs = ys @ f # zs" and "\<forall>g \<in> set ys \<union> set zs. \<not> is_key k g"
proof -
  from assms(2) obtain ys zs where xs: "xs = ys @ f # zs" by (meson split_list)
  have "distinct (map slot xs)" "slot f = Some k"
    using assms by (auto simp: lane_ok_def slot_eq_Some)
  then have "\<forall>g \<in> set ys \<union> set zs. slot g \<noteq> Some k"
    unfolding xs by (auto simp: image_iff)
  with xs that show thesis by (auto simp: slot_eq_Some)
qed

lemma map_replace_key:
  assumes "\<forall>g \<in> set ys \<union> set zs. \<not> is_key k g" and "is_key k f"
  shows "map (\<lambda>f. if is_key k f then h else f) (ys @ f # zs) = ys @ h # zs"
  using assms by (auto intro!: map_idI)

lemma put_key_split:
  assumes "xs = ys @ f # zs" and "\<forall>g \<in> set ys \<union> set zs. \<not> is_key k g" and "is_key k f"
  shows "put_key k s d xs = (if s \<le> sf_seq f then xs else ys @ key_frame k s d # zs)"
proof -
  have "(\<exists>g \<in> set xs. is_key k g \<and> s \<le> sf_seq g) \<longleftrightarrow> s \<le> sf_seq f"
    using assms by auto
  moreover have "\<exists>g \<in> set xs. is_key k g" using assms by auto
  ultimately show ?thesis
    using map_replace_key [OF assms(2,3), of "key_frame k s d"] by (simp add: put_key_def assms(1))
qed

lemma lane_ok_replace:
  assumes "lane_ok (ys @ f # zs)" and "slot g = slot f" and "\<not> sf_layout f" and "sf_seq f \<le> sf_seq g"
  shows "lane_ok (ys @ g # zs)"
proof -
  have "\<not> sf_layout g" using assms(2,3) by (metis slot_eq_None)
  with assms show ?thesis by (fastforce simp: lane_ok_def sorted_wrt_append)
qed

lemma lane_ok_put_key: "lane_ok xs \<Longrightarrow> lane_ok (put_key k s d xs)"
proof (cases "\<exists>f \<in> set xs. is_key k f")
  case True
  assume ok: "lane_ok xs"
  from True obtain f where f: "f \<in> set xs" "is_key k f" by blast
  from ok f obtain ys zs where xs: "xs = ys @ f # zs" "\<forall>g \<in> set ys \<union> set zs. \<not> is_key k g"
    by (rule lane_split_key)
  show ?thesis
    unfolding put_key_split [OF xs f(2)]
    using lane_ok_replace [of ys f zs "key_frame k s d"] ok f(2) xs(1) by (auto simp: slot_def)
next
  case False
  assume "lane_ok xs"
  with False show ?thesis by (auto simp: put_key_def intro: lane_ok_append_key)
qed

section \<open>Coalescing is invisible to the client\<close>

lemma apply_frame_key [simp]: "apply_frame v (key_frame k s d) = applyKey k s d v"
  by (simp add: apply_frame_def)

lemma apply_frame_layout [simp]: "apply_frame v (layout_frame s d) = applyLayout s d v"
  by (simp add: apply_frame_def)

lemma applyKey_later: "s' < s \<Longrightarrow> applyKey k s d (applyKey k s' d' v) = applyKey k s d v"
  by (auto simp: applyKey_def split: option.splits)

lemma applyKey_commute:
  assumes "\<not> is_key k f" and "sf_layout f \<longrightarrow> sf_seq f < s"
  shows "apply_frame (applyKey k s d v) f = applyKey k s d (apply_frame v f)"
proof (cases "sf_layout f")
  case True
  with assms have "sf_seq f < s" by simp
  with True show ?thesis
    by (cases "sv_keys v k") (auto simp: applyKey_def applyLayout_def apply_frame_def fun_eq_iff)
next
  case False
  with assms have "sf_key f \<noteq> k" by simp
  with False show ?thesis
    by (cases "sv_keys v k"; cases "sv_keys v (sf_key f)")
       (auto simp: applyKey_def apply_frame_def fun_upd_twist)
qed

lemma applyKey_commute_list:
  assumes "\<forall>f \<in> set xs. \<not> is_key k f \<and> (sf_layout f \<longrightarrow> sf_seq f < s)"
  shows "apply_frames (applyKey k s d v) xs = applyKey k s d (apply_frames v xs)"
  using assms by (induction xs arbitrary: v) (simp_all add: applyKey_commute)

lemma held_key_kept:
  assumes "\<forall>f \<in> set xs. \<not> is_key k f \<and> (sf_layout f \<longrightarrow> sf_seq f < t)"
    and "sv_keys v k = Some (t, d)"
  shows "sv_keys (apply_frames v xs) k = Some (t, d)"
  using assms
proof (induction xs arbitrary: v)
  case (Cons f xs)
  have "sv_keys (apply_frame v f) k = Some (t, d)"
    using Cons.prems by (auto simp: apply_frame_def applyKey_def applyLayout_def split: option.splits)
  with Cons show ?case by simp
qed simp

lemma applyKey_holds: "\<exists>t d'. sv_keys (applyKey k s d v) k = Some (t, d') \<and> s \<le> t"
  by (auto simp: applyKey_def split: option.splits)

lemma applyKey_stale: "sv_keys v k = Some (t, d') \<Longrightarrow> s \<le> t \<Longrightarrow> applyKey k s d v = v"
  by (simp add: applyKey_def)

text \<open>A push of a key frame has the effect of delivering it after everything queued.\<close>

lemma apply_put_key:
  assumes ok: "lane_ok xs"
  shows "apply_frames v (put_key k s d xs) = applyKey k s d (apply_frames v xs)"
proof (cases "\<exists>f \<in> set xs. is_key k f")
  case False
  then show ?thesis by (auto simp: put_key_def)
next
  case True
  then obtain f where f: "f \<in> set xs" "is_key k f" by blast
  from ok f obtain ys zs where xs: "xs = ys @ f # zs" "\<forall>g \<in> set ys \<union> set zs. \<not> is_key k g"
    by (rule lane_split_key)
  have zs: "\<forall>g \<in> set zs. \<not> is_key k g \<and> (sf_layout g \<longrightarrow> sf_seq g < sf_seq f)"
    using ok xs by (auto simp: lane_ok_def sorted_wrt_append)
  let ?v = "apply_frames v ys"
  have f_eq: "apply_frame u f = applyKey k (sf_seq f) (sf_data f) u" for u :: "'a surface_view"
    using f(2) by (simp add: apply_frame_def)
  show ?thesis
  proof (cases "s \<le> sf_seq f")
    case True
    obtain t d' where t: "sv_keys (applyKey k (sf_seq f) (sf_data f) ?v) k = Some (t, d')" "sf_seq f \<le> t"
      using applyKey_holds [of k "sf_seq f" "sf_data f" ?v] by auto
    have "\<forall>g \<in> set zs. \<not> is_key k g \<and> (sf_layout g \<longrightarrow> sf_seq g < t)"
      using zs t(2) by fastforce
    then have "sv_keys (apply_frames v xs) k = Some (t, d')"
      using held_key_kept [OF _ t(1), of zs] by (simp add: xs(1) f_eq)
    with True t(2) show ?thesis
      by (simp add: put_key_split [OF xs f(2)] applyKey_stale)
  next
    case False
    with zs have "\<forall>g \<in> set zs. \<not> is_key k g \<and> (sf_layout g \<longrightarrow> sf_seq g < s)"
      by fastforce
    then have move: "apply_frames (applyKey k s d u) zs = applyKey k s d (apply_frames u zs)" for u
      by (rule applyKey_commute_list)
    have "apply_frames v (put_key k s d xs) = apply_frames (applyKey k s d (apply_frame ?v f)) zs"
      using False by (simp add: put_key_split [OF xs f(2)] f_eq applyKey_later)
    also have "\<dots> = applyKey k s d (apply_frames v xs)"
      by (simp add: move xs(1))
    finally show ?thesis .
  qed
qed

text \<open>What survives a layout at sequence \<open>s\<close>: the keys above it.\<close>

definition above :: "int \<Rightarrow> (int \<Rightarrow> (int \<times> 'd) option) \<Rightarrow> int \<Rightarrow> (int \<times> 'd) option" where
  "above s m k = (case m k of Some (s', d') \<Rightarrow> if s' \<le> s then None else Some (s', d') | None \<Rightarrow> None)"

lemma applyLayout_above: "applyLayout s d v = v\<lparr>sv_layout := Some d, sv_keys := above s (sv_keys v)\<rparr>"
  by (simp add: applyLayout_def above_def fun_eq_iff)

lemma above_dropped:
  assumes "sf_seq f \<le> s"
  shows "above s (sv_keys (apply_frame v f)) = above s (sv_keys v)"
  using assms
  by (auto simp: apply_frame_def applyKey_def applyLayout_def above_def fun_eq_iff split: option.splits)

lemma above_cong:
  assumes "above s (sv_keys v) = above s (sv_keys w)" and "\<not> sf_layout f" and "s < sf_seq f"
  shows "above s (sv_keys (apply_frame v f)) = above s (sv_keys (apply_frame w f))"
proof
  fix k
  have "above s (sv_keys v) (sf_key f) = above s (sv_keys w) (sf_key f)" "above s (sv_keys v) k = above s (sv_keys w) k"
    using assms(1) by simp_all
  with assms(2,3) show "above s (sv_keys (apply_frame v f)) k = above s (sv_keys (apply_frame w f)) k"
    by (auto simp: apply_frame_def applyKey_def above_def split: option.splits if_splits)
qed

lemma above_filter:
  assumes "\<forall>f \<in> set xs. sf_layout f \<longrightarrow> sf_seq f \<le> s" and "above s (sv_keys v) = above s (sv_keys w)"
  shows "above s (sv_keys (apply_frames v (filter (\<lambda>f. \<not> sf_layout f \<and> s < sf_seq f) xs))) =
         above s (sv_keys (apply_frames w xs))"
  using assms
proof (induction xs arbitrary: v w)
  case (Cons f xs)
  show ?case
  proof (cases "\<not> sf_layout f \<and> s < sf_seq f")
    case True
    then have "above s (sv_keys (apply_frame v f)) = above s (sv_keys (apply_frame w f))"
      using Cons.prems(2) by (intro above_cong) auto
    with True Cons show ?thesis by simp
  next
    case False
    with Cons.prems have "sf_seq f \<le> s" by auto
    then have "above s (sv_keys v) = above s (sv_keys (apply_frame w f))"
      using Cons.prems(2) by (simp add: above_dropped)
    then have "above s (sv_keys (apply_frames v (filter (\<lambda>f. \<not> sf_layout f \<and> s < sf_seq f) xs))) =
        above s (sv_keys (apply_frames (apply_frame w f) xs))"
      using Cons.prems(1) by (intro Cons.IH) auto
    moreover have "filter (\<lambda>f. \<not> sf_layout f \<and> s < sf_seq f) (f # xs) = filter (\<lambda>f. \<not> sf_layout f \<and> s < sf_seq f) xs"
      using False by auto
    ultimately show ?thesis by simp
  qed
qed simp

text \<open>
  A push of a layout has the effect of delivering it after everything queued, when it is
  not older than a layout already queued.
\<close>

lemma apply_put_layout:
  assumes "\<forall>f \<in> set xs. sf_layout f \<longrightarrow> sf_seq f \<le> s"
  shows "apply_frames v (put_layout s d xs) = applyLayout s d (apply_frames v xs)"
proof -
  have "\<not> (\<exists>f \<in> set xs. sf_layout f \<and> s < sf_seq f)" using assms by fastforce
  then have "put_layout s d xs = filter (\<lambda>f. \<not> sf_layout f \<and> s < sf_seq f) xs @ [layout_frame s d]"
    unfolding put_layout_def by (rule if_not_P)
  then show ?thesis
    using above_filter [OF assms refl, of v] by (simp add: applyLayout_above)
qed

section \<open>The interface of a connection's outbound queue\<close>

text \<open>
  What \<open>hub\<close>, \<open>surfaceManager\<close> and the write loop rely on: two lanes, the surface lane
  updated as \<open>put_key\<close> and \<open>put_layout\<close> specify, the other one FIFO and capped,
  and \<open>pop\<close> serving the other lane first.
\<close>

locale coalescing_queue =
  fixes new_queue :: "'q"
    and push_key :: "int \<Rightarrow> int \<Rightarrow> 'd \<Rightarrow> 'q \<Rightarrow> 'q"
    and push_layout :: "int \<Rightarrow> 'd \<Rightarrow> 'q \<Rightarrow> 'q"
    and push_other :: "'d \<Rightarrow> 'q \<Rightarrow> 'q \<times> bool"
    and pop_frame :: "'q \<Rightarrow> 'q \<times> 'd option"
    and lane :: "'q \<Rightarrow> 'd surface_frame list"
    and others :: "'q \<Rightarrow> 'd list"
    and queue_ok :: "'q \<Rightarrow> bool"
    and capacity :: nat
  assumes new_ok: "queue_ok new_queue"
    and new_lanes: "lane new_queue = [] \<and> others new_queue = []"
    and push_key_ok: "queue_ok q \<Longrightarrow> queue_ok (push_key k s d q)"
    and push_key_lanes: "queue_ok q \<Longrightarrow>
      lane (push_key k s d q) = put_key k s d (lane q) \<and> others (push_key k s d q) = others q"
    and push_layout_ok: "queue_ok q \<Longrightarrow> queue_ok (push_layout s d q)"
    and push_layout_lanes: "queue_ok q \<Longrightarrow>
      lane (push_layout s d q) = put_layout s d (lane q) \<and> others (push_layout s d q) = others q"
    and push_other_ok: "queue_ok q \<Longrightarrow> queue_ok (fst (push_other d q))"
    and push_other_lanes: "queue_ok q \<Longrightarrow>
      lane (fst (push_other d q)) = lane q \<and>
      (if snd (push_other d q) then others (fst (push_other d q)) = others q @ [d] \<and> length (others q) < capacity
       else fst (push_other d q) = q \<and> capacity \<le> length (others q))"
    and pop_ok: "queue_ok q \<Longrightarrow> queue_ok (fst (pop_frame q))"
    and pop_lanes: "queue_ok q \<Longrightarrow>
      (case others q of
         d # ds \<Rightarrow> snd (pop_frame q) = Some d \<and> others (fst (pop_frame q)) = ds \<and> lane (fst (pop_frame q)) = lane q
       | [] \<Rightarrow> others (fst (pop_frame q)) = [] \<and>
           (case lane q of
              f # fs \<Rightarrow> snd (pop_frame q) = Some (sf_data f) \<and> lane (fst (pop_frame q)) = fs
            | [] \<Rightarrow> snd (pop_frame q) = None \<and> fst (pop_frame q) = q))"
    and lane_invariant: "queue_ok q \<Longrightarrow> lane_ok (lane q)"
begin

text \<open>Each push leaves the client, once drained, where an unqueued delivery would have.\<close>

lemma view_push_key:
  "queue_ok q \<Longrightarrow> apply_frames v (lane (push_key k s d q)) = applyKey k s d (apply_frames v (lane q))"
  by (simp add: push_key_lanes apply_put_key lane_invariant)

lemma view_push_layout:
  "queue_ok q \<Longrightarrow> \<forall>f \<in> set (lane q). sf_layout f \<longrightarrow> sf_seq f \<le> s \<Longrightarrow>
   apply_frames v (lane (push_layout s d q)) = applyLayout s d (apply_frames v (lane q))"
  by (simp add: push_layout_lanes apply_put_layout)

lemma view_push_other: "queue_ok q \<Longrightarrow> apply_frames v (lane (fst (push_other d q))) = apply_frames v (lane q)"
  by (simp add: push_other_lanes)

text \<open>Frames of the surface lane that a pop takes off it.\<close>

definition taken :: "'q \<Rightarrow> 'd surface_frame list" where
  "taken q = (if others q = [] then take 1 (lane q) else [])"

lemma view_pop:
  assumes "queue_ok q"
  shows "apply_frames (apply_frames v (taken q)) (lane (fst (pop_frame q))) = apply_frames v (lane q)"
  using pop_lanes [OF assms] by (cases "others q"; cases "lane q") (auto simp: taken_def)

text \<open>A surface lane never outgrows the grid: one frame per key in use, and a layout.\<close>

lemma lane_bound:
  assumes "queue_ok q" and "\<forall>f \<in> set (lane q). \<not> sf_layout f \<longrightarrow> sf_key f \<in> K" and "finite K"
  shows "length (lane q) \<le> Suc (card K)"
proof -
  have "set (map slot (lane q)) \<subseteq> insert None (Some ` K)"
    using assms(2) by (auto simp: slot_def)
  moreover have "distinct (map slot (lane q))"
    using lane_invariant [OF assms(1)] by (simp add: lane_ok_def)
  ultimately have "length (map slot (lane q)) \<le> card (insert None (Some ` K))"
    using assms(3) by (metis card_mono distinct_card finite.insertI finite_imageI)
  also have "\<dots> \<le> Suc (card K)"
    using assms(3) by (simp add: card_insert_if card_image_le)
  finally show ?thesis by simp
qed

end

end
