(* ===== verification/SendQueue.thy ===== *)
theory SendQueue
  imports SurfaceLane
begin

text \<open>
  \<open>sendQueue\<close> of server/internal/api/sendqueue.go with its pointers: the surface list is a
  list of element addresses, \<open>sq_cell\<close> holds each element's \<open>Value\<close>, and the \<open>keys\<close> map and
  the \<open>layout\<close> field alias elements of it.  The theory proves that the aliases never
  dangle, that the queue refines the coalescing lane of \<open>SurfaceLane\<close> (the interpretation
  \<open>sq\<close>), and from it what a client sees.
\<close>

section \<open>State\<close>

record 'd send_queue =
  sq_state :: "'d list"
  sq_surface :: "nat list"
  sq_cell :: "nat \<Rightarrow> 'd surface_frame option"
  sq_next :: nat
  sq_keys :: "(int, nat) gomap"
  sq_layout :: "nat option"
  sq_wake :: bool

definition sendBuffer :: nat where
  "sendBuffer = 64"

definition newSendQueue :: "'d send_queue" where
  "newSendQueue = \<lparr>sq_state = [], sq_surface = [], sq_cell = (\<lambda>_. None), sq_next = 0,
     sq_keys = [], sq_layout = None, sq_wake = False\<rparr>"

section \<open>Operations\<close>

text \<open>\<open>e.Value.(surfaceFrame)\<close>, \<open>list.PushBack\<close> and \<open>list.Remove\<close>.\<close>

definition elem_value :: "'d send_queue \<Rightarrow> nat \<Rightarrow> 'd surface_frame" where
  "elem_value q e = the (sq_cell q e)"

definition list_push_back :: "'d surface_frame \<Rightarrow> 'd send_queue \<Rightarrow> 'd send_queue \<times> nat" where
  "list_push_back f q =
     (q\<lparr>sq_surface := sq_surface q @ [sq_next q], sq_cell := (sq_cell q)(sq_next q \<mapsto> f),
        sq_next := Suc (sq_next q)\<rparr>, sq_next q)"

definition list_remove :: "nat \<Rightarrow> 'd send_queue \<Rightarrow> 'd send_queue" where
  "list_remove e q = q\<lparr>sq_surface := remove1 e (sq_surface q)\<rparr>"

text \<open>A non-blocking send on the one-slot wake channel.\<close>

definition poke :: "'d send_queue \<Rightarrow> 'd send_queue" where
  "poke q = q\<lparr>sq_wake := True\<rparr>"

definition pushOther :: "'d \<Rightarrow> 'd send_queue \<Rightarrow> 'd send_queue \<times> bool" where
  "pushOther d q =
     (if sendBuffer \<le> length (sq_state q) then (q, False)
      else (poke (q\<lparr>sq_state := sq_state q @ [d]\<rparr>), True))"

definition pushSurfaceKey :: "int \<Rightarrow> int \<Rightarrow> 'd \<Rightarrow> 'd send_queue \<Rightarrow> 'd send_queue" where
  "pushSurfaceKey key seq d q =
     (let frame = \<lparr>sf_data = d, sf_key = key, sf_seq = seq, sf_layout = False\<rparr> in
      case gm_get (sq_keys q) key of
        Some e \<Rightarrow>
          if seq \<le> sf_seq (elem_value q e) then q
          else poke (q\<lparr>sq_cell := (sq_cell q)(e \<mapsto> frame)\<rparr>)
      | None \<Rightarrow>
          let (q', e) = list_push_back frame q
          in poke (q'\<lparr>sq_keys := gm_put key e (sq_keys q')\<rparr>))"

text \<open>The \<open>range q.keys\<close> loop, over the entries in some order.\<close>

definition drop_key :: "int \<Rightarrow> int \<times> nat \<Rightarrow> 'd send_queue \<Rightarrow> 'd send_queue" where
  "drop_key seq = (\<lambda>(key, e) q.
     if sf_seq (elem_value q e) \<le> seq
     then (list_remove e q)\<lparr>sq_keys := gm_del key (sq_keys q)\<rparr> else q)"

definition drop_keys :: "int \<Rightarrow> (int \<times> nat) list \<Rightarrow> 'd send_queue \<Rightarrow> 'd send_queue" where
  "drop_keys seq entries q = fold (drop_key seq) entries q"

definition pushSurfaceLayout_in :: "(int \<times> nat) list \<Rightarrow> int \<Rightarrow> 'd \<Rightarrow> 'd send_queue \<Rightarrow> 'd send_queue" where
  "pushSurfaceLayout_in entries seq d q =
     (if (case sq_layout q of Some e \<Rightarrow> seq < sf_seq (elem_value q e) | None \<Rightarrow> False) then q
      else
        let q1 = drop_keys seq entries q;
            q2 = (case sq_layout q1 of Some e \<Rightarrow> list_remove e q1 | None \<Rightarrow> q1);
            (q3, e) = list_push_back \<lparr>sf_data = d, sf_key = 0, sf_seq = seq, sf_layout = True\<rparr> q2
        in poke (q3\<lparr>sq_layout := Some e\<rparr>))"

definition pushSurfaceLayout :: "int \<Rightarrow> 'd \<Rightarrow> 'd send_queue \<Rightarrow> 'd send_queue" where
  "pushSurfaceLayout seq d q = pushSurfaceLayout_in (sq_keys q) seq d q"

definition pop :: "'d send_queue \<Rightarrow> 'd send_queue \<times> 'd option" where
  "pop q =
     (case sq_state q of
        d # ds \<Rightarrow> (q\<lparr>sq_state := ds\<rparr>, Some d)
      | [] \<Rightarrow>
          (case sq_surface q of
             [] \<Rightarrow> (q, None)
           | e # _ \<Rightarrow>
               let f = elem_value q e; q' = list_remove e q in
               (if sf_layout f
                then (if sq_layout q' = Some e then q'\<lparr>sq_layout := None\<rparr> else q')
                else (if gm_get (sq_keys q') (sf_key f) = Some e
                      then q'\<lparr>sq_keys := gm_del (sf_key f) (sq_keys q')\<rparr> else q'),
                Some (sf_data f))))"

definition depth :: "'d send_queue \<Rightarrow> nat" where
  "depth q = length (sq_state q) + length (sq_surface q)"

section \<open>Invariant and abstraction\<close>

definition surface_frames :: "'d send_queue \<Rightarrow> 'd surface_frame list" where
  "surface_frames q = map (elem_value q) (sq_surface q)"

text \<open>
  Elements are allocated below \<open>sq_next\<close> and listed once; \<open>keys\<close> holds exactly the key
  frames of the list and \<open>layout\<close> exactly its layout frame.
\<close>

definition sq_ok :: "'d send_queue \<Rightarrow> bool" where
  "sq_ok q \<longleftrightarrow>
     distinct (sq_surface q) \<and>
     (\<forall>e \<in> set (sq_surface q). e < sq_next q \<and> sq_cell q e \<noteq> None) \<and>
     gm_wf (sq_keys q) \<and>
     (\<forall>k e. gm_get (sq_keys q) k = Some e \<longleftrightarrow> e \<in> set (sq_surface q) \<and> slot (elem_value q e) = Some k) \<and>
     (\<forall>e. sq_layout q = Some e \<longleftrightarrow> e \<in> set (sq_surface q) \<and> slot (elem_value q e) = None) \<and>
     lane_ok (surface_frames q) \<and>
     length (sq_state q) \<le> sendBuffer"

lemma elem_value_eq: "elem_value q = (\<lambda>e. the (sq_cell q e))"
  by (simp add: elem_value_def fun_eq_iff)

lemma poke_simps [simp]:
  "sq_state (poke q) = sq_state q" "sq_surface (poke q) = sq_surface q" "sq_cell (poke q) = sq_cell q"
  "sq_next (poke q) = sq_next q" "sq_keys (poke q) = sq_keys q" "sq_layout (poke q) = sq_layout q"
  "sq_wake (poke q)" "elem_value (poke q) = elem_value q"
  "surface_frames (poke q) = surface_frames q" "sq_ok (poke q) = sq_ok q"
  by (simp_all add: poke_def elem_value_eq surface_frames_def sq_ok_def)

lemma elem_value_updates [simp]:
  "elem_value (q\<lparr>sq_state := a\<rparr>) = elem_value q" "elem_value (q\<lparr>sq_surface := b\<rparr>) = elem_value q"
  "elem_value (q\<lparr>sq_keys := c\<rparr>) = elem_value q" "elem_value (q\<lparr>sq_layout := d\<rparr>) = elem_value q"
  "elem_value (q\<lparr>sq_cell := h\<rparr>) e = the (h e)"
  by (simp_all add: elem_value_def fun_eq_iff)

lemma surface_frames_updates [simp]:
  "surface_frames (q\<lparr>sq_state := a\<rparr>) = surface_frames q"
  "surface_frames (q\<lparr>sq_keys := c\<rparr>) = surface_frames q"
  "surface_frames (q\<lparr>sq_layout := d\<rparr>) = surface_frames q"
  by (simp_all add: surface_frames_def)

lemma sq_okD:
  assumes "sq_ok q"
  shows "distinct (sq_surface q)" "gm_wf (sq_keys q)" "lane_ok (surface_frames q)"
    "e \<in> set (sq_surface q) \<Longrightarrow> e < sq_next q"
    "gm_get (sq_keys q) k = Some e \<longleftrightarrow> e \<in> set (sq_surface q) \<and> slot (elem_value q e) = Some k"
    "sq_layout q = Some e \<longleftrightarrow> e \<in> set (sq_surface q) \<and> slot (elem_value q e) = None"
    "length (sq_state q) \<le> sendBuffer"
  using assms by (auto simp: sq_ok_def)

lemma newSendQueue_ok: "sq_ok newSendQueue"
  by (simp add: newSendQueue_def sq_ok_def surface_frames_def sendBuffer_def)

lemma pushOther_ok: "sq_ok q \<Longrightarrow> sq_ok (fst (pushOther d q))"
  by (auto simp: pushOther_def sq_ok_def surface_frames_def)

lemma pushOther_lanes:
  "surface_frames (fst (pushOther d q)) = surface_frames q"
  "snd (pushOther d q) \<longleftrightarrow> length (sq_state q) < sendBuffer"
  "snd (pushOther d q) \<Longrightarrow> sq_state (fst (pushOther d q)) = sq_state q @ [d]"
  "\<not> snd (pushOther d q) \<Longrightarrow> fst (pushOther d q) = q"
  by (auto simp: pushOther_def surface_frames_def)

text \<open>An element of the list sits at one position, and no other frame fills its slot.\<close>

lemma elem_split:
  assumes "sq_ok q" and "e \<in> set (sq_surface q)"
  obtains xs ys where "sq_surface q = xs @ e # ys" "e \<notin> set xs \<union> set ys"
    "\<forall>e' \<in> set xs \<union> set ys. slot (elem_value q e') \<noteq> slot (elem_value q e)"
proof -
  obtain xs ys where split: "sq_surface q = xs @ e # ys" using assms(2) by (meson split_list)
  have "distinct (map slot (surface_frames q))" using sq_okD(3) [OF assms(1)] by (simp add: lane_ok_def)
  then have "\<forall>e' \<in> set xs \<union> set ys. slot (elem_value q e') \<noteq> slot (elem_value q e)"
    unfolding surface_frames_def split by (auto simp: image_iff)
  moreover have "e \<notin> set xs \<union> set ys" using sq_okD(1) [OF assms(1)] split by auto
  ultimately show thesis using that split by blast
qed

lemma surface_frames_fresh:
  assumes "sq_ok q" and "q' = fst (list_push_back f q)"
  shows "surface_frames q' = surface_frames q @ [f]" "snd (list_push_back f q) \<notin> set (sq_surface q)"
    "e \<in> set (sq_surface q) \<Longrightarrow> elem_value q' e = elem_value q e" "elem_value q' (snd (list_push_back f q)) = f"
  using sq_okD(4) [OF assms(1)] assms(2)
  by (fastforce simp: list_push_back_def surface_frames_def elem_value_eq)+

lemma pushSurfaceKey_lanes:
  assumes "sq_ok q"
  shows "surface_frames (pushSurfaceKey k s d q) = put_key k s d (surface_frames q)"
proof (cases "gm_get (sq_keys q) k")
  case None
  have "\<forall>f \<in> set (surface_frames q). slot f \<noteq> Some k"
    using sq_okD(5) [OF assms, of k] None by (auto simp: surface_frames_def)
  then have "put_key k s d (surface_frames q) = surface_frames q @ [key_frame k s d]"
    by (auto simp: put_key_def slot_eq_Some)
  moreover have "surface_frames (pushSurfaceKey k s d q) = surface_frames (fst (list_push_back (key_frame k s d) q))"
    using None by (simp add: pushSurfaceKey_def list_push_back_def key_frame_def Let_def surface_frames_def elem_value_eq)
  ultimately show ?thesis using surface_frames_fresh(1) [OF assms refl] by simp
next
  case (Some e)
  then have e: "e \<in> set (sq_surface q)" "slot (elem_value q e) = Some k"
    using sq_okD(5) [OF assms] by auto
  obtain xs ys where split: "sq_surface q = xs @ e # ys" "e \<notin> set xs \<union> set ys"
    "\<forall>e' \<in> set xs \<union> set ys. slot (elem_value q e') \<noteq> slot (elem_value q e)"
    using elem_split [OF assms e(1)] .
  have frames: "surface_frames q = map (elem_value q) xs @ elem_value q e # map (elem_value q) ys"
    by (simp add: surface_frames_def split(1))
  have others: "\<forall>g \<in> set (map (elem_value q) xs) \<union> set (map (elem_value q) ys). \<not> is_key k g"
    using split(3) e(2) by (auto simp flip: slot_eq_Some)
  have "surface_frames (pushSurfaceKey k s d q) =
      (if s \<le> sf_seq (elem_value q e) then surface_frames q
       else map (elem_value q) xs @ key_frame k s d # map (elem_value q) ys)"
    using split(2) Some
    by (auto simp: pushSurfaceKey_def key_frame_def Let_def surface_frames_def split(1) elem_value_eq)
  then show ?thesis
    using e(2) by (simp add: put_key_split [OF frames others] slot_eq_Some)
qed

lemma pushSurfaceKey_ok: "sq_ok q \<Longrightarrow> sq_ok (pushSurfaceKey k s d q)"
proof (cases "gm_get (sq_keys q) k")
  case None
  assume ok: "sq_ok q"
  note fresh = surface_frames_fresh [OF ok refl, where f = "key_frame k s d"]
  have absent: "\<forall>e \<in> set (sq_surface q). slot (elem_value q e) \<noteq> Some k"
    using sq_okD(5) [OF ok, of k] None by auto
  let ?q = "pushSurfaceKey k s d q"
  have q': "sq_surface ?q = sq_surface q @ [sq_next q]" "sq_next ?q = Suc (sq_next q)"
    "sq_cell ?q = (sq_cell q)(sq_next q \<mapsto> key_frame k s d)" "sq_layout ?q = sq_layout q"
    "sq_keys ?q = gm_put k (sq_next q) (sq_keys q)" "sq_state ?q = sq_state q"
    using None by (simp_all add: pushSurfaceKey_def list_push_back_def key_frame_def Let_def)
  have new: "sq_next q \<notin> set (sq_surface q)" using fresh(2) by (simp add: list_push_back_def)
  have v: "elem_value ?q e = (if e = sq_next q then key_frame k s d else elem_value q e)" for e
    by (simp add: elem_value_eq q')
  have "lane_ok (surface_frames ?q)"
    using ok by (simp add: pushSurfaceKey_lanes lane_ok_put_key sq_okD(3))
  moreover have "gm_get (sq_keys ?q) k' = Some e \<longleftrightarrow> e \<in> set (sq_surface ?q) \<and> slot (elem_value ?q e) = Some k'" for k' e
    using new absent sq_okD(5) [OF ok, of k' e] sq_okD(2) [OF ok]
    by (auto simp: q' v gomap_simps)
  moreover have "sq_layout ?q = Some e \<longleftrightarrow> e \<in> set (sq_surface ?q) \<and> slot (elem_value ?q e) = None" for e
    using new sq_okD(6) [OF ok, of e] by (auto simp: q' v)
  ultimately show ?thesis
    using ok new by (auto simp: sq_ok_def q')
next
  case (Some e)
  assume ok: "sq_ok q"
  let ?q = "pushSurfaceKey k s d q"
  show ?thesis
  proof (cases "s \<le> sf_seq (elem_value q e)")
    case True
    with ok Some show ?thesis by (simp add: pushSurfaceKey_def Let_def)
  next
    case False
    then have q': "?q = poke (q\<lparr>sq_cell := (sq_cell q)(e \<mapsto> key_frame k s d)\<rparr>)"
      using Some by (simp add: pushSurfaceKey_def key_frame_def Let_def)
    have e: "slot (elem_value q e) = Some k" using sq_okD(5) [OF ok] Some by auto
    have v: "slot (elem_value ?q e') = slot (elem_value q e')" for e'
      using e by (simp add: q' elem_value_eq)
    have "lane_ok (surface_frames ?q)"
      using ok by (simp add: pushSurfaceKey_lanes lane_ok_put_key sq_okD(3))
    then show ?thesis
      using ok unfolding sq_ok_def v by (auto simp: q')
  qed
qed

lemma remove1_distinct_filter: "distinct xs \<Longrightarrow> remove1 x xs = filter (\<lambda>y. y \<noteq> x) xs"
  by (simp add: distinct_remove1_removeAll removeAll_filter_not_eq) (rule filter_cong, auto)

text \<open>The \<open>range q.keys\<close> loop removes the superseded elements, in whatever order it runs.\<close>

definition superseded :: "int \<Rightarrow> 'd send_queue \<Rightarrow> (int \<times> nat) list \<Rightarrow> (int \<times> nat) list" where
  "superseded seq q entries = filter (\<lambda>(_, e). sf_seq (elem_value q e) \<le> seq) entries"

lemma drop_keys_eq:
  assumes "distinct (sq_surface q)"
  shows "drop_keys s es q =
     q\<lparr>sq_surface := filter (\<lambda>e. e \<notin> snd ` set (superseded s q es)) (sq_surface q),
       sq_keys := filter (\<lambda>p. fst p \<notin> fst ` set (superseded s q es)) (sq_keys q)\<rparr>"
  using assms
proof (induction es arbitrary: q)
  case Nil
  then show ?case by (simp add: drop_keys_def superseded_def)
next
  case (Cons p es)
  obtain k e where p: "p = (k, e)" by (cases p)
  have step: "drop_keys s (p # es) q = drop_keys s es (drop_key s p q)"
    by (simp add: drop_keys_def)
  show ?case
  proof (cases "sf_seq (elem_value q e) \<le> s")
    case False
    then show ?thesis using Cons unfolding step by (simp add: p drop_key_def superseded_def)
  next
    case True
    let ?q = "drop_key s (k, e) q"
    have q': "?q = q\<lparr>sq_surface := filter (\<lambda>x. x \<noteq> e) (sq_surface q), sq_keys := gm_del k (sq_keys q)\<rparr>"
      using True Cons.prems by (simp add: p drop_key_def list_remove_def remove1_distinct_filter)
    have "superseded s ?q es = superseded s q es" by (simp add: superseded_def q')
    moreover have "superseded s q (p # es) = p # superseded s q es"
      using True by (simp add: superseded_def p)
    moreover have "distinct (sq_surface ?q)" using Cons.prems by (simp add: q')
    ultimately show ?thesis
      using Cons.IH [of ?q] step unfolding p
      by (simp add: q' gm_del_def conj_commute)
  qed
qed

lemma drop_keys_perm:
  "distinct (sq_surface q) \<Longrightarrow> set es = set es' \<Longrightarrow> drop_keys s es q = drop_keys s es' q"
  by (simp add: drop_keys_eq superseded_def)

text \<open>What is left of the surface list when the layout element goes too.\<close>

definition keep :: "int \<Rightarrow> 'd surface_frame \<Rightarrow> bool" where
  "keep s = (\<lambda>f. \<not> sf_layout f \<and> s < sf_seq f)"

definition rebaseline :: "int \<Rightarrow> 'd send_queue \<Rightarrow> 'd send_queue" where
  "rebaseline s q =
     q\<lparr>sq_surface := filter (\<lambda>e. keep s (elem_value q e)) (sq_surface q),
       sq_keys := filter (\<lambda>p. s < sf_seq (elem_value q (snd p))) (sq_keys q)\<rparr>"

lemma drop_then_remove:
  assumes ok: "sq_ok q" and es: "set es = set (sq_keys q)"
  shows "(case sq_layout q of Some e \<Rightarrow> list_remove e (drop_keys s es q) | None \<Rightarrow> drop_keys s es q) = rebaseline s q"
proof -
  have in_keys: "(k, e) \<in> set (sq_keys q) \<longleftrightarrow> e \<in> set (sq_surface q) \<and> slot (elem_value q e) = Some k" for k e
    using sq_okD(5) [OF ok, of k e] gm_get_in_set [OF sq_okD(2) [OF ok]] by simp
  have sup: "(k, e) \<in> set (superseded s q es) \<longleftrightarrow> (k, e) \<in> set (sq_keys q) \<and> sf_seq (elem_value q e) \<le> s" for k e
    using es by (auto simp: superseded_def)
  have keys: "filter (\<lambda>p. fst p \<notin> fst ` set (superseded s q es)) (sq_keys q) =
      filter (\<lambda>p. s < sf_seq (elem_value q (snd p))) (sq_keys q)"
  proof (rule filter_cong [OF refl])
    fix p assume p: "p \<in> set (sq_keys q)"
    have "fst p \<in> fst ` set (superseded s q es) \<longleftrightarrow> sf_seq (elem_value q (snd p)) \<le> s"
    proof
      assume "fst p \<in> fst ` set (superseded s q es)"
      then obtain e where "(fst p, e) \<in> set (superseded s q es)" by force
      then have "(fst p, e) \<in> set (sq_keys q)" "sf_seq (elem_value q e) \<le> s" by (auto simp: sup)
      moreover have "e = snd p"
        using calculation(1) p gm_wf_distinct [OF sq_okD(2) [OF ok]] by (metis eq_key_imp_eq_value prod.collapse)
      ultimately show "sf_seq (elem_value q (snd p)) \<le> s" by simp
    next
      assume "sf_seq (elem_value q (snd p)) \<le> s"
      with p have "p \<in> set (superseded s q es)" by (metis sup prod.collapse)
      then show "fst p \<in> fst ` set (superseded s q es)" by (rule imageI)
    qed
    then show "(fst p \<notin> fst ` set (superseded s q es)) = (s < sf_seq (elem_value q (snd p)))" by auto
  qed
  have gone: "e \<in> snd ` set (superseded s q es) \<longleftrightarrow> \<not> sf_layout (elem_value q e) \<and> sf_seq (elem_value q e) \<le> s"
    if "e \<in> set (sq_surface q)" for e
  proof -
    have "e \<in> snd ` set (superseded s q es) \<longleftrightarrow> (\<exists>k. (k, e) \<in> set (superseded s q es))" by force
    with that show ?thesis by (auto simp: sup in_keys slot_def)
  qed
  have surf: "filter (\<lambda>e. e \<notin> snd ` set (superseded s q es)) (sq_surface q) =
      filter (\<lambda>e. sf_layout (elem_value q e) \<or> keep s (elem_value q e)) (sq_surface q)"
    by (rule filter_cong [OF refl]) (auto simp: gone keep_def)
  note drop = drop_keys_eq [OF sq_okD(1) [OF ok], of s es, unfolded keys surf]
  have "distinct (sq_surface q)" using ok by (rule sq_okD)
  show ?thesis
  proof (cases "sq_layout q")
    case None
    then have "\<forall>e \<in> set (sq_surface q). \<not> sf_layout (elem_value q e)"
      using sq_okD(6) [OF ok] by (auto simp flip: slot_eq_None)
    with None show ?thesis by (simp add: drop rebaseline_def cong: filter_cong)
  next
    case (Some l)
    then have "\<forall>e \<in> set (sq_surface q). sf_layout (elem_value q e) \<longleftrightarrow> e = l"
      using sq_okD(6) [OF ok] by (metis slot_eq_None option.inject)
    then have "filter (\<lambda>e. e \<noteq> l) (filter (\<lambda>e. sf_layout (elem_value q e) \<or> keep s (elem_value q e)) (sq_surface q)) =
        filter (\<lambda>e. keep s (elem_value q e)) (sq_surface q)"
      unfolding filter_filter by (intro filter_cong) (auto simp: keep_def)
    with Some \<open>distinct (sq_surface q)\<close> show ?thesis
      by (simp add: drop rebaseline_def list_remove_def remove1_distinct_filter del: filter_filter)
  qed
qed

lemma rebaseline_ok: "sq_ok q \<Longrightarrow> sq_ok (rebaseline s q\<lparr>sq_layout := None\<rparr>)"
proof -
  assume ok: "sq_ok q"
  let ?q = "rebaseline s q\<lparr>sq_layout := None\<rparr>"
  have frames: "surface_frames ?q = filter (keep s) (surface_frames q)"
    by (simp add: surface_frames_def rebaseline_def elem_value_eq filter_map o_def)
  have "gm_get (sq_keys ?q) k = Some e \<longleftrightarrow> e \<in> set (sq_surface ?q) \<and> slot (elem_value ?q e) = Some k" for k e
    using sq_okD(5) [OF ok, of k e] gm_get_filter [OF sq_okD(2) [OF ok], of "\<lambda>p. s < sf_seq (elem_value q (snd p))" k]
    by (auto simp: rebaseline_def keep_def slot_def split: option.splits if_splits)
  moreover have "sq_layout ?q = Some e \<longleftrightarrow> e \<in> set (sq_surface ?q) \<and> slot (elem_value ?q e) = None" for e
    by (auto simp: rebaseline_def keep_def slot_eq_None)
  moreover have "lane_ok (surface_frames ?q)"
    unfolding frames by (rule lane_ok_filter [OF sq_okD(3) [OF ok]])
  ultimately show ?thesis
    using ok unfolding sq_ok_def by (simp add: rebaseline_def)
qed

lemma pushSurfaceLayout_in_eq:
  assumes ok: "sq_ok q" and es: "set es = set (sq_keys q)"
  shows "pushSurfaceLayout_in es s d q =
    (if \<exists>f \<in> set (surface_frames q). sf_layout f \<and> s < sf_seq f then q
     else let (q', e) = list_push_back (layout_frame s d) (rebaseline s q) in poke (q'\<lparr>sq_layout := Some e\<rparr>))"
proof -
  have "(case sq_layout q of Some e \<Rightarrow> s < sf_seq (elem_value q e) | None \<Rightarrow> False) \<longleftrightarrow>
      (\<exists>f \<in> set (surface_frames q). sf_layout f \<and> s < sf_seq f)"
  proof (cases "sq_layout q")
    case None
    then show ?thesis using sq_okD(6) [OF ok] by (auto simp: surface_frames_def slot_eq_None)
  next
    case (Some l)
    then have "\<forall>e \<in> set (sq_surface q). sf_layout (elem_value q e) \<longleftrightarrow> e = l" "l \<in> set (sq_surface q)"
      using sq_okD(6) [OF ok] by (metis slot_eq_None option.inject)+
    with Some show ?thesis by (auto simp: surface_frames_def)
  qed
  moreover have "sq_layout (drop_keys s es q) = sq_layout q"
    by (simp add: drop_keys_eq [OF sq_okD(1) [OF ok]])
  ultimately show ?thesis
    by (auto simp: pushSurfaceLayout_in_def Let_def layout_frame_def drop_then_remove [OF ok es])
qed

lemma pushSurfaceLayout_lanes:
  assumes "sq_ok q"
  shows "surface_frames (pushSurfaceLayout s d q) = put_layout s d (surface_frames q)"
proof -
  have "surface_frames (fst (list_push_back (layout_frame s d) (rebaseline s q))) =
      filter (keep s) (surface_frames q) @ [layout_frame s d]"
    using sq_okD(4) [OF assms]
    by (fastforce simp: list_push_back_def rebaseline_def surface_frames_def elem_value_eq filter_map o_def)
  then show ?thesis
    by (auto simp: pushSurfaceLayout_def pushSurfaceLayout_in_eq [OF assms refl] put_layout_def keep_def
        split_def Let_def)
qed

lemma pushSurfaceLayout_ok:
  assumes ok: "sq_ok q"
  shows "sq_ok (pushSurfaceLayout s d q)"
proof (cases "\<exists>f \<in> set (surface_frames q). sf_layout f \<and> s < sf_seq f")
  case True
  then show ?thesis using ok by (simp add: pushSurfaceLayout_def pushSurfaceLayout_in_eq [OF ok refl])
next
  case False
  let ?r = "rebaseline s q\<lparr>sq_layout := None\<rparr>" and ?q = "pushSurfaceLayout s d q"
  have r: "sq_ok ?r" using ok by (rule rebaseline_ok)
  have new: "sq_next ?r \<notin> set (sq_surface ?r)" using sq_okD(4) [OF r] by blast
  have q': "sq_surface ?q = sq_surface ?r @ [sq_next ?r]" "sq_next ?q = Suc (sq_next ?r)"
    "sq_cell ?q = (sq_cell ?r)(sq_next ?r \<mapsto> layout_frame s d)" "sq_layout ?q = Some (sq_next ?r)"
    "sq_keys ?q = sq_keys ?r" "sq_state ?q = sq_state ?r"
    using False by (auto simp: pushSurfaceLayout_def pushSurfaceLayout_in_eq [OF ok refl]
        list_push_back_def rebaseline_def Let_def)
  have v: "elem_value ?q e = (if e = sq_next ?r then layout_frame s d else elem_value ?r e)" for e
    by (simp add: elem_value_eq q')
  have "lane_ok (surface_frames ?q)"
    using ok by (simp add: pushSurfaceLayout_lanes lane_ok_put_layout sq_okD(3))
  moreover have "gm_get (sq_keys ?q) k' = Some e \<longleftrightarrow> e \<in> set (sq_surface ?q) \<and> slot (elem_value ?q e) = Some k'" for k' e
    using new sq_okD(5) [OF r, of k' e] by (auto simp: q' v)
  moreover have "sq_layout ?q = Some e \<longleftrightarrow> e \<in> set (sq_surface ?q) \<and> slot (elem_value ?q e) = None" for e
    using new sq_okD(6) [OF r, of e] by (auto simp: q' v)
  ultimately show ?thesis
    using r new by (auto simp: sq_ok_def q')
qed

lemma pop_surface:
  assumes ok: "sq_ok q" and "sq_state q = []" and "sq_surface q = e # es"
  shows "sq_ok (fst (pop q)) \<and> sq_surface (fst (pop q)) = es \<and> elem_value (fst (pop q)) = elem_value q \<and>
    sq_state (fst (pop q)) = [] \<and> snd (pop q) = Some (sf_data (elem_value q e))"
proof -
  let ?q = "fst (pop q)"
  have e: "e \<notin> set es" "distinct es" using sq_okD(1) [OF ok] assms(3) by auto
  have lay: "sq_layout q = Some e \<longleftrightarrow> sf_layout (elem_value q e)"
    using sq_okD(6) [OF ok, of e] assms(3) by (auto simp: slot_eq_None)
  have key: "gm_get (sq_keys q) (sf_key (elem_value q e)) = Some e \<longleftrightarrow> \<not> sf_layout (elem_value q e)"
    using sq_okD(5) [OF ok, of "sf_key (elem_value q e)" e] assms(3) by (auto simp: slot_def)
  have q': "sq_surface ?q = es" "sq_cell ?q = sq_cell q" "sq_next ?q = sq_next q" "sq_state ?q = []"
    "sq_layout ?q = (if sf_layout (elem_value q e) then None else sq_layout q)"
    "sq_keys ?q = (if sf_layout (elem_value q e) then sq_keys q else gm_del (sf_key (elem_value q e)) (sq_keys q))"
    using assms lay key by (auto simp: pop_def Let_def list_remove_def)
  have v: "elem_value ?q = elem_value q" by (simp add: elem_value_eq q')
  have uniq: "slot (elem_value q e') \<noteq> slot (elem_value q e)" if "e' \<in> set es" for e'
    using sq_okD(3) [OF ok] assms(3) that by (auto simp: lane_ok_def surface_frames_def image_iff)
  have "lane_ok (surface_frames ?q)"
    using sq_okD(3) [OF ok] assms(3) by (auto simp: surface_frames_def q' v intro: lane_ok_tl)
  moreover have "gm_get (sq_keys ?q) k = Some e' \<longleftrightarrow> e' \<in> set (sq_surface ?q) \<and> slot (elem_value ?q e') = Some k" for k e'
    using sq_okD(5) [OF ok, of k e'] uniq [of e'] e(1) assms(3)
    by (auto simp: q' v gomap_simps slot_def split: if_splits)
  moreover have "sq_layout ?q = Some e' \<longleftrightarrow> e' \<in> set (sq_surface ?q) \<and> slot (elem_value ?q e') = None" for e'
    using sq_okD(6) [OF ok, of e'] uniq [of e'] e(1) assms(3)
    by (auto simp: q' v slot_def split: if_splits)
  ultimately have "sq_ok ?q"
    using ok e assms(3) by (auto simp: sq_ok_def q' assms(2))
  with q' v show ?thesis using assms by (simp add: pop_def Let_def)
qed

lemma pop_state:
  assumes "sq_ok q" and "sq_state q = d # ds"
  shows "sq_ok (fst (pop q)) \<and> surface_frames (fst (pop q)) = surface_frames q \<and>
    sq_state (fst (pop q)) = ds \<and> snd (pop q) = Some d"
  using assms by (simp add: pop_def sq_ok_def surface_frames_def elem_value_eq)

lemma pop_empty: "sq_state q = [] \<Longrightarrow> sq_surface q = [] \<Longrightarrow> pop q = (q, None)"
  by (simp add: pop_def)

interpretation sq: coalescing_queue newSendQueue pushSurfaceKey pushSurfaceLayout pushOther pop
  surface_frames sq_state sq_ok sendBuffer
proof (unfold_locales, goal_cases)
  case (3 q k s d)
  then show ?case by (rule pushSurfaceKey_ok)
next
  case (4 q k s d)
  then show ?case
    by (auto simp: pushSurfaceKey_lanes) (auto simp: pushSurfaceKey_def list_push_back_def Let_def split: option.splits)
next
  case (6 q s d)
  then show ?case
    by (auto simp: pushSurfaceLayout_lanes)
       (auto simp: pushSurfaceLayout_def pushSurfaceLayout_in_eq list_push_back_def rebaseline_def Let_def)
next
  case (8 q d)
  then show ?case by (auto simp: pushOther_lanes pushOther_def)
next
  case (9 q)
  then show ?case
    using pop_state [of q] pop_surface [of q] pop_empty [of q] by (cases "sq_state q"; cases "sq_surface q") auto
next
  case (10 q)
  show ?case
  proof (cases "sq_state q")
    case (Cons d ds)
    with pop_state [OF 10 Cons] show ?thesis by simp
  next
    case Nil
    then show ?thesis
      using pop_surface [OF 10 Nil] pop_empty [of q] by (cases "sq_surface q") (auto simp: surface_frames_def)
  qed
next
  case 2
  show ?case by (simp add: newSendQueue_def surface_frames_def)
qed (simp_all add: newSendQueue_ok pushOther_ok pushSurfaceLayout_ok sq_okD(3))

section \<open>A connection's queue over any interleaving of producers and the write loop\<close>

text \<open>
  Every operation locks the queue for its whole body, so a concurrent execution is some
  sequence of operations.  \<open>delivered\<close> collects what the write loop popped.
\<close>

datatype 'd qop = PushOther 'd | PushKey int int 'd | PushLayout int 'd | Pop

fun q_step :: "'d send_queue \<times> 'd list \<Rightarrow> 'd qop \<Rightarrow> 'd send_queue \<times> 'd list" where
  "q_step (q, ds) (PushOther d) = (fst (pushOther d q), ds)"
| "q_step (q, ds) (PushKey k s d) = (pushSurfaceKey k s d q, ds)"
| "q_step (q, ds) (PushLayout s d) = (pushSurfaceLayout s d q, ds)"
| "q_step (q, ds) Pop = (case pop q of (q', Some d) \<Rightarrow> (q', ds @ [d]) | (q', None) \<Rightarrow> (q', ds))"

definition q_run :: "'d qop list \<Rightarrow> 'd send_queue \<times> 'd list" where
  "q_run ops = foldl q_step (newSendQueue, []) ops"

text \<open>
  \<open>dec\<close> reads a delivered byte string as the surface frame it encodes, \<open>None\<close> for any
  other frame; \<open>pushed\<close> is the surface traffic as it was produced.
\<close>

definition client_view :: "('d \<Rightarrow> 'd surface_frame option) \<Rightarrow> 'd list \<Rightarrow> 'd surface_view" where
  "client_view dec ds = apply_frames empty_view (List.map_filter dec ds)"

fun pushed_frame :: "'d qop \<Rightarrow> 'd surface_frame option" where
  "pushed_frame (PushKey k s d) = Some (key_frame k s d)"
| "pushed_frame (PushLayout s d) = Some (layout_frame s d)"
| "pushed_frame _ = None"

definition pushed :: "'d qop list \<Rightarrow> 'd surface_frame list" where
  "pushed ops = List.map_filter pushed_frame ops"

fun wire_ok :: "('d \<Rightarrow> 'd surface_frame option) \<Rightarrow> 'd qop \<Rightarrow> bool" where
  "wire_ok dec (PushOther d) \<longleftrightarrow> dec d = None"
| "wire_ok dec (PushKey k s d) \<longleftrightarrow> dec d = Some (key_frame k s d)"
| "wire_ok dec (PushLayout s d) \<longleftrightarrow> dec d = Some (layout_frame s d)"
| "wire_ok dec Pop \<longleftrightarrow> True"

definition layout_seqs :: "'d qop list \<Rightarrow> int list" where
  "layout_seqs ops = map sf_seq (filter sf_layout (pushed ops))"

abbreviation layouts_in_order :: "'d qop list \<Rightarrow> bool" where
  "layouts_in_order ops \<equiv> sorted (layout_seqs ops)"

lemma q_run_Nil [simp]: "q_run [] = (newSendQueue, [])"
  by (simp add: q_run_def)

lemma q_run_snoc: "q_run (ops @ [x]) = q_step (q_run ops) x"
  by (simp add: q_run_def)

lemma map_filter_snoc:
  "List.map_filter f (xs @ [x]) = List.map_filter f xs @ (case f x of Some y \<Rightarrow> [y] | None \<Rightarrow> [])"
  by (simp add: List.map_filter_def split: option.splits)

lemma pushed_simps [simp]:
  "pushed [] = []" "pushed (ops @ [PushOther d]) = pushed ops" "pushed (ops @ [Pop]) = pushed ops"
  "pushed (ops @ [PushKey k s d]) = pushed ops @ [key_frame k s d]"
  "pushed (ops @ [PushLayout s d]) = pushed ops @ [layout_frame s d]"
  by (simp_all add: pushed_def map_filter_snoc List.map_filter_def)

lemma client_view_simps [simp]:
  "client_view dec [] = empty_view"
  "client_view dec (ds @ [d]) = (case dec d of Some f \<Rightarrow> apply_frame (client_view dec ds) f | None \<Rightarrow> client_view dec ds)"
  by (simp_all add: client_view_def map_filter_snoc split: option.splits)

lemma put_key_set: "f \<in> set (put_key k s d xs) \<Longrightarrow> f = key_frame k s d \<or> f \<in> set xs"
  by (auto simp: put_key_def split: if_splits)

lemma put_layout_set: "f \<in> set (put_layout s d xs) \<Longrightarrow> f = layout_frame s d \<or> f \<in> set xs"
  by (auto simp: put_layout_def split: if_splits)

lemma q_run_ok: "sq_ok (fst (q_run ops))"
proof (induction ops rule: rev_induct)
  case Nil
  show ?case by (simp add: newSendQueue_ok)
next
  case (snoc x ops)
  then show ?case
    using sq.pop_ok [of "fst (q_run ops)"]
    by (cases "q_run ops"; cases x) (auto simp: q_run_snoc pushOther_ok pushSurfaceKey_ok pushSurfaceLayout_ok split: prod.splits option.splits)
qed

text \<open>What the lanes hold was pushed.\<close>

lemma q_run_lane: "set (surface_frames (fst (q_run ops))) \<subseteq> set (pushed ops)"
proof (induction ops rule: rev_induct)
  case Nil
  show ?case by (simp add: sq.new_lanes)
next
  case (snoc x ops)
  obtain q ds where q: "q_run ops = (q, ds)" by (cases "q_run ops")
  have ok: "sq_ok q" using q_run_ok [of ops] by (simp add: q)
  show ?case
  proof (cases x)
    case (PushKey k s d)
    then show ?thesis
      using snoc put_key_set [of _ k s d "surface_frames q"]
      by (auto simp: q_run_snoc q pushSurfaceKey_lanes [OF ok])
  next
    case (PushLayout s d)
    then show ?thesis
      using snoc put_layout_set [of _ s d "surface_frames q"]
      by (auto simp: q_run_snoc q pushSurfaceLayout_lanes [OF ok])
  next
    case (PushOther d)
    then show ?thesis using snoc by (simp add: q_run_snoc q pushOther_lanes)
  next
    case Pop
    then show ?thesis
      using snoc sq.pop_lanes [OF ok]
      by (auto simp: q_run_snoc q split: prod.splits option.splits list.splits)
  qed
qed

lemma pushed_wire:
  "\<forall>x \<in> set ops. wire_ok dec x \<Longrightarrow> f \<in> set (pushed ops) \<Longrightarrow> dec (sf_data f) = Some f"
proof (induction ops rule: rev_induct)
  case (snoc x ops)
  then show ?case by (cases x) auto
qed simp

lemma q_run_others:
  "\<forall>x \<in> set ops. wire_ok dec x \<Longrightarrow> \<forall>d \<in> set (sq_state (fst (q_run ops))). dec d = None"
proof (induction ops rule: rev_induct)
  case Nil
  show ?case by (simp add: sq.new_lanes)
next
  case (snoc x ops)
  obtain q ds where q: "q_run ops = (q, ds)" by (cases "q_run ops")
  have ok: "sq_ok q" using q_run_ok [of ops] by (simp add: q)
  show ?case
    using snoc sq.pop_lanes [OF ok] sq.push_key_lanes [OF ok] sq.push_layout_lanes [OF ok]
    by (cases x) (auto simp: q_run_snoc q pushOther_def split: prod.splits option.splits list.splits)
qed

text \<open>
  What a client is meant to see, told from the operations and what was popped: every frame
  pushed, in that order, except a layout pushed while one of a higher sequence is waiting.  The
  layout waiting is the last one pushed that counts, until a pop delivers it.
\<close>

definition still_waiting :: "('d \<Rightarrow> 'd surface_frame option) \<Rightarrow> 'd option \<Rightarrow> int option \<Rightarrow> int option" where
  "still_waiting dec popped waiting =
     (case Option.bind popped dec of Some f \<Rightarrow> if sf_layout f then None else waiting | None \<Rightarrow> waiting)"

definition outdated :: "int option \<Rightarrow> int \<Rightarrow> bool" where
  "outdated waiting s = (case waiting of Some s' \<Rightarrow> s < s' | None \<Rightarrow> False)"

fun meant_step :: "('d \<Rightarrow> 'd surface_frame option) \<Rightarrow> ('d send_queue \<times> 'd list) \<times> int option \<times> 'd surface_frame list \<Rightarrow> 'd qop \<Rightarrow>
    ('d send_queue \<times> 'd list) \<times> int option \<times> 'd surface_frame list" where
  "meant_step dec (c, w, fs) (PushOther d) = (q_step c (PushOther d), w, fs)"
| "meant_step dec (c, w, fs) (PushKey k s d) = (q_step c (PushKey k s d), w, fs @ [key_frame k s d])"
| "meant_step dec (c, w, fs) (PushLayout s d) =
     (q_step c (PushLayout s d), if outdated w s then (w, fs) else (Some s, fs @ [layout_frame s d]))"
| "meant_step dec (c, w, fs) Pop = (q_step c Pop, still_waiting dec (snd (pop (fst c))) w, fs)"

definition meant_run :: "('d \<Rightarrow> 'd surface_frame option) \<Rightarrow> 'd qop list \<Rightarrow>
    ('d send_queue \<times> 'd list) \<times> int option \<times> 'd surface_frame list" where
  "meant_run dec ops = foldl (meant_step dec) ((newSendQueue, []), None, []) ops"

definition meant :: "('d \<Rightarrow> 'd surface_frame option) \<Rightarrow> 'd qop list \<Rightarrow> 'd surface_frame list" where
  "meant dec ops = snd (snd (meant_run dec ops))"

lemma meant_run_snoc: "meant_run dec (ops @ [x]) = meant_step dec (meant_run dec ops) x"
  by (simp add: meant_run_def)

lemma meant_run_queue: "fst (meant_run dec ops) = q_run ops"
proof (induction ops rule: rev_induct)
  case (snoc x ops)
  then show ?case by (cases "meant_run dec ops"; cases x) (auto simp: meant_run_snoc q_run_snoc)
qed (simp add: meant_run_def)

text \<open>The layout waiting is the one the lane holds.\<close>

abbreviation layouts :: "'d surface_frame list \<Rightarrow> 'd surface_frame list" where
  "layouts xs \<equiv> filter sf_layout xs"

lemma layouts_put_key: "map sf_seq (layouts (put_key k s d xs)) = map sf_seq (layouts xs)"
proof -
  have "map sf_seq (layouts (map (\<lambda>f. if is_key k f then key_frame k s d else f) xs)) = map sf_seq (layouts xs)"
    by (induction xs) auto
  then show ?thesis by (auto simp: put_key_def)
qed

lemma layouts_put_layout:
  "layouts (put_layout s d xs) = (if \<exists>f \<in> set xs. sf_layout f \<and> s < sf_seq f then layouts xs else [layout_frame s d])"
proof -
  have "layouts (filter (\<lambda>f. \<not> sf_layout f \<and> s < sf_seq f) xs) = []" by (auto simp: filter_empty_conv)
  then show ?thesis by (auto simp: put_layout_def simp del: filter_filter)
qed

lemma lane_ok_head_layout: "lane_ok (f # xs) \<Longrightarrow> sf_layout f \<Longrightarrow> layouts xs = []"
  by (auto simp: lane_ok_def filter_empty_conv simp flip: slot_eq_None intro: rev_image_eqI)

lemma waiting_seq:
  assumes "map sf_seq (layouts xs) = (case w of Some s \<Rightarrow> [s] | None \<Rightarrow> [])"
  shows "(\<exists>f \<in> set xs. sf_layout f \<and> sf_seq f = t) \<longleftrightarrow> w = Some t"
proof -
  have "(\<exists>f \<in> set xs. sf_layout f \<and> sf_seq f = t) \<longleftrightarrow> t \<in> set (map sf_seq (layouts xs))" by auto
  also have "\<dots> \<longleftrightarrow> w = Some t" unfolding assms by (cases w) auto
  finally show ?thesis .
qed

lemma meant_waiting:
  assumes "\<forall>x \<in> set ops. wire_ok dec x"
  shows "map sf_seq (layouts (surface_frames (fst (q_run ops)))) =
    (case fst (snd (meant_run dec ops)) of Some s \<Rightarrow> [s] | None \<Rightarrow> [])"
  using assms
proof (induction ops rule: rev_induct)
  case Nil
  show ?case by (simp add: sq.new_lanes meant_run_def)
next
  case (snoc x ops)
  obtain q ds w fs where m: "meant_run dec ops = ((q, ds), w, fs)" by (metis surj_pair)
  have q: "q_run ops = (q, ds)" using meant_run_queue [of dec ops] by (simp add: m)
  have ok: "sq_ok q" using q_run_ok [of ops] by (simp add: q)
  have IH: "map sf_seq (layouts (surface_frames q)) = (case w of Some s \<Rightarrow> [s] | None \<Rightarrow> [])"
    using snoc by (simp add: q m)
  show ?case
  proof (cases x)
    case (PushOther d)
    then show ?thesis using IH by (simp add: q_run_snoc meant_run_snoc q m pushOther_lanes)
  next
    case (PushKey k s d)
    then show ?thesis using IH by (simp add: q_run_snoc meant_run_snoc q m pushSurfaceKey_lanes [OF ok] layouts_put_key)
  next
    case (PushLayout s d)
    have "(\<exists>f \<in> set (surface_frames q). sf_layout f \<and> s < sf_seq f) \<longleftrightarrow> (\<exists>t \<in> set (map sf_seq (layouts (surface_frames q))). s < t)"
      by auto
    then have "(\<exists>f \<in> set (surface_frames q). sf_layout f \<and> s < sf_seq f) \<longleftrightarrow> outdated w s"
      unfolding IH by (simp add: outdated_def split: option.split)
    then show ?thesis
      using IH by (simp add: PushLayout q_run_snoc meant_run_snoc q m pushSurfaceLayout_lanes [OF ok] layouts_put_layout)
  next
    case Pop
    have taken: "\<forall>f \<in> set (surface_frames q). dec (sf_data f) = Some f"
      using q_run_lane [of ops] pushed_wire [of ops dec] snoc.prems by (auto simp: q)
    have others: "\<forall>d \<in> set (sq_state q). dec d = None"
      using q_run_others [of ops dec] snoc.prems by (simp add: q)
    have lane: "lane_ok (surface_frames q)" by (rule sq.lane_invariant [OF ok])
    show ?thesis
    proof (cases "sq_state q")
      case (Cons d more)
      then show ?thesis
        using sq.pop_lanes [OF ok] others IH
        by (auto simp: q_run_snoc meant_run_snoc q m Pop still_waiting_def split: prod.splits option.splits)
    next
      case Nil
      show ?thesis
      proof (cases "surface_frames q")
        case Nil
        then show ?thesis
          using \<open>sq_state q = []\<close> sq.pop_lanes [OF ok] IH
          by (auto simp: q_run_snoc meant_run_snoc q m Pop still_waiting_def split: prod.splits option.splits)
      next
        case (Cons f more)
        then have "sf_layout f \<Longrightarrow> layouts more = []" using lane lane_ok_head_layout by metis
        then show ?thesis
          using \<open>sq_state q = []\<close> Cons sq.pop_lanes [OF ok] IH taken
          by (auto simp: q_run_snoc meant_run_snoc q m Pop still_waiting_def split: prod.splits option.splits if_splits)
      qed
    qed
  qed
qed

text \<open>The commuting square: delivered now plus queued is what is meant.\<close>

lemma q_run_view:
  assumes "\<forall>x \<in> set ops. wire_ok dec x"
  shows "apply_frames (client_view dec (snd (q_run ops))) (surface_frames (fst (q_run ops))) =
    apply_frames empty_view (meant dec ops)"
  using assms
proof (induction ops rule: rev_induct)
  case Nil
  show ?case by (simp add: sq.new_lanes meant_def meant_run_def)
next
  case (snoc x ops)
  obtain q ds w fs where m: "meant_run dec ops = ((q, ds), w, fs)" by (metis surj_pair)
  have q: "q_run ops = (q, ds)" using meant_run_queue [of dec ops] by (simp add: m)
  have ok: "sq_ok q" using q_run_ok [of ops] by (simp add: q)
  from snoc have IH: "apply_frames (client_view dec ds) (surface_frames q) = apply_frames empty_view fs"
    by (simp add: q meant_def m)
  show ?case
  proof (cases x)
    case (PushLayout s d)
    have "map sf_seq (layouts (surface_frames q)) = (case w of Some s \<Rightarrow> [s] | None \<Rightarrow> [])"
      using meant_waiting [of ops dec] snoc.prems by (simp add: q m)
    then have w: "(\<exists>f \<in> set (surface_frames q). sf_layout f \<and> sf_seq f = t) \<longleftrightarrow> w = Some t" for t
      by (rule waiting_seq)
    show ?thesis
    proof (cases "outdated w s")
      case True
      then obtain t where t: "w = Some t" "s < t" by (auto simp: outdated_def split: option.splits)
      then have "\<exists>f \<in> set (surface_frames q). sf_layout f \<and> s < sf_seq f" using w [of t] by blast
      then have "put_layout s d (surface_frames q) = surface_frames q" by (simp add: put_layout_def)
      with True IH show ?thesis
        by (simp add: PushLayout q_run_snoc q meant_def meant_run_snoc m pushSurfaceLayout_lanes [OF ok])
    next
      case False
      have "sf_seq f \<le> s" if "f \<in> set (surface_frames q)" "sf_layout f" for f
      proof -
        have "w = Some (sf_seq f)" using w that by blast
        with False show ?thesis by (simp add: outdated_def)
      qed
      then have "\<forall>f \<in> set (surface_frames q). sf_layout f \<longrightarrow> sf_seq f \<le> s" by blast
      with False IH show ?thesis
        by (simp add: PushLayout q_run_snoc q meant_def meant_run_snoc m sq.view_push_layout [OF ok])
    qed
  next
    case Pop
    have taken: "\<forall>f \<in> set (surface_frames q). dec (sf_data f) = Some f"
      using q_run_lane [of ops] pushed_wire [of ops dec] snoc.prems(1) by (auto simp: q)
    have others: "\<forall>d \<in> set (sq_state q). dec d = None"
      using q_run_others [of ops dec] snoc.prems(1) by (simp add: q)
    show ?thesis
      using sq.pop_lanes [OF ok] taken others IH
      by (auto simp: q_run_snoc q Pop meant_def meant_run_snoc m split: prod.splits option.splits list.splits)
  next
    case (PushOther d)
    with IH show ?thesis by (simp add: q_run_snoc q pushOther_lanes meant_def meant_run_snoc m)
  next
    case (PushKey k s d)
    with IH show ?thesis by (simp add: q_run_snoc q sq.view_push_key [OF ok] meant_def meant_run_snoc m)
  qed
qed

text \<open>Layouts pushed in sequence order all count.\<close>

lemma meant_in_order:
  assumes "layouts_in_order ops"
  shows "meant dec ops = pushed ops"
proof -
  have "meant dec ops = pushed ops \<and> (\<forall>s. fst (snd (meant_run dec ops)) = Some s \<longrightarrow> s \<in> set (layout_seqs ops))"
    using assms
  proof (induction ops rule: rev_induct)
    case (snoc x ops)
    obtain c w fs where m: "meant_run dec ops = (c, w, fs)" by (metis surj_pair)
    have "layouts_in_order ops" using snoc.prems by (cases x) (simp_all add: layout_seqs_def sorted_append)
    with snoc have IH: "fs = pushed ops" "\<And>s. w = Some s \<Longrightarrow> s \<in> set (layout_seqs ops)" by (simp_all add: meant_def m)
    show ?case
    proof (cases x)
      case (PushLayout s d)
      then have "\<not> outdated w s"
        using snoc.prems IH(2) by (fastforce simp: outdated_def layout_seqs_def sorted_append split: option.splits)
      with IH PushLayout show ?thesis by (simp add: meant_def meant_run_snoc m layout_seqs_def)
    qed (use IH in \<open>auto simp: meant_def meant_run_snoc m layout_seqs_def still_waiting_def split: option.splits if_splits\<close>)
  qed (simp add: meant_def meant_run_def)
  then show ?thesis by blast
qed

text \<open>Popping \<open>depth\<close> times empties the queue.\<close>

lemma pop_depth:
  assumes "sq_ok q"
  shows "depth (fst (pop q)) = depth q - 1"
  using sq.pop_lanes [OF assms]
  by (cases "sq_state q"; cases "sq_surface q") (auto simp: depth_def pop_def surface_frames_def Let_def list_remove_def)

lemma q_run_drain: "n \<le> depth (fst (q_run ops)) \<Longrightarrow>
  depth (fst (q_run (ops @ replicate n Pop))) = depth (fst (q_run ops)) - n"
proof (induction n)
  case (Suc n)
  have "ops @ replicate (Suc n) Pop = (ops @ replicate n Pop) @ [Pop]"
    by (simp add: replicate_append_same)
  then have "fst (q_run (ops @ replicate (Suc n) Pop)) = fst (pop (fst (q_run (ops @ replicate n Pop))))"
    using q_run_snoc [of "ops @ replicate n Pop" Pop]
    by (cases "q_run (ops @ replicate n Pop)") (simp split: prod.splits option.splits)
  with Suc show ?case by (simp add: pop_depth q_run_ok)
qed simp

definition drained :: "'d qop list \<Rightarrow> 'd send_queue \<times> 'd list" where
  "drained ops = q_run (ops @ replicate (depth (fst (q_run ops))) Pop)"

lemma drained_empty: "surface_frames (fst (drained ops)) = [] \<and> sq_state (fst (drained ops)) = []"
proof -
  have "depth (fst (drained ops)) = 0"
    unfolding drained_def using q_run_drain [of _ ops] by simp
  then show ?thesis by (simp add: depth_def surface_frames_def)
qed

lemma q_run_replicate_pops:
  "n \<le> depth q \<Longrightarrow> sq_ok q \<Longrightarrow> snd (foldl q_step (q, ds) (replicate n Pop)) =
     ds @ take n (sq_state q @ map sf_data (surface_frames q))"
proof (induction n arbitrary: q ds)
  case (Suc n)
  let ?all = "\<lambda>q. sq_state q @ map sf_data (surface_frames q)"
  obtain d rest where split: "?all q = d # rest"
    using Suc.prems(1) by (cases "?all q") (auto simp: depth_def surface_frames_def)
  have pop: "snd (pop q) = Some d" "?all (fst (pop q)) = rest"
    using sq.pop_lanes [OF Suc.prems(2)] split by (auto split: list.splits)
  have "depth (fst (pop q)) \<ge> n" using Suc.prems by (simp add: pop_depth)
  with Suc.IH [of "fst (pop q)" "ds @ [d]"] sq.pop_ok [OF Suc.prems(2)] pop(2)
  have "snd (foldl q_step (fst (pop q), ds @ [d]) (replicate n Pop)) = ds @ [d] @ take n rest"
    by (simp del: take_append)
  then show ?case
    using pop(1) split by (cases "pop q") (simp del: take_append)
qed simp

lemma drained_delivers:
  "snd (drained ops) = snd (q_run ops) @ sq_state (fst (q_run ops)) @ map sf_data (surface_frames (fst (q_run ops)))"
  using q_run_replicate_pops [OF order.refl q_run_ok, of ops "snd (q_run ops)"]
  by (simp add: drained_def q_run_def depth_def surface_frames_def)

text \<open>The state and command frames the queue accepted, in the order they were offered.\<close>

fun accepted_from :: "'d send_queue \<times> 'd list \<Rightarrow> 'd qop list \<Rightarrow> 'd list" where
  "accepted_from c [] = []"
| "accepted_from c (x # ops) =
     (case x of PushOther d \<Rightarrow> if snd (pushOther d (fst c)) then [d] else [] | _ \<Rightarrow> []) @
     accepted_from (q_step c x) ops"

definition accepted :: "'d qop list \<Rightarrow> 'd list" where
  "accepted ops = accepted_from (newSendQueue, []) ops"

lemma accepted_snoc:
  "accepted (ops @ [x]) = accepted ops @
     (case x of PushOther d \<Rightarrow> if snd (pushOther d (fst (q_run ops))) then [d] else [] | _ \<Rightarrow> [])"
proof -
  have "accepted_from c (ops @ [x]) = accepted_from c ops @
      (case x of PushOther d \<Rightarrow> if snd (pushOther d (fst (foldl q_step c ops))) then [d] else [] | _ \<Rightarrow> [])" for c
    by (induction ops arbitrary: c) (simp_all split: qop.split)
  then show ?thesis unfolding accepted_def q_run_def .
qed

lemma q_run_accepted:
  assumes "\<forall>x \<in> set ops. wire_ok dec x"
  shows "filter (\<lambda>d. dec d = None) (snd (q_run ops)) @ sq_state (fst (q_run ops)) = accepted ops"
  using assms
proof (induction ops rule: rev_induct)
  case Nil
  show ?case by (simp add: sq.new_lanes accepted_def)
next
  case (snoc x ops)
  obtain q ds where q: "q_run ops = (q, ds)" by (cases "q_run ops")
  have ok: "sq_ok q" using q_run_ok [of ops] by (simp add: q)
  have lane: "\<forall>f \<in> set (surface_frames q). dec (sf_data f) \<noteq> None"
    using q_run_lane [of ops] pushed_wire [of ops dec] snoc.prems by (auto simp: q)
  have others: "\<forall>d \<in> set (sq_state q). dec d = None"
    using q_run_others [of ops dec] snoc.prems by (simp add: q)
  have IH: "filter (\<lambda>d. dec d = None) ds @ sq_state q = accepted ops"
    using snoc by (simp add: q)
  show ?case
    using IH lane others sq.pop_lanes [OF ok] sq.push_key_lanes [OF ok] sq.push_layout_lanes [OF ok]
    by (cases x) (auto simp: q_run_snoc q accepted_snoc pushOther_def split: prod.splits option.splits list.splits)
qed

section \<open>Properties\<close>

text \<open>
  C6: Coalescing is invisible.  Whatever the interleaving of producers and the write loop,
  and whatever the queue replaced or dropped meanwhile, once the queue is drained the
  client's surface is the one it would hold had every pushed frame been delivered in the
  order it was pushed, except for layouts pushed while a layout of a higher sequence was waiting
  to be written: those are void.  When layouts are pushed in sequence order there are none.
  (Each pushed byte string is the encoding of its frame.)
\<close>
theorem coalescing_transparent:
  assumes "\<forall>x \<in> set ops. wire_ok dec x"
  shows "client_view dec (snd (drained ops)) = apply_frames empty_view (meant dec ops) \<and>
    depth (fst (drained ops)) = 0 \<and>
    (layouts_in_order ops \<longrightarrow> meant dec ops = pushed ops)"
proof -
  let ?all = "ops @ replicate (depth (fst (q_run ops))) Pop"
  have meant: "meant dec (ops @ replicate n Pop) = meant dec ops" for n
  proof (induction n)
    case (Suc n)
    obtain c w fs where "meant_run dec (ops @ replicate n Pop) = (c, w, fs)" by (metis surj_pair)
    with Suc show ?case
      unfolding replicate_Suc replicate_append_same [symmetric] meant_def append_assoc [symmetric] meant_run_snoc by simp
  qed simp
  have "apply_frames (client_view dec (snd (q_run ?all))) (surface_frames (fst (q_run ?all))) =
      apply_frames empty_view (meant dec ?all)"
    using assms by (intro q_run_view) auto
  then show ?thesis
    using drained_empty [of ops] meant_in_order [of ops dec] by (simp add: drained_def meant depth_def surface_frames_def)
qed

definition example_ops :: "nat qop list" where
  "example_ops = [PushLayout 0 100, PushKey 3 1 101, PushOther 7, PushKey 3 2 102, Pop, Pop,
     PushKey 4 3 103, PushLayout 2 104]"

definition example_dec :: "nat \<Rightarrow> nat surface_frame option" where
  "example_dec d = (if d = 100 then Some (layout_frame 0 100) else if d = 101 then Some (key_frame 3 1 101)
     else if d = 102 then Some (key_frame 3 2 102) else if d = 103 then Some (key_frame 4 3 103)
     else if d = 104 then Some (layout_frame 2 104) else if d = 105 then Some (layout_frame 1 105) else None)"

text \<open>The layout 105 is pushed while 104, of a higher sequence, is waiting.\<close>

definition stale_ops :: "nat qop list" where
  "stale_ops = example_ops @ [PushLayout 1 105]"

lemma coalescing_transparent_witness:
  "client_view example_dec (snd (drained stale_ops)) = apply_frames empty_view (meant example_dec stale_ops) \<and>
   depth (fst (drained stale_ops)) = 0 \<and> snd (drained stale_ops) = [7, 100, 103, 104] \<and>
   map sf_data (meant example_dec stale_ops) = [100, 101, 102, 103, 104] \<and>
   meant example_dec example_ops = pushed example_ops"
proof -
  have wire: "\<forall>x \<in> set stale_ops. wire_ok example_dec x" "\<forall>x \<in> set example_ops. wire_ok example_dec x"
    by (simp_all add: stale_ops_def example_ops_def example_dec_def)
  have order: "layouts_in_order example_ops"
    by (simp add: example_ops_def layout_seqs_def pushed_def List.map_filter_def)
  have "snd (drained stale_ops) = [7, 100, 103, 104]" "map sf_data (meant example_dec stale_ops) = [100, 101, 102, 103, 104]"
    by code_simp+
  with coalescing_transparent [OF wire(1)] coalescing_transparent [OF wire(2)] order show ?thesis by simp
qed

text \<open>
  C31: The backlog is bounded: with key indices below the grid size \<open>n\<close>, a connection never
  queues more than \<open>sendBuffer\<close> state frames, one frame per key and one layout.
\<close>
theorem queue_bounded:
  assumes "\<forall>f \<in> set (pushed ops). \<not> sf_layout f \<longrightarrow> 0 \<le> sf_key f \<and> sf_key f < n"
  shows "depth (fst (q_run ops)) \<le> sendBuffer + nat n + 1"
proof -
  let ?q = "fst (q_run ops)"
  have "length (surface_frames ?q) \<le> Suc (card {0..<n})"
    using assms q_run_lane [of ops] by (intro sq.lane_bound q_run_ok) auto
  then show ?thesis
    using sq_okD(7) [OF q_run_ok, of ops] by (simp add: depth_def surface_frames_def)
qed

lemma queue_bounded_witness: "depth (fst (q_run example_ops)) \<le> 64 + 32 + 1"
proof -
  have "\<forall>f \<in> set (pushed example_ops). \<not> sf_layout f \<longrightarrow> 0 \<le> sf_key f \<and> sf_key f < 32"
    by (simp add: example_ops_def pushed_def List.map_filter_def)
  from queue_bounded [OF this] show ?thesis by (simp add: sendBuffer_def)
qed

text \<open>
  State and command frames are delivered in order and none is lost: what a drained
  connection delivered of them is exactly what \<open>pushOther\<close> accepted, in the order it did.
\<close>
lemma state_lane_fifo:
  assumes "\<forall>x \<in> set ops. wire_ok dec x"
  shows "filter (\<lambda>d. dec d = None) (snd (drained ops)) = accepted ops"
proof -
  have "\<forall>f \<in> set (surface_frames (fst (q_run ops))). dec (sf_data f) \<noteq> None"
    using q_run_lane [of ops] pushed_wire [OF assms] by auto
  moreover have "\<forall>d \<in> set (sq_state (fst (q_run ops))). dec d = None"
    using q_run_others [OF assms] .
  ultimately have "filter (\<lambda>d. dec d = None) (snd (drained ops)) =
      filter (\<lambda>d. dec d = None) (snd (q_run ops)) @ sq_state (fst (q_run ops))"
    by (auto simp: drained_delivers)
  then show ?thesis using q_run_accepted [OF assms] by simp
qed

lemma state_lane_fifo_witness:
  "filter (\<lambda>d. example_dec d = None) (snd (drained example_ops)) = [7]"
proof -
  have wire: "\<forall>x \<in> set example_ops. wire_ok example_dec x"
    by (simp add: example_ops_def example_dec_def)
  have "accepted example_ops = [7]" by code_simp
  with state_lane_fifo [OF wire] show ?thesis by simp
qed

text \<open>
  The \<open>keys\<close> map and the \<open>layout\<close> field never dangle: in every reachable queue they
  alias elements that are still on the surface list and hold that key's frame, so the
  type assertions on \<open>e.Value\<close> and the removals act on live elements.
\<close>
lemma aliases_live:
  "let q = fst (q_run ops) in
   (\<forall>k e. gm_get (sq_keys q) k = Some e \<longrightarrow>
      e \<in> set (sq_surface q) \<and> sq_cell q e \<noteq> None \<and> is_key k (elem_value q e)) \<and>
   (\<forall>e. sq_layout q = Some e \<longrightarrow>
      e \<in> set (sq_surface q) \<and> sq_cell q e \<noteq> None \<and> sf_layout (elem_value q e)) \<and>
   distinct (sq_surface q)"
  using q_run_ok [of ops] by (auto simp: sq_ok_def Let_def slot_eq_Some slot_eq_None)

lemma aliases_live_witness:
  "let q = fst (q_run example_ops) in gm_get (sq_keys q) 4 = Some 2 \<and> sf_key (elem_value q 2) = 4"
proof -
  have "gm_get (sq_keys (fst (q_run example_ops))) 4 = Some 2" by code_simp
  then show ?thesis using aliases_live [of example_ops] by (simp add: Let_def)
qed

text \<open>
  Go leaves the order of \<open>range q.keys\<close> unspecified; \<open>pushSurfaceLayout\<close> computes the same
  queue in every order.
\<close>
lemma layout_range_order:
  assumes "sq_ok q" and "set entries = set (sq_keys q)"
  shows "pushSurfaceLayout_in entries s d q = pushSurfaceLayout s d q"
  using pushSurfaceLayout_in_eq [OF assms] pushSurfaceLayout_in_eq [OF assms(1) refl]
  by (simp add: pushSurfaceLayout_def)

definition example_queue :: "nat send_queue" where
  "example_queue = fst (q_run [PushKey 3 1 101, PushKey 4 2 102])"

lemma layout_range_order_witness:
  "pushSurfaceLayout_in [(4, 1), (3, 0)] 1 103 example_queue = pushSurfaceLayout 1 103 example_queue"
proof (rule layout_range_order)
  show "sq_ok example_queue" by (simp add: example_queue_def q_run_ok)
  have "sq_keys example_queue = [(3, 0), (4, 1)]" by code_simp
  then show "set [(4, 1), (3, 0)] = set (sq_keys example_queue)" by auto
qed

end
