(* ===== verification/GoBase.thy ===== *)
theory GoBase
  imports Prelude Complex_Main
begin

text \<open>
  What the components use of Go's numbers and clock: 64-bit integer arithmetic with the
  wrap-around written out, truncating division, \<open>time.Duration\<close> as nanoseconds, and
  \<open>time.Time\<close> with its zero value.
\<close>

section \<open>64-bit integers\<close>

definition maxInt64 :: int where
  "maxInt64 = 2 ^ 63 - 1"

definition minInt64 :: int where
  "minInt64 = - (2 ^ 63)"

text \<open>The value an \<open>int64\<close> operation stores when the mathematical result is \<open>x\<close>.\<close>

definition wrap64 :: "int \<Rightarrow> int" where
  "wrap64 x = (x + 2 ^ 63) mod 2 ^ 64 - 2 ^ 63"

definition in_int64 :: "int \<Rightarrow> bool" where
  "in_int64 x \<longleftrightarrow> minInt64 \<le> x \<and> x \<le> maxInt64"

lemma wrap64_id: "in_int64 x \<Longrightarrow> wrap64 x = x"
  by (simp add: wrap64_def in_int64_def minInt64_def maxInt64_def)

lemma wrap64_range: "in_int64 (wrap64 x)"
  by (simp add: wrap64_def in_int64_def minInt64_def maxInt64_def)

text \<open>Go's integer division truncates towards zero; a zero divisor panics (\<open>None\<close>).\<close>

definition go_div :: "int \<Rightarrow> int \<Rightarrow> int option" where
  "go_div a b = (if b = 0 then None else Some (sgn a * sgn b * (\<bar>a\<bar> div \<bar>b\<bar>)))"

lemma go_div_pos: "0 \<le> a \<Longrightarrow> 0 < b \<Longrightarrow> go_div a b = Some (a div b)"
  by (cases "a = 0") (simp_all add: go_div_def)

section \<open>Time\<close>

text \<open>
  An instant, as nanoseconds since the zero \<open>time.Time\<close>.  \<open>t.Before(u)\<close> is \<open>t < u\<close> and
  \<open>t.After(u)\<close> is \<open>u < t\<close>.
\<close>

datatype time = Time (time_ns: int)

instantiation time :: linorder
begin

definition less_eq_time :: "time \<Rightarrow> time \<Rightarrow> bool" where
  "less_eq_time t u \<longleftrightarrow> time_ns t \<le> time_ns u"

definition less_time :: "time \<Rightarrow> time \<Rightarrow> bool" where
  "less_time t u \<longleftrightarrow> time_ns t < time_ns u"

instance
  by standard (auto simp: less_eq_time_def less_time_def time.expand)

end

lemma time_order_simps [simp]:
  "Time a \<le> Time b \<longleftrightarrow> a \<le> b" "Time a < Time b \<longleftrightarrow> a < b"
  by (simp_all add: less_eq_time_def less_time_def)

definition zero_time :: time where
  "zero_time = Time 0"

definition time_IsZero :: "time \<Rightarrow> bool" where
  "time_IsZero t \<longleftrightarrow> t = zero_time"

definition time_Add :: "time \<Rightarrow> int \<Rightarrow> time" where
  "time_Add t d = Time (time_ns t + d)"

text \<open>\<open>Sub\<close> saturates at the ends of \<open>Duration\<close>.\<close>

definition time_Sub :: "time \<Rightarrow> time \<Rightarrow> int" where
  "time_Sub t u = max minInt64 (min maxInt64 (time_ns t - time_ns u))"

lemma time_Add_ns [simp]: "time_ns (time_Add t d) = time_ns t + d"
  by (simp add: time_Add_def)

lemma time_Sub_le: "0 \<le> time_Sub t u \<Longrightarrow> time_Sub t u \<le> time_ns t - time_ns u"
  by (auto simp: time_Sub_def minInt64_def maxInt64_def)

lemma time_Sub_range: "time_Sub t u \<le> maxInt64"
  by (simp add: time_Sub_def minInt64_def maxInt64_def)

lemma time_Sub_ge: "d \<le> maxInt64 \<Longrightarrow> d \<le> time_ns t - time_ns u \<Longrightarrow> d \<le> time_Sub t u"
  by (simp add: time_Sub_def)

definition Second :: int where
  "Second = 1000000000"

definition Minute :: int where
  "Minute = 60 * Second"

definition Hour :: int where
  "Hour = 60 * Minute"

definition Millisecond :: int where
  "Millisecond = 1000000"

section \<open>Floating point\<close>

text \<open>\<open>float64\<close>; \<open>json.Marshal\<close> refuses the values that are not numbers.\<close>

datatype float64 = Fin rat | NaN | Inf bool

fun bit_length :: "nat \<Rightarrow> nat" where
  "bit_length n = (if n = 0 then 0 else Suc (bit_length (n div 2)))"

declare bit_length.simps [simp del]

text \<open>
  An \<open>int\<close> converted to \<open>float64\<close> is exact up to \<open>2^53\<close>, and beyond it
  rounded to 53 significant bits, ties to even.
\<close>

definition float64_of_int :: "int \<Rightarrow> int" where
  "float64_of_int n =
     (let a = nat \<bar>n\<bar> in
      if a \<le> 2 ^ 53 then n
      else let e = bit_length a - 53;
               q = a div 2 ^ e;
               r = a mod 2 ^ e;
               h = 2 ^ (e - 1);
               q' = (if h < r \<or> (r = h \<and> odd q) then q + 1 else q)
           in sgn n * int (q' * 2 ^ e))"

end
