(* ===== verification/RateLimiter.thy ===== *)
theory RateLimiter
  imports GoBase
begin

text \<open>
  \<open>rateLimiter\<close> of server/internal/api/ratelimit.go, the token bucket that guards the start
  of a chat authorization.  Its arithmetic is kept at 64 bits; \<open>None\<close> is a panic.
\<close>

record rate_limiter =
  rl_interval :: int
  rl_burst :: int
  rl_tokens :: int
  rl_last :: time

definition newRateLimiter :: "int \<Rightarrow> int \<Rightarrow> rate_limiter" where
  "newRateLimiter burst interval =
     \<lparr>rl_interval = interval, rl_burst = burst, rl_tokens = burst, rl_last = zero_time\<rparr>"

definition refill :: "time \<Rightarrow> rate_limiter \<Rightarrow> rate_limiter option" where
  "refill now l =
     (let elapsed = time_Sub now (rl_last l) in
      if elapsed \<ge> rl_interval l
      then (case go_div elapsed (rl_interval l) of
              None \<Rightarrow> None
            | Some gained \<Rightarrow>
                Some (l\<lparr>rl_tokens := min (wrap64 (rl_tokens l + gained)) (rl_burst l),
                        rl_last := time_Add (rl_last l) (wrap64 (gained * rl_interval l))\<rparr>))
      else Some l)"

definition allow :: "time \<Rightarrow> rate_limiter \<Rightarrow> (rate_limiter \<times> bool) option" where
  "allow now l =
     (let l1 = (if time_IsZero (rl_last l) then l\<lparr>rl_last := now\<rparr> else l) in
      case refill now l1 of
        None \<Rightarrow> None
      | Some l2 \<Rightarrow>
          if rl_tokens l2 = 0 then Some (l2, False)
          else Some (l2\<lparr>rl_tokens := wrap64 (rl_tokens l2 - 1)\<rparr>, True))"

text \<open>A sequence of calls: how many were granted, and the final limiter.\<close>

fun allow_all :: "time list \<Rightarrow> rate_limiter \<Rightarrow> (rate_limiter \<times> nat) option" where
  "allow_all [] l = Some (l, 0)"
| "allow_all (t # ts) l =
     (case allow t l of
        None \<Rightarrow> None
      | Some (l', granted) \<Rightarrow>
          (case allow_all ts l' of
             None \<Rightarrow> None
           | Some (l'', n) \<Rightarrow> Some (l'', n + (if granted then 1 else 0))))"

text \<open>
  The sizes for which the arithmetic cannot wrap, and the bucket's invariant.  The server
  uses \<open>chatStartBurst\<close> and \<open>chatStartEvery\<close>.
\<close>

definition limiter_ok :: "rate_limiter \<Rightarrow> bool" where
  "limiter_ok l \<longleftrightarrow> 2 \<le> rl_interval l \<and> rl_interval l \<le> maxInt64 \<and>
     0 \<le> rl_tokens l \<and> rl_tokens l \<le> rl_burst l \<and> rl_burst l < 2 ^ 62"

lemma time_Sub_exact: "0 \<le> time_Sub t u \<Longrightarrow> time_ns t - time_ns u \<le> maxInt64 \<Longrightarrow> time_Sub t u = time_ns t - time_ns u"
  by (auto simp: time_Sub_def minInt64_def maxInt64_def)

lemma refill_ok:
  assumes "limiter_ok l"
  obtains l' gained where "refill now l = Some l'" "limiter_ok l'" "0 \<le> gained"
    "rl_interval l' = rl_interval l" "rl_burst l' = rl_burst l"
    "rl_tokens l' = min (rl_tokens l + gained) (rl_burst l)"
    "time_ns (rl_last l') = time_ns (rl_last l) + gained * rl_interval l"
    "gained = 0 \<or> time_ns (rl_last l') \<le> time_ns now"
    "rl_interval l \<le> time_ns now - time_ns (rl_last l) \<Longrightarrow> 1 \<le> gained"
    "time_ns now - time_ns (rl_last l) \<le> maxInt64 \<Longrightarrow>
       gained = max 0 ((time_ns now - time_ns (rl_last l)) div rl_interval l)"
proof (cases "rl_interval l \<le> time_Sub now (rl_last l)")
  case False
  then have "refill now l = Some l" by (simp add: refill_def)
  moreover have "\<not> rl_interval l \<le> time_ns now - time_ns (rl_last l)"
    using False time_Sub_ge [of "rl_interval l" now "rl_last l"] assms by (auto simp: limiter_ok_def)
  moreover have "max 0 ((time_ns now - time_ns (rl_last l)) div rl_interval l) = 0"
    using calculation(2) assms by (auto simp: limiter_ok_def max_def not_less pos_imp_zdiv_nonneg_iff)
  ultimately show thesis using assms that [of l 0] by (simp add: limiter_ok_def)
next
  case True
  let ?e = "time_Sub now (rl_last l)" and ?i = "rl_interval l"
  let ?g = "?e div ?i"
  have i: "2 \<le> ?i" "0 \<le> ?e" using assms True by (auto simp: limiter_ok_def)
  have g: "1 \<le> ?g"
    using i True by (simp add: pos_imp_zdiv_pos_iff int_one_le_iff_zero_less)
  have g_le: "?g * ?i \<le> ?e"
    using pos_mod_sign [of ?i ?e] i by (simp add: div_mult_mod_eq minus_mod_eq_div_mult [symmetric])
  have g_ge: "0 \<le> ?g * ?i"
    using g i by simp
  note g = g g_le g_ge
  have "?g * 2 \<le> ?g * ?i" using i g by (intro mult_left_mono) auto
  also have "\<dots> \<le> 9223372036854775807"
    using order.trans [OF g(2) time_Sub_range [of now "rl_last l"]] by (simp add: maxInt64_def)
  finally have "?g \<le> 2 ^ 62" by simp
  then have "in_int64 (rl_tokens l + ?g)"
    using assms g by (auto simp: limiter_ok_def in_int64_def minInt64_def maxInt64_def)
  moreover have "in_int64 (?g * ?i)"
    using g time_Sub_range [of now "rl_last l"] by (auto simp: in_int64_def minInt64_def maxInt64_def)
  ultimately have "refill now l = Some (l\<lparr>rl_tokens := min (rl_tokens l + ?g) (rl_burst l),
      rl_last := time_Add (rl_last l) (?g * ?i)\<rparr>)"
    using True i by (simp add: refill_def Let_def go_div_pos wrap64_id)
  moreover have "time_ns (rl_last l) + ?g * ?i \<le> time_ns now"
    using time_Sub_le [OF i(2)] g by simp
  moreover have "limiter_ok (l\<lparr>rl_tokens := min (rl_tokens l + ?g) (rl_burst l), rl_last := time_Add (rl_last l) (?g * ?i)\<rparr>)"
    using assms g(1) by (simp add: limiter_ok_def)
  moreover have "0 \<le> ?g" using g(1) by linarith
  moreover have "?g = max 0 ((time_ns now - time_ns (rl_last l)) div ?i)" if "time_ns now - time_ns (rl_last l) \<le> maxInt64"
    using that i True g(1) time_Sub_exact [of now "rl_last l"] by simp
  ultimately show thesis using that [of _ ?g] g(1) by simp
qed

lemma allow_ok:
  assumes "limiter_ok l"
  obtains l' granted gained where "allow now l = Some (l', granted)" "limiter_ok l'" "0 \<le> gained"
    "rl_interval l' = rl_interval l" "rl_burst l' = rl_burst l"
    "rl_tokens l' = min (rl_tokens l + gained) (rl_burst l) - (if granted then 1 else 0)"
    "time_ns (rl_last l') =
       (if time_IsZero (rl_last l) then time_ns now else time_ns (rl_last l)) + gained * rl_interval l"
    "gained = 0 \<or> time_ns (rl_last l') \<le> time_ns now"
    "granted \<longleftrightarrow> min (rl_tokens l + gained) (rl_burst l) \<noteq> 0"
    "\<not> time_IsZero (rl_last l) \<Longrightarrow> rl_interval l \<le> time_ns now - time_ns (rl_last l) \<Longrightarrow> 1 \<le> gained"
    "\<not> time_IsZero (rl_last l) \<Longrightarrow> time_ns now - time_ns (rl_last l) \<le> maxInt64 \<Longrightarrow>
       gained = max 0 ((time_ns now - time_ns (rl_last l)) div rl_interval l)"
proof -
  define l1 where "l1 = (if time_IsZero (rl_last l) then l\<lparr>rl_last := now\<rparr> else l)"
  have l1: "limiter_ok l1" "rl_interval l1 = rl_interval l" "rl_burst l1 = rl_burst l" "rl_tokens l1 = rl_tokens l"
    using assms by (auto simp: l1_def limiter_ok_def)
  obtain l2 gained where r: "refill now l1 = Some l2" "limiter_ok l2" "0 \<le> gained"
    "rl_interval l2 = rl_interval l1" "rl_burst l2 = rl_burst l1"
    "rl_tokens l2 = min (rl_tokens l1 + gained) (rl_burst l1)"
    "time_ns (rl_last l2) = time_ns (rl_last l1) + gained * rl_interval l1"
    "gained = 0 \<or> time_ns (rl_last l2) \<le> time_ns now"
    "rl_interval l1 \<le> time_ns now - time_ns (rl_last l1) \<Longrightarrow> 1 \<le> gained"
    "time_ns now - time_ns (rl_last l1) \<le> maxInt64 \<Longrightarrow>
       gained = max 0 ((time_ns now - time_ns (rl_last l1)) div rl_interval l1)"
    using refill_ok [OF l1(1)] by blast
  define l' where "l' = (if rl_tokens l2 = 0 then l2 else l2\<lparr>rl_tokens := wrap64 (rl_tokens l2 - 1)\<rparr>)"
  have "wrap64 (rl_tokens l2 - 1) = rl_tokens l2 - 1" if "rl_tokens l2 \<noteq> 0"
    using r(2) that by (intro wrap64_id) (auto simp: limiter_ok_def in_int64_def minInt64_def maxInt64_def)
  then have l': "rl_tokens l' = rl_tokens l2 - (if rl_tokens l2 = 0 then 0 else 1)"
      "rl_last l' = rl_last l2" "rl_interval l' = rl_interval l2" "rl_burst l' = rl_burst l2"
    by (auto simp: l'_def)
  then have "limiter_ok l'" using r(2) by (auto simp: limiter_ok_def)
  moreover have "allow now l = Some (l', rl_tokens l2 \<noteq> 0)"
    using r(1) by (simp add: allow_def l1_def [symmetric] Let_def l'_def)
  moreover have "rl_last l1 = (if time_IsZero (rl_last l) then now else rl_last l)"
    by (simp add: l1_def)
  ultimately show thesis
    using that [of l' "rl_tokens l2 \<noteq> 0" gained] r l' l1 by (auto split: if_splits)
qed

text \<open>
  The accounting: permits spent and permits left, in nanoseconds, are paid for by the
  initial burst and the time credited since \<open>base\<close>.
\<close>

lemma allow_all_account:
  assumes "limiter_ok l" and "\<forall>t \<in> set ts. t \<le> t1" and "zero_time < rl_last l" and "rl_last l \<le> t1"
  shows "\<exists>l' n. allow_all ts l = Some (l', n) \<and> limiter_ok l' \<and> rl_last l' \<le> t1 \<and>
    (int n + rl_tokens l') * rl_interval l + time_ns (rl_last l) \<le>
      rl_tokens l * rl_interval l + time_ns (rl_last l')"
  using assms
proof (induction ts arbitrary: l)
  case Nil
  then show ?case by simp
next
  case (Cons t ts)
  have nonzero: "\<not> time_IsZero (rl_last l)" using Cons.prems(3) by (auto simp: time_IsZero_def)
  obtain l1 granted gained where a: "allow t l = Some (l1, granted)" "limiter_ok l1" "0 \<le> gained"
    "rl_interval l1 = rl_interval l"
    "rl_tokens l1 = min (rl_tokens l + gained) (rl_burst l) - (if granted then 1 else 0)"
    "time_ns (rl_last l1) =
       (if time_IsZero (rl_last l) then time_ns t else time_ns (rl_last l)) + gained * rl_interval l"
    "gained = 0 \<or> time_ns (rl_last l1) \<le> time_ns t"
    using allow_ok [OF Cons.prems(1), of t] by blast
  note last1 = a(6) [unfolded if_not_P [OF nonzero]]
  let ?i = "rl_interval l"
  have i: "2 \<le> ?i" using Cons.prems(1) by (simp add: limiter_ok_def)
  have "0 \<le> gained * ?i" using a(3) i by simp
  then have "zero_time < rl_last l1" using Cons.prems(3) last1 by (simp add: less_time_def)
  moreover have "rl_last l1 \<le> t1"
    using a(7) last1 Cons.prems(2,4) by (auto simp: less_eq_time_def)
  ultimately obtain l' n where rest: "allow_all ts l1 = Some (l', n)" "limiter_ok l'" "rl_last l' \<le> t1"
    "(int n + rl_tokens l') * ?i + time_ns (rl_last l1) \<le> rl_tokens l1 * ?i + time_ns (rl_last l')"
    using Cons.IH [OF a(2)] Cons.prems(2) a(4) by auto
  have "rl_tokens l1 + (if granted then 1 else 0) \<le> rl_tokens l + gained" using a(5) by simp
  then have "(rl_tokens l1 + (if granted then 1 else 0)) * ?i \<le> (rl_tokens l + gained) * ?i"
    using i by (intro mult_right_mono) auto
  then have "(int n + (if granted then 1 else 0) + rl_tokens l') * ?i + time_ns (rl_last l) \<le>
      rl_tokens l * ?i + time_ns (rl_last l')"
    using rest(4) last1 by (auto simp: algebra_simps split: if_splits)
  with rest a(1) show ?case by (auto simp: add_ac)
qed

text \<open>From a full bucket, as the server makes it.\<close>

lemma allow_all_bound:
  assumes "2 \<le> interval" "interval \<le> maxInt64" "0 \<le> burst" "burst < 2 ^ 62"
    and "zero_time < t0" and "\<forall>t \<in> set (t0 # ts). t \<le> t1"
  shows "\<exists>l n. allow_all (t0 # ts) (newRateLimiter burst interval) = Some (l, n) \<and>
    (int n - burst) * interval \<le> time_ns t1 - time_ns t0"
proof -
  let ?l = "newRateLimiter burst interval\<lparr>rl_last := t0\<rparr>"
  have same: "allow_all (t0 # ts) (newRateLimiter burst interval) = allow_all (t0 # ts) ?l"
    using assms(5) by (auto simp: allow_def newRateLimiter_def time_IsZero_def zero_time_def Let_def)
  obtain l n where r: "allow_all (t0 # ts) ?l = Some (l, n)" "limiter_ok l" "rl_last l \<le> t1"
    "(int n + rl_tokens l) * interval + time_ns t0 \<le> burst * interval + time_ns (rl_last l)"
    using allow_all_account [of ?l "t0 # ts" t1] assms
    by (auto simp: limiter_ok_def newRateLimiter_def simp del: allow_all.simps)
  have "0 \<le> rl_tokens l * interval" using r(2) assms(1) by (simp add: limiter_ok_def)
  then have "(int n - burst) * interval \<le> time_ns t1 - time_ns t0"
    using r(3,4) by (simp add: algebra_simps less_eq_time_def)
  with same r(1) show ?thesis by auto
qed

section \<open>The reference bucket\<close>

text \<open>
  What the arithmetic of \<open>allow\<close> stands for: a bucket into which one permit falls at every whole
  interval after the first call, unless it is full.  The state is the number of intervals that
  have ended and the permits in the bucket.
\<close>

fun drop_permits :: "nat \<Rightarrow> int \<Rightarrow> int \<Rightarrow> int" where
  "drop_permits 0 burst n = n"
| "drop_permits (Suc k) burst n = drop_permits k burst (if n < burst then n + 1 else n)"

definition ticker_allow :: "int \<Rightarrow> int \<Rightarrow> time \<Rightarrow> time \<Rightarrow> int \<times> int \<Rightarrow> (int \<times> int) \<times> bool" where
  "ticker_allow burst interval t0 now b =
     (let ended = (time_ns now - time_ns t0) div interval;
          n = drop_permits (nat (ended - fst b)) burst (snd b)
      in if n = 0 then ((max (fst b) ended, n), False) else ((max (fst b) ended, n - 1), True))"

fun ticker_answers :: "int \<Rightarrow> int \<Rightarrow> time \<Rightarrow> time list \<Rightarrow> int \<times> int \<Rightarrow> bool list" where
  "ticker_answers burst interval t0 [] b = []"
| "ticker_answers burst interval t0 (t # ts) b =
     (let (b', granted) = ticker_allow burst interval t0 t b in granted # ticker_answers burst interval t0 ts b')"

fun limiter_answers :: "time list \<Rightarrow> rate_limiter \<Rightarrow> bool list option" where
  "limiter_answers [] l = Some []"
| "limiter_answers (t # ts) l =
     (case allow t l of
        None \<Rightarrow> None
      | Some (l', granted) \<Rightarrow> map_option ((#) granted) (limiter_answers ts l'))"

lemma drop_permits_eq: "n \<le> burst \<Longrightarrow> drop_permits k burst n = min (n + int k) burst"
  by (induction k arbitrary: n) auto

text \<open>The limiter holds the bucket: its permits, and the last interval that has ended.\<close>

definition holds_bucket :: "time \<Rightarrow> rate_limiter \<Rightarrow> int \<times> int \<Rightarrow> bool" where
  "holds_bucket t0 l b \<longleftrightarrow> limiter_ok l \<and> 0 \<le> fst b \<and> rl_tokens l = snd b \<and>
     time_ns (rl_last l) = time_ns t0 + fst b * rl_interval l"

lemma allow_ticks:
  assumes "holds_bucket t0 l b" "zero_time < t0" "time_ns now - time_ns t0 \<le> maxInt64"
  obtains l' b' granted where "allow now l = Some (l', granted)"
    "ticker_allow (rl_burst l) (rl_interval l) t0 now b = (b', granted)" "holds_bucket t0 l' b'"
    "rl_interval l' = rl_interval l" "rl_burst l' = rl_burst l"
proof -
  let ?i = "rl_interval l" and ?k = "fst b"
  have l: "limiter_ok l" "0 \<le> ?k" "rl_tokens l = snd b" "time_ns (rl_last l) = time_ns t0 + ?k * ?i" "2 \<le> ?i"
    using assms(1) by (auto simp: holds_bucket_def limiter_ok_def)
  have "0 \<le> ?k * ?i" using l by simp
  then have started: "\<not> time_IsZero (rl_last l)" and range: "time_ns now - time_ns (rl_last l) \<le> maxInt64"
    using assms(2,3) l(4) by (auto simp: time_IsZero_def less_time_def)
  obtain l' granted gained where a: "allow now l = Some (l', granted)" "limiter_ok l'"
    "rl_interval l' = ?i" "rl_burst l' = rl_burst l"
    "rl_tokens l' = min (rl_tokens l + gained) (rl_burst l) - (if granted then 1 else 0)"
    "time_ns (rl_last l') = (if time_IsZero (rl_last l) then time_ns now else time_ns (rl_last l)) + gained * ?i"
    "granted \<longleftrightarrow> min (rl_tokens l + gained) (rl_burst l) \<noteq> 0"
    "gained = max 0 ((time_ns now - time_ns (rl_last l)) div ?i)"
    using allow_ok [OF l(1), of now] started range by metis
  let ?ended = "(time_ns now - time_ns t0) div ?i"
  have "time_ns now - time_ns (rl_last l) = (time_ns now - time_ns t0) + (- ?k) * ?i" by (simp add: l(4))
  also have "\<dots> div ?i = ?ended - ?k"
    using l(5) div_mult_self1 [of ?i "time_ns now - time_ns t0" "- ?k"] by simp
  finally have "(time_ns now - time_ns (rl_last l)) div ?i = ?ended - ?k" .
  then have gained: "gained = int (nat (?ended - ?k))" using a(8) by simp
  have "snd b \<le> rl_burst l" using l(1,3) by (simp add: limiter_ok_def)
  then have n: "drop_permits (nat (?ended - ?k)) (rl_burst l) (snd b) = min (rl_tokens l + gained) (rl_burst l)"
    by (simp add: drop_permits_eq gained l(3))
  have tick: "ticker_allow (rl_burst l) ?i t0 now b = ((max ?k ?ended, rl_tokens l'), granted)"
    using a(5,7) by (auto simp: ticker_allow_def n Let_def)
  have "?k + gained = max ?k ?ended" using gained by simp
  then have "time_ns (rl_last l') = time_ns t0 + max ?k ?ended * ?i"
    using a(6) started l(4) by (simp flip: \<open>?k + gained = _\<close> add: algebra_simps)
  then have "holds_bucket t0 l' (max ?k ?ended, rl_tokens l')"
    using a(2,3) l(2) by (simp add: holds_bucket_def)
  from that [OF a(1) tick this a(3,4)] show thesis .
qed

lemma limiter_ticks:
  assumes "holds_bucket t0 l b" "zero_time < t0" "\<forall>t \<in> set ts. time_ns t - time_ns t0 \<le> maxInt64"
  shows "limiter_answers ts l = Some (ticker_answers (rl_burst l) (rl_interval l) t0 ts b)"
  using assms(1,3)
proof (induction ts arbitrary: l b)
  case (Cons t ts)
  then have "time_ns t - time_ns t0 \<le> maxInt64" by simp
  from allow_ticks [OF Cons.prems(1) assms(2) this]
  obtain l' b' granted where a: "allow t l = Some (l', granted)"
    "ticker_allow (rl_burst l) (rl_interval l) t0 t b = (b', granted)" "holds_bucket t0 l' b'"
    "rl_interval l' = rl_interval l" "rl_burst l' = rl_burst l" .
  from Cons.IH [OF a(3)] Cons.prems(2) a show ?case by simp
qed simp

section \<open>Properties\<close>

text \<open>
  C23: The limiter never panics and never grants more than its burst plus one permit per
  elapsed interval, over any sequence of calls between the first one and \<open>t1\<close>, in whatever
  order the clock reads them.
\<close>
theorem rate_bound:
  assumes "2 \<le> interval" "interval \<le> maxInt64" "0 \<le> burst" "burst < 2 ^ 62"
    and "zero_time < t0" and "\<forall>t \<in> set (t0 # ts). t \<le> t1"
  shows "\<exists>l n. allow_all (t0 # ts) (newRateLimiter burst interval) = Some (l, n) \<and>
    int n \<le> burst + (time_ns t1 - time_ns t0) div interval"
proof -
  obtain l n where a: "allow_all (t0 # ts) (newRateLimiter burst interval) = Some (l, n)"
      "(int n - burst) * interval \<le> time_ns t1 - time_ns t0"
    using allow_all_bound [OF assms] by blast
  then have "int n - burst \<le> (time_ns t1 - time_ns t0) div interval"
    using zdiv_mono1 [of "(int n - burst) * interval" "time_ns t1 - time_ns t0" interval] assms(1) by simp
  with a(1) show ?thesis by auto
qed

lemma rate_bound_witness:
  "\<exists>l n. allow_all [Time 1, Time 2, Time 2, Time 5000000001] (newRateLimiter 2 (5 * Second)) = Some (l, n) \<and> int n \<le> 3"
proof -
  have "\<forall>t \<in> set [Time 1, Time 2, Time 2, Time 5000000001]. t \<le> Time 5000000001" by simp
  from rate_bound [OF _ _ _ _ _ this, of "5 * Second" 2] show ?thesis
    by (simp add: Second_def maxInt64_def zero_time_def del: allow_all.simps)
qed

text \<open>
  An exhausted bucket recovers: once a whole interval has passed since the last credited
  instant, the next call is granted.
\<close>
lemma allow_recovers:
  assumes "limiter_ok l" and "1 \<le> rl_burst l" and "zero_time < rl_last l"
    and "time_ns (rl_last l) + rl_interval l \<le> time_ns now"
  shows "\<exists>l'. allow now l = Some (l', True) \<and> limiter_ok l'"
proof -
  have nonzero: "\<not> time_IsZero (rl_last l)" using assms(3) by (auto simp: time_IsZero_def)
  obtain l' granted gained where a: "allow now l = Some (l', granted)" "limiter_ok l'"
    "granted \<longleftrightarrow> min (rl_tokens l + gained) (rl_burst l) \<noteq> 0"
    "\<not> time_IsZero (rl_last l) \<Longrightarrow> rl_interval l \<le> time_ns now - time_ns (rl_last l) \<Longrightarrow> 1 \<le> gained"
    using allow_ok [OF assms(1), of now] by blast
  have "1 \<le> gained" using a(4) nonzero assms(4) by simp
  moreover have "0 \<le> rl_tokens l" using assms(1) by (simp add: limiter_ok_def)
  ultimately have granted using a(3) assms(2) by (auto simp: min_def)
  with a(1,2) show ?thesis by auto
qed

lemma allow_recovers_witness:
  "\<exists>l'. allow (Time (1 + 12 * Second))
     \<lparr>rl_interval = 12 * Second, rl_burst = 5, rl_tokens = 0, rl_last = Time 1\<rparr> = Some (l', True)"
proof -
  let ?l = "\<lparr>rl_interval = 12 * Second, rl_burst = 5, rl_tokens = 0, rl_last = Time 1\<rparr>"
  have "limiter_ok ?l" by (simp add: limiter_ok_def Second_def maxInt64_def)
  from allow_recovers [OF this, of "Time (1 + 12 * Second)"] show ?thesis
    by (auto simp: zero_time_def)
qed

text \<open>
  C24: The limiter is the reference bucket: over any clock readings, in whatever order, its answers
  are those of a bucket into which one permit falls at every whole interval after the first call
  unless it is full, so neither the division nor the remainder it carries forward gains or loses
  a permit.
\<close>
theorem limiter_is_bucket:
  assumes "2 \<le> interval" "interval \<le> maxInt64" "0 \<le> burst" "burst < 2 ^ 62"
    and "zero_time < t0" and "\<forall>t \<in> set ts. time_ns t - time_ns t0 \<le> maxInt64"
  shows "limiter_answers (t0 # ts) (newRateLimiter burst interval) =
    Some (ticker_answers burst interval t0 (t0 # ts) (0, burst))"
proof -
  let ?l = "newRateLimiter burst interval\<lparr>rl_last := t0\<rparr>"
  have same: "limiter_answers (t0 # ts) (newRateLimiter burst interval) = limiter_answers (t0 # ts) ?l"
    using assms(5) by (auto simp: allow_def newRateLimiter_def time_IsZero_def zero_time_def Let_def)
  have "holds_bucket t0 ?l (0, burst)"
    using assms by (simp add: holds_bucket_def limiter_ok_def newRateLimiter_def)
  moreover have "\<forall>t \<in> set (t0 # ts). time_ns t - time_ns t0 \<le> maxInt64"
    using assms(6) by (simp add: maxInt64_def)
  ultimately have "limiter_answers (t0 # ts) ?l = Some (ticker_answers (rl_burst ?l) (rl_interval ?l) t0 (t0 # ts) (0, burst))"
    by (rule limiter_ticks [OF _ assms(5)])
  with same show ?thesis by (simp add: newRateLimiter_def)
qed

lemma limiter_is_bucket_witness:
  "limiter_answers [Time 1, Time 2, Time 3, Time 7000000001, Time 10000000001] (newRateLimiter 2 (5 * Second)) =
   Some [True, True, False, True, True]"
proof -
  have ts: "\<forall>t \<in> set [Time 2, Time 3, Time 7000000001, Time 10000000001]. time_ns t - time_ns (Time 1) \<le> maxInt64"
    by (simp add: maxInt64_def)
  have "ticker_answers 2 (5 * Second) (Time 1) [Time 1, Time 2, Time 3, Time 7000000001, Time 10000000001] (0, 2) =
      [True, True, False, True, True]"
    by code_simp
  with limiter_is_bucket [OF _ _ _ _ _ ts, of "5 * Second" 2] show ?thesis
    by (simp add: Second_def maxInt64_def zero_time_def del: limiter_answers.simps ticker_answers.simps)
qed

end
