(* ===== verification/Json.thy ===== *)
theory Json
  imports Prelude Complex_Main
begin

text \<open>
  The values of Go's \<open>encoding/json\<close> as \<open>any\<close>: what the server's state, its deltas and the
  frames of docs/protocol.md are made of.  A \<open>map[string]any\<close> is a \<open>gomap\<close>, so equality of
  well-formed values is \<open>reflect.DeepEqual\<close>.  A \<open>float64\<close> read from JSON is finite, and is
  represented by the rational it denotes (negative zero, which compares equal to zero, is
  not told apart).
\<close>

datatype json =
    JNull
  | JBool bool
  | JNum rat
  | JStr string
  | JArr "json list"
  | JObj "(string \<times> json) list"

type_synonym jobj = "(string, json) gomap"

text \<open>Objects at every depth are maps.\<close>

fun json_wf :: "json \<Rightarrow> bool" where
  "json_wf (JArr xs) = (\<forall>x \<in> set xs. json_wf x)"
| "json_wf (JObj m) = (gm_wf m \<and> (\<forall>p \<in> set m. json_wf (snd p)))"
| "json_wf _ = True"

text \<open>No object, at any depth reached through objects, has a null entry.\<close>

fun null_free :: "json \<Rightarrow> bool" where
  "null_free JNull = False"
| "null_free (JObj m) = (\<forall>p \<in> set m. null_free (snd p))"
| "null_free _ = True"

abbreviation obj_wf :: "jobj \<Rightarrow> bool" where
  "obj_wf m \<equiv> json_wf (JObj m)"

abbreviation obj_null_free :: "jobj \<Rightarrow> bool" where
  "obj_null_free m \<equiv> null_free (JObj m)"

lemma obj_wf_get: "obj_wf m \<Longrightarrow> gm_get m k = Some v \<Longrightarrow> json_wf v"
  by (force dest: map_of_SomeD)

lemma obj_null_free_get: "obj_null_free m \<Longrightarrow> gm_get m k = Some v \<Longrightarrow> null_free v"
  by (force dest: map_of_SomeD)

lemma obj_wf_ConsD: "obj_wf (p # m) \<Longrightarrow> obj_wf m"
  by (cases p) (auto simp: gm_wf_Cons)

lemma obj_wf_put: "obj_wf m \<Longrightarrow> json_wf v \<Longrightarrow> obj_wf (gm_put k v m)"
  by (auto simp: set_gm_put)

lemma obj_wf_del: "obj_wf m \<Longrightarrow> obj_wf (gm_del k m)"
  by (auto simp: gm_del_def)

lemma null_free_not_null: "null_free v \<Longrightarrow> v \<noteq> JNull"
  by auto

end
