(* ===== verification/MergePatch.thy ===== *)
theory MergePatch
  imports Json
begin

text \<open>
  \<open>diff\<close> and \<open>FilterTopics\<close> of server/internal/state/mergepatch.go, the client's
  \<open>applyMergePatch\<close> (client/lib/services/protocol.dart), and the contract between them:
  merging a delta into the old state gives the new one, for all topics or for the
  topics a client subscribed to.
\<close>

section \<open>The server's delta\<close>

text \<open>
  \<open>diff_entries\<close> is the loop over \<open>new\<close>.  \<open>None\<close> is the nil map, which means no change.
\<close>

fun diff_entries :: "jobj \<Rightarrow> jobj \<Rightarrow> jobj" and diff :: "jobj \<Rightarrow> jobj \<Rightarrow> jobj option" where
  "diff_entries old [] = []"
| "diff_entries old ((k, nv) # new) =
     (let patch = diff_entries old new in
      case gm_get old k of
        None \<Rightarrow> gm_put k nv patch
      | Some ov \<Rightarrow>
          (case nv of
             JObj nm \<Rightarrow>
               (case ov of
                  JObj om \<Rightarrow>
                    (case diff om nm of
                       Some sub \<Rightarrow> gm_put k (JObj sub) patch
                     | None \<Rightarrow> patch)
                | _ \<Rightarrow> gm_put k nv patch)
           | _ \<Rightarrow> if ov \<noteq> nv then gm_put k nv patch else patch))"
| "diff old new =
     (let patch = fold (\<lambda>(k, _) p. if gm_get new k = None then gm_put k JNull p else p) old
                    (diff_entries old new)
      in if patch = [] then None else Some patch)"

definition FilterTopics :: "jobj \<Rightarrow> (string \<Rightarrow> bool) \<Rightarrow> jobj option" where
  "FilterTopics m topics =
     (let out = filter (\<lambda>(k, v). topics k) m in if out = [] then None else Some out)"

section \<open>The client's merge\<close>

text \<open>An absent entry reads as null.\<close>

definition get_or_null :: "jobj \<Rightarrow> string \<Rightarrow> json" where
  "get_or_null m k = (case gm_get m k of Some v \<Rightarrow> v | None \<Rightarrow> JNull)"

fun applyMergePatch :: "json \<Rightarrow> json \<Rightarrow> json" and merge_entries :: "jobj \<Rightarrow> jobj \<Rightarrow> jobj" where
  "applyMergePatch target patch =
     (case patch of
        JObj p \<Rightarrow> JObj (merge_entries (case target of JObj base \<Rightarrow> base | _ \<Rightarrow> []) p)
      | _ \<Rightarrow> patch)"
| "merge_entries base [] = base"
| "merge_entries base ((k, v) # p) =
     merge_entries
       (if v = JNull then gm_del k base
        else gm_put k (applyMergePatch (get_or_null base k) v) base) p"

declare applyMergePatch.simps [simp del] diff.simps [simp del]


section \<open>Lookups\<close>

abbreviation or_empty :: "jobj option \<Rightarrow> jobj" where
  "or_empty m \<equiv> (case m of Some p \<Rightarrow> p | None \<Rightarrow> [])"

text \<open>What a delta says about one key of the new object.\<close>

definition entry_patch :: "json option \<Rightarrow> json \<Rightarrow> json option" where
  "entry_patch ov nv =
     (case ov of
        None \<Rightarrow> Some nv
      | Some v \<Rightarrow>
          (case nv of
             JObj nm \<Rightarrow> (case v of JObj om \<Rightarrow> map_option JObj (diff om nm) | _ \<Rightarrow> Some nv)
           | _ \<Rightarrow> if v \<noteq> nv then Some nv else None))"

lemma diff_entries_Cons:
  "diff_entries old ((k, nv) # new) =
     (case entry_patch (gm_get old k) nv of
        Some v \<Rightarrow> gm_put k v (diff_entries old new)
      | None \<Rightarrow> diff_entries old new)"
  by (auto simp: entry_patch_def Let_def split: option.splits json.splits)

lemma diff_entries_wf: "gm_wf (diff_entries old new)"
  by (induction new) (auto simp: diff_entries_Cons simp del: diff_entries.simps(2) split: option.splits)

lemma get_diff_entries:
  "gm_wf new \<Longrightarrow> gm_get (diff_entries old new) k =
     (case gm_get new k of None \<Rightarrow> None | Some nv \<Rightarrow> entry_patch (gm_get old k) nv)"
proof (induction new)
  case (Cons p new)
  have "gm_get new (fst p) = None"
    using Cons.prems by (cases p) (force simp: gm_wf_Cons map_of_eq_None_iff)
  with Cons show ?case
    by (cases p) (auto simp: diff_entries_Cons gm_wf_Cons gm_get_put diff_entries_wf
        simp del: diff_entries.simps(2) split: option.splits)
qed simp

definition deletions :: "jobj \<Rightarrow> jobj \<Rightarrow> jobj \<Rightarrow> jobj" where
  "deletions new old p = fold (\<lambda>(k, _) p. if gm_get new k = None then gm_put k JNull p else p) old p"

lemma deletions_simps [simp]:
  "deletions new [] p = p"
  "deletions new (e # old) p = deletions new old (if gm_get new (fst e) = None then gm_put (fst e) JNull p else p)"
  by (simp_all add: deletions_def case_prod_unfold)

lemma deletions_wf: "gm_wf p \<Longrightarrow> gm_wf (deletions new old p)"
  by (induction old arbitrary: p) auto

lemma get_deletions:
  "gm_wf p \<Longrightarrow> gm_get (deletions new old p) k =
     (if gm_get new k = None \<and> k \<in> set (gm_keys old) then Some JNull else gm_get p k)"
  by (induction old arbitrary: p) (auto simp: gm_get_put)

lemma or_empty_diff: "or_empty (diff old new) = deletions new old (diff_entries old new)"
  by (simp add: diff.simps deletions_def Let_def)

lemma diff_wf: "gm_wf (or_empty (diff old new))"
  by (simp add: or_empty_diff deletions_wf diff_entries_wf)

lemma diff_eq_None: "diff old new = None \<longleftrightarrow> or_empty (diff old new) = []"
  by (simp add: diff.simps Let_def)

lemma get_diff:
  assumes "gm_wf new"
  shows "gm_get (or_empty (diff old new)) k =
    (case gm_get new k of
       Some nv \<Rightarrow> entry_patch (gm_get old k) nv
     | None \<Rightarrow> if gm_get old k = None then None else Some JNull)"
proof -
  have "k \<in> set (gm_keys old) \<longleftrightarrow> gm_get old k \<noteq> None" by (simp add: map_of_eq_None_iff)
  with assms show ?thesis
    by (auto simp: or_empty_diff get_deletions diff_entries_wf get_diff_entries simp del: set_map split: option.splits)
qed

lemma merge_entries_wf: "gm_wf base \<Longrightarrow> gm_wf (merge_entries base p)"
proof (induction p arbitrary: base)
  case (Cons e p)
  then show ?case by (cases e) simp
qed simp

lemma get_merge_entries:
  "gm_wf base \<Longrightarrow> gm_wf p \<Longrightarrow> gm_get (merge_entries base p) k =
     (case gm_get p k of
        None \<Rightarrow> gm_get base k
      | Some v \<Rightarrow> if v = JNull then None else Some (applyMergePatch (get_or_null base k) v))"
proof (induction p arbitrary: base)
  case (Cons e p)
  obtain a v where e: "e = (a, v)" by (cases e)
  let ?b = "if v = JNull then gm_del a base else gm_put a (applyMergePatch (get_or_null base a) v) base"
  have a: "gm_get p a = None" and p: "gm_wf p"
    using Cons.prems e by (force simp: gm_wf_Cons map_of_eq_None_iff)+
  have b: "gm_wf ?b" using Cons.prems by auto
  show ?case
    using Cons.IH [OF b p] a Cons.prems(1)
    by (auto simp: e gm_get_put gm_get_del get_or_null_def split: option.splits)
qed simp


section \<open>Merging a delta\<close>

lemma merge_scalar: "\<nexists>p. patch = JObj p \<Longrightarrow> applyMergePatch target patch = patch"
  by (cases patch) (auto simp: applyMergePatch.simps)

lemma merge_obj: "applyMergePatch (JObj base) (JObj p) = JObj (merge_entries base p)"
  by (simp add: applyMergePatch.simps)

lemma merge_obj_fresh: "\<nexists>b. target = JObj b \<Longrightarrow> applyMergePatch target (JObj p) = JObj (merge_entries [] p)"
  by (cases target) (auto simp: applyMergePatch.simps)

text \<open>A value without nulls replaces anything that is not an object.\<close>

lemma merge_fresh:
  "json_wf v \<Longrightarrow> null_free v \<Longrightarrow> \<nexists>b. target = JObj b \<Longrightarrow> applyMergePatch target v = v"
proof (induction v arbitrary: target)
  case (JObj m)
  have "merge_entries [] m = m"
  proof (rule gm_eqI)
    show "gm_get (merge_entries [] m) k = gm_get m k" for k
    proof -
      have "applyMergePatch JNull v = v \<and> v \<noteq> JNull" if "gm_get m k = Some v" for v
      proof -
        have "(k, v) \<in> set m" using that by (rule map_of_SomeD)
        then show ?thesis using JObj.IH [of "(k, v)" v JNull] JObj.prems by force
      qed
      then show "gm_get (merge_entries [] m) k = gm_get m k"
        using JObj.prems(1) by (auto simp: get_merge_entries get_or_null_def split: option.splits)
    qed
  qed (use JObj.prems in \<open>auto simp: merge_entries_wf\<close>)
  with JObj.prems(3) show ?case by (simp add: merge_obj_fresh)
qed (simp_all add: applyMergePatch.simps)

text \<open>The value a delta entry merges to; objects below are covered by the hypothesis on \<open>diff\<close>.\<close>

lemma merge_entry_patch:
  assumes "json_wf nv" "null_free nv"
    and sub: "\<And>om nm. ov = Some (JObj om) \<Longrightarrow> nv = JObj nm \<Longrightarrow> merge_entries om (or_empty (diff om nm)) = nm"
  shows "(case entry_patch ov nv of
      None \<Rightarrow> ov
    | Some v \<Rightarrow> if v = JNull then None
        else Some (applyMergePatch (case ov of Some x \<Rightarrow> x | None \<Rightarrow> JNull) v)) = Some nv"
proof (cases "\<exists>om nm. ov = Some (JObj om) \<and> nv = JObj nm")
  case True
  then obtain om nm where o: "ov = Some (JObj om)" "nv = JObj nm" by blast
  from sub [OF o] o show ?thesis
    by (cases "diff om nm") (simp_all add: entry_patch_def merge_obj)
next
  case False
  have nn: "nv \<noteq> JNull" using assms(2) by auto
  show ?thesis
  proof (cases "ov = Some nv \<and> (\<nexists>nm. nv = JObj nm)")
    case True
    then show ?thesis by (cases nv) (auto simp: entry_patch_def)
  next
    case other: False
    with False have e: "entry_patch ov nv = Some nv"
      by (auto simp: entry_patch_def split: option.splits json.splits)
    have "applyMergePatch (case ov of Some x \<Rightarrow> x | None \<Rightarrow> JNull) nv = nv"
    proof (cases "\<exists>nm. nv = JObj nm")
      case True
      with False have "\<nexists>b. (case ov of Some x \<Rightarrow> x | None \<Rightarrow> JNull) = JObj b"
        by (auto split: option.splits)
      then show ?thesis by (rule merge_fresh [OF assms(1,2)])
    qed (simp add: merge_scalar)
    with e nn show ?thesis by simp
  qed
qed

lemma merge_diff:
  assumes "obj_wf old" and "obj_wf new" and "obj_null_free new"
  shows "merge_entries old (or_empty (diff old new)) = new"
  using assms
proof (induction "size (JObj new)" arbitrary: old new rule: less_induct)
  case less
  note old = less.prems(1) and new = less.prems(2,3)
  show ?case
  proof (rule gm_eqI)
    show "gm_get (merge_entries old (or_empty (diff old new))) k = gm_get new k" for k
      proof (cases "gm_get new k")
        case None
        with old new show ?thesis
          by (auto simp: get_merge_entries diff_wf get_diff)
      next
        case (Some nv)
        have nv: "json_wf nv" "null_free nv" "(k, nv) \<in> set new"
          using obj_wf_get [OF new(1) Some] obj_null_free_get [OF new(2) Some] Some by (auto dest: map_of_SomeD)
        have "merge_entries om (or_empty (diff om nm)) = nm" if "gm_get old k = Some (JObj om)" "nv = JObj nm" for om nm
        proof (rule less.hyps)
          show "size (JObj nm) < size (JObj new)"
            using size_list_estimation' [OF nv(3), of "size nv" "size_prod (\<lambda>x. 0) size"] that by simp
        qed (use that nv obj_wf_get [OF old that(1)] in auto)
        then have "(case entry_patch (gm_get old k) nv of
            None \<Rightarrow> gm_get old k
          | Some v \<Rightarrow> if v = JNull then None
              else Some (applyMergePatch (case gm_get old k of Some x \<Rightarrow> x | None \<Rightarrow> JNull) v)) = Some nv"
          by (rule merge_entry_patch [OF nv(1,2)])
        with old new Some show ?thesis
          by (simp add: get_merge_entries diff_wf get_diff get_or_null_def cong: option.case_cong if_cong)
      qed
  qed (use old new in \<open>auto simp: merge_entries_wf\<close>)
qed


section \<open>What a delta says\<close>

lemma diff_refl: "obj_wf m \<Longrightarrow> obj_null_free m \<Longrightarrow> diff m m = None"
proof (induction "size (JObj m)" arbitrary: m rule: less_induct)
  case less
  have "or_empty (diff m m) = []"
  proof (rule gm_eqI)
    show "gm_get (or_empty (diff m m)) k = gm_get [] k" for k
    proof (cases "gm_get m k")
      case (Some v)
      have "diff x x = None" if "v = JObj x" for x
      proof (rule less.hyps)
        show "size (JObj x) < size (JObj m)"
          using size_list_estimation' [OF map_of_SomeD [OF Some], of "size v" "size_prod (\<lambda>x. 0) size"] that by simp
      qed (use that obj_wf_get [OF less.prems(1) Some] obj_null_free_get [OF less.prems(2) Some] in auto)
      with Some less.prems show ?thesis
        by (cases v) (simp_all add: get_diff entry_patch_def)
    qed (use less.prems in \<open>simp add: get_diff\<close>)
  qed (auto simp: diff_wf)
  then show ?case by (simp add: diff_eq_None)
qed

lemma diff_None_iff:
  assumes "obj_wf old" "obj_wf new" "obj_null_free new"
  shows "diff old new = None \<longleftrightarrow> old = new"
proof
  assume "diff old new = None"
  then show "old = new" using merge_diff [OF assms] by simp
qed (use assms in \<open>simp add: diff_refl\<close>)

text \<open>A key is in the delta exactly when its value changed.\<close>

lemma diff_sparse:
  assumes "obj_wf old" "obj_wf new" "obj_null_free new"
  shows "gm_get (or_empty (diff old new)) k \<noteq> None \<longleftrightarrow> gm_get old k \<noteq> gm_get new k"
proof (cases "gm_get new k")
  case None
  with assms show ?thesis by (simp add: get_diff)
next
  case (Some nv)
  have "entry_patch (gm_get old k) nv = None \<longleftrightarrow> gm_get old k = Some nv"
  proof (cases "\<exists>om nm. gm_get old k = Some (JObj om) \<and> nv = JObj nm")
    case True
    then obtain om nm where o: "gm_get old k = Some (JObj om)" "nv = JObj nm" by blast
    have "diff om nm = None \<longleftrightarrow> om = nm"
      using o Some obj_wf_get [OF assms(1) o(1)] obj_wf_get [OF assms(2) Some] obj_null_free_get [OF assms(3) Some]
      by (intro diff_None_iff) auto
    with o show ?thesis by (simp add: entry_patch_def)
  next
    case False
    then show ?thesis by (auto simp: entry_patch_def split: option.splits json.splits)
  qed
  with assms Some show ?thesis by (auto simp: get_diff)
qed

section \<open>Scoping to topics\<close>

abbreviation scoped :: "(string \<Rightarrow> bool) \<Rightarrow> jobj \<Rightarrow> jobj" where
  "scoped topics m \<equiv> or_empty (FilterTopics m topics)"

lemma scoped_eq: "scoped topics m = filter (\<lambda>p. topics (fst p)) m"
  by (simp add: FilterTopics_def Let_def case_prod_unfold)

lemma scoped_wf: "gm_wf m \<Longrightarrow> gm_wf (scoped topics m)"
  by (simp add: scoped_eq)

lemma get_scoped: "gm_wf m \<Longrightarrow> gm_get (scoped topics m) k = (if topics k then gm_get m k else None)"
  by (auto simp: scoped_eq gm_get_filter split: option.splits)

lemma merge_scoped:
  assumes "gm_wf base" "gm_wf p"
  shows "merge_entries (scoped topics base) (scoped topics p) = scoped topics (merge_entries base p)"
  using assms
  by (intro gm_eqI)
     (auto simp: merge_entries_wf scoped_wf get_merge_entries get_scoped get_or_null_def split: option.split)


section \<open>Properties\<close>

text \<open>
  C18: A client that holds the old state scoped to its topics and merges the delta scoped to
  the same topics holds the new state scoped to them, whatever changed at whatever depth.
\<close>
theorem delta_roundtrip:
  assumes "obj_wf old" and "obj_wf new" and "obj_null_free new"
  shows "applyMergePatch (JObj (scoped topics old)) (JObj (scoped topics (or_empty (diff old new))))
         = JObj (scoped topics new)"
proof -
  have "gm_wf old" using assms(1) by simp
  then show ?thesis
    using merge_diff [OF assms] by (simp add: merge_obj merge_scoped diff_wf)
qed

lemma delta_roundtrip_witness:
  defines "cam p z \<equiv> JObj [(''c1'', JObj [(''preset'', JStr p), (''zoom'', JNum z)])]"
  shows "applyMergePatch (JObj [(''camera'', cam ''wide'' 0)])
      (JObj (scoped (\<lambda>t. t = ''camera'') (or_empty (diff [(''camera'', cam ''wide'' 0), (''obs'', JObj [])]
         [(''camera'', cam ''wide'' 1), (''stream'', JObj [])]))))
    = JObj [(''camera'', cam ''wide'' 1)]"
  using delta_roundtrip [of "[(''camera'', cam ''wide'' 0), (''obs'', JObj [])]"
      "[(''camera'', cam ''wide'' 1), (''stream'', JObj [])]" "\<lambda>t. t = ''camera''"]
  by (simp add: cam_def gm_wf_Cons FilterTopics_def)

text \<open>
  A delta is sparse: it is nil exactly when nothing changed, and otherwise it has an
  entry for exactly the keys whose value differs.
\<close>
lemma delta_minimal:
  assumes "obj_wf old" and "obj_wf new" and "obj_null_free new"
  shows "(diff old new = None \<longleftrightarrow> old = new) \<and>
         (\<forall>p. diff old new = Some p \<longrightarrow> (\<forall>k. gm_get p k \<noteq> None \<longleftrightarrow> gm_get old k \<noteq> gm_get new k))"
proof (intro conjI allI impI)
  show "gm_get p k \<noteq> None \<longleftrightarrow> gm_get old k \<noteq> gm_get new k" if "diff old new = Some p" for p k
    using diff_sparse [OF assms, of k] that by simp
qed (rule diff_None_iff [OF assms])

lemma delta_minimal_witness:
  "diff [(''a'', JNum 1), (''b'', JObj [(''x'', JNull)])] [(''a'', JNum 1), (''b'', JObj [])] \<noteq> None"
  using delta_minimal [of "[(''a'', JNum 1), (''b'', JObj [(''x'', JNull)])]" "[(''a'', JNum 1), (''b'', JObj [])]"]
  by (simp add: gm_wf_Cons)

end
