(* ===== verification/StateModel.thy ===== *)
theory StateModel
  imports Json GoBase
begin

text \<open>
  The \<open>State\<close> of server/internal/state/state.go, field by field, and \<open>toMap\<close> of store.go:
  its JSON-object form, as \<open>json.Marshal\<close> followed by \<open>json.Unmarshal\<close> gives it (tags and
  \<open>omitempty\<close> included).  A pointer is an option.  A nil map is not told apart from an
  empty one: no operation of the package does, and both are omitted from the wire.
  Strings are valid UTF-8, as everything the server stores comes from decoded JSON or YAML.
\<close>

section \<open>Numbers on the wire\<close>

definition json_int :: "int \<Rightarrow> json" where
  "json_int n = JNum (of_int (float64_of_int n))"

fun json_float :: "float64 \<Rightarrow> json option" where
  "json_float (Fin r) = Some (JNum r)"
| "json_float _ = None"

section \<open>The state\<close>

record camera =
  cam_preset :: string
  cam_pan :: float64
  cam_tilt :: float64
  cam_zoom :: float64

record obs_state =
  obs_scene :: string
  obs_streaming :: bool
  obs_recording :: bool
  obs_uptime_seconds :: int

record slides_state =
  sl_current :: int
  sl_total :: int
  sl_title :: string
  sl_pending_actions :: "string list option"

record chat_state =
  ch_provider :: string
  ch_status :: string

record stream_state =
  str_platform :: string
  str_viewers :: int
  str_chat :: "chat_state option"

record audio_channel =
  ac_mute :: bool
  ac_level_db :: float64
  ac_gain_db :: float64

record audio_dca =
  ad_mute :: bool
  ad_level_db :: float64

record audio_state =
  au_channels :: "(string, audio_channel option) gomap"
  au_dca :: "(string, audio_dca option) gomap"

record state =
  st_audio :: "audio_state option"
  st_camera :: "(string, camera option) gomap"
  st_obs :: "obs_state option"
  st_slides :: "slides_state option"
  st_stream :: "stream_state option"

definition zero_state :: state where
  "zero_state = \<lparr>st_audio = None, st_camera = [], st_obs = None, st_slides = None, st_stream = None\<rparr>"

definition Topics :: "string list" where
  "Topics = [''audio'', ''camera'', ''obs'', ''slides'', ''stream'']"

section \<open>Operations\<close>

definition normalize :: "state \<Rightarrow> state" where
  "normalize s =
     (case st_slides s of
        Some sl \<Rightarrow>
          (if sl_pending_actions sl = None
           then s\<lparr>st_slides := Some (sl\<lparr>sl_pending_actions := Some []\<rparr>)\<rparr> else s)
      | None \<Rightarrow> s)"

definition zero_camera :: camera where
  "zero_camera = \<lparr>cam_preset = '''', cam_pan = Fin 0, cam_tilt = Fin 0, cam_zoom = Fin 0\<rparr>"

text \<open>
  The result is the state with the entry in place and the pointer found there; a caller's
  writes through the pointer are \<open>set_camera\<close>.
\<close>

definition CameraOrNew :: "string \<Rightarrow> state \<Rightarrow> state \<times> camera option" where
  "CameraOrNew cid s =
     (case gm_get (st_camera s) cid of
        Some c \<Rightarrow> (s, c)
      | None \<Rightarrow> (s\<lparr>st_camera := gm_put cid (Some zero_camera) (st_camera s)\<rparr>, Some zero_camera))"

definition set_camera :: "string \<Rightarrow> camera \<Rightarrow> state \<Rightarrow> state" where
  "set_camera cid c s = s\<lparr>st_camera := gm_put cid (Some c) (st_camera s)\<rparr>"

definition OBSOrNew :: "state \<Rightarrow> state \<times> obs_state" where
  "OBSOrNew s =
     (case st_obs s of
        Some o' \<Rightarrow> (s, o')
      | None \<Rightarrow>
          let o' = \<lparr>obs_scene = '''', obs_streaming = False, obs_recording = False, obs_uptime_seconds = 0\<rparr>
          in (s\<lparr>st_obs := Some o'\<rparr>, o'))"

text \<open>
  The writes the command handlers make through those pointers: \<open>CameraOrNew(id).Preset = p\<close>,
  and assignments to a field of \<open>OBSOrNew()\<close>.
\<close>

definition recall_preset :: "string \<Rightarrow> string \<Rightarrow> state \<Rightarrow> state" where
  "recall_preset cid preset s =
     (case CameraOrNew cid s of
        (s', Some c) \<Rightarrow> set_camera cid (c\<lparr>cam_preset := preset\<rparr>) s'
      | (s', None) \<Rightarrow> s')"

definition assign_obs :: "(obs_state \<Rightarrow> obs_state) \<Rightarrow> state \<Rightarrow> state" where
  "assign_obs f s = (let (s', b) = OBSOrNew s in s'\<lparr>st_obs := Some (f b)\<rparr>)"

section \<open>The JSON-object form\<close>

text \<open>An object from its fields; \<open>None\<close> is a field left out by \<open>omitempty\<close>.\<close>

fun obj_of :: "(string \<times> json option) list \<Rightarrow> jobj" where
  "obj_of [] = []"
| "obj_of ((k, v) # fs) = (case v of Some x \<Rightarrow> gm_put k x (obj_of fs) | None \<Rightarrow> obj_of fs)"

definition omit_if :: "bool \<Rightarrow> json \<Rightarrow> json option" where
  "omit_if b v = (if b then None else Some v)"

text \<open>A map of pointers: every entry must encode; a nil pointer is null.\<close>

fun json_map :: "('a \<Rightarrow> json option) \<Rightarrow> (string, 'a option) gomap \<Rightarrow> jobj option" where
  "json_map enc [] = Some []"
| "json_map enc ((k, v) # m) =
     (case (case v of Some x \<Rightarrow> enc x | None \<Rightarrow> Some JNull) of
        None \<Rightarrow> None
      | Some j \<Rightarrow> map_option (\<lambda>js. (k, j) # js) (json_map enc m))"

definition json_camera :: "camera \<Rightarrow> json option" where
  "json_camera c =
     (case (json_float (cam_pan c), json_float (cam_tilt c), json_float (cam_zoom c)) of
        (Some p, Some t, Some z) \<Rightarrow>
          Some (JObj (obj_of [(''preset'', Some (JStr (cam_preset c))), (''pan'', Some p),
                              (''tilt'', Some t), (''zoom'', Some z)]))
      | _ \<Rightarrow> None)"

definition json_obs :: "obs_state \<Rightarrow> json" where
  "json_obs b = JObj (obj_of
     [(''scene'', Some (JStr (obs_scene b))), (''streaming'', Some (JBool (obs_streaming b))),
      (''recording'', Some (JBool (obs_recording b))),
      (''uptime_seconds'', omit_if (obs_uptime_seconds b = 0) (json_int (obs_uptime_seconds b)))])"

definition json_slides :: "slides_state \<Rightarrow> json" where
  "json_slides s = JObj (obj_of
     [(''current'', Some (json_int (sl_current s))), (''total'', Some (json_int (sl_total s))),
      (''title'', omit_if (sl_title s = '''') (JStr (sl_title s))),
      (''pending_actions'', Some (case sl_pending_actions s of
          Some xs \<Rightarrow> JArr (map JStr xs) | None \<Rightarrow> JNull))])"

definition json_chat :: "chat_state \<Rightarrow> json" where
  "json_chat c = JObj (obj_of [(''provider'', Some (JStr (ch_provider c))), (''status'', Some (JStr (ch_status c)))])"

definition json_stream :: "stream_state \<Rightarrow> json" where
  "json_stream s = JObj (obj_of
     [(''platform'', omit_if (str_platform s = '''') (JStr (str_platform s))),
      (''viewers'', omit_if (str_viewers s = 0) (json_int (str_viewers s))),
      (''chat'', map_option json_chat (str_chat s))])"

definition json_channel :: "audio_channel \<Rightarrow> json option" where
  "json_channel c =
     (case (json_float (ac_level_db c), json_float (ac_gain_db c)) of
        (Some l, Some g) \<Rightarrow>
          Some (JObj (obj_of [(''mute'', Some (JBool (ac_mute c))), (''level_db'', Some l), (''gain_db'', Some g)]))
      | _ \<Rightarrow> None)"

definition json_dca :: "audio_dca \<Rightarrow> json option" where
  "json_dca d =
     (case json_float (ad_level_db d) of
        Some l \<Rightarrow> Some (JObj (obj_of [(''mute'', Some (JBool (ad_mute d))), (''level_db'', Some l)]))
      | None \<Rightarrow> None)"

definition json_audio :: "audio_state \<Rightarrow> json option" where
  "json_audio a =
     (case (json_map json_channel (au_channels a), json_map json_dca (au_dca a)) of
        (Some cs, Some ds) \<Rightarrow>
          Some (JObj (obj_of [(''channels'', omit_if (cs = []) (JObj cs)), (''dca'', omit_if (ds = []) (JObj ds))]))
      | _ \<Rightarrow> None)"

text \<open>\<open>None\<close> is an error of \<open>json.Marshal\<close>: a value that is not a number.\<close>

definition toMap :: "state \<Rightarrow> jobj option" where
  "toMap s =
     (case (case st_audio s of None \<Rightarrow> Some None | Some a \<Rightarrow> map_option Some (json_audio a)) of
        None \<Rightarrow> None
      | Some audio \<Rightarrow>
          (case json_map json_camera (st_camera s) of
             None \<Rightarrow> None
           | Some cams \<Rightarrow>
               Some (obj_of
                 [(''audio'', audio), (''camera'', omit_if (cams = []) (JObj cams)),
                  (''obs'', map_option json_obs (st_obs s)),
                  (''slides'', map_option json_slides (st_slides s)),
                  (''stream'', map_option json_stream (st_stream s))])))"

section \<open>Well-formed states\<close>

text \<open>Go maps hold no nil pointer: what the mutators of the server keep.\<close>

definition ptr_map_ok :: "(string, 'a option) gomap \<Rightarrow> bool" where
  "ptr_map_ok m \<longleftrightarrow> gm_wf m \<and> (\<forall>p \<in> set m. snd p \<noteq> None)"

definition state_ok :: "state \<Rightarrow> bool" where
  "state_ok s \<longleftrightarrow> ptr_map_ok (st_camera s) \<and>
     (\<forall>a. st_audio s = Some a \<longrightarrow> ptr_map_ok (au_channels a) \<and> ptr_map_ok (au_dca a))"

definition normalized :: "state \<Rightarrow> bool" where
  "normalized s \<longleftrightarrow> (\<forall>sl. st_slides s = Some sl \<longrightarrow> sl_pending_actions sl \<noteq> None)"

lemma normalize_normalized: "normalized (normalize s)"
  by (auto simp: normalized_def normalize_def split: option.splits)

lemma normalize_ok [inv_intros]: "state_ok s \<Longrightarrow> state_ok (normalize s)"
  by (auto simp: state_ok_def normalize_def split: option.splits)

lemma ptr_map_ok_put [inv_intros]: "ptr_map_ok m \<Longrightarrow> ptr_map_ok (gm_put k (Some v) m)"
  by (auto simp: ptr_map_ok_def set_gm_put)

lemma CameraOrNew_ok [inv_intros]: "state_ok s \<Longrightarrow> state_ok (fst (CameraOrNew cid s))"
  by (auto simp: state_ok_def CameraOrNew_def ptr_map_ok_put split: option.splits)

lemma CameraOrNew_not_nil: "state_ok s \<Longrightarrow> snd (CameraOrNew cid s) \<noteq> None"
  by (force simp: state_ok_def CameraOrNew_def ptr_map_ok_def dest: map_of_SomeD split: option.splits)

lemma set_camera_ok [inv_intros]: "state_ok s \<Longrightarrow> state_ok (set_camera cid c s)"
  by (auto simp: state_ok_def set_camera_def ptr_map_ok_put)

lemma OBSOrNew_ok [inv_intros]: "state_ok s \<Longrightarrow> state_ok (fst (OBSOrNew s))"
  by (auto simp: state_ok_def OBSOrNew_def Let_def split: option.splits)

lemma recall_preset_ok [inv_intros]: "state_ok s \<Longrightarrow> state_ok (recall_preset cid preset s)"
  using CameraOrNew_ok [of s cid]
  by (auto simp: recall_preset_def intro: set_camera_ok split: option.splits prod.splits)

lemma assign_obs_ok [inv_intros]: "state_ok s \<Longrightarrow> state_ok (assign_obs f s)"
  using OBSOrNew_ok [of s] by (auto simp: assign_obs_def state_ok_def split: prod.splits)

text \<open>What is encoded is a well-formed value without nulls.\<close>

abbreviation good :: "json \<Rightarrow> bool" where
  "good j \<equiv> json_wf j \<and> null_free j"

lemma obj_of_good: "(\<forall>p \<in> set fs. \<forall>j. snd p = Some j \<longrightarrow> good j) \<Longrightarrow> good (JObj (obj_of fs))"
proof (induction fs)
  case (Cons p fs)
  obtain k v where p: "p = (k, v)" by (cases p)
  from Cons have "good (JObj (obj_of fs))" by simp
  with Cons.prems show ?case by (cases v) (auto simp: p set_gm_put)
qed simp

lemma json_float_good: "json_float f = Some j \<Longrightarrow> good j"
  by (cases f) auto

lemma omit_if_Some: "omit_if b v = Some j \<longleftrightarrow> \<not> b \<and> v = j"
  by (auto simp: omit_if_def)

lemma json_map_good:
  assumes "\<And>x j. enc x = Some j \<Longrightarrow> good j" and "ptr_map_ok m" and "json_map enc m = Some js"
  shows "good (JObj js) \<and> gm_keys js = gm_keys m"
  using assms(2,3)
proof (induction m arbitrary: js)
  case (Cons p m)
  obtain k v where p: "p = (k, v)" by (cases p)
  from Cons.prems obtain x j js' where x: "v = Some x" "enc x = Some j" "json_map enc m = Some js'" "js = (k, j) # js'"
    by (auto simp: p ptr_map_ok_def split: option.splits)
  have m: "ptr_map_ok m" using Cons.prems(1) by (simp add: p ptr_map_ok_def gm_wf_Cons)
  have IH: "good (JObj js')" "gm_keys js' = gm_keys m" using Cons.IH [OF m x(3)] by auto
  have "gm_wf js" using Cons.prems(1) IH(2) by (simp add: p x(4) ptr_map_ok_def gm_wf_def)
  with IH assms(1) [OF x(2)] show ?case by (simp add: p x)
qed simp

lemma scalar_good:
  "json_wf (JStr x)" "null_free (JStr x)" "json_wf (JBool b)" "null_free (JBool b)"
  "json_wf (json_int n)" "null_free (json_int n)"
  "json_wf (JArr (map JStr xs))" "null_free (JArr (map JStr xs))"
  by (simp_all add: json_int_def)

declare obj_of.simps [simp del]

lemmas encode_good = scalar_good json_float_good omit_if_Some

lemma json_camera_good: "json_camera c = Some j \<Longrightarrow> good j"
  unfolding json_camera_def
  by (auto simp del: json_wf.simps null_free.simps intro!: obj_of_good simp: encode_good split: option.splits)

lemma json_channel_good: "json_channel c = Some j \<Longrightarrow> good j"
  unfolding json_channel_def
  by (auto simp del: json_wf.simps null_free.simps intro!: obj_of_good simp: encode_good split: option.splits)

lemma json_dca_good: "json_dca d = Some j \<Longrightarrow> good j"
  unfolding json_dca_def
  by (auto simp del: json_wf.simps null_free.simps intro!: obj_of_good simp: encode_good split: option.splits)

lemma json_obs_good: "good (json_obs b)"
  unfolding json_obs_def by (rule obj_of_good) (auto simp: encode_good simp del: json_wf.simps null_free.simps)

lemma json_chat_good: "good (json_chat c)"
  unfolding json_chat_def by (rule obj_of_good) (auto simp: encode_good simp del: json_wf.simps null_free.simps)

lemma json_stream_good: "good (json_stream s)"
  unfolding json_stream_def
  by (rule obj_of_good) (auto simp: encode_good json_chat_good simp del: json_wf.simps null_free.simps)

lemma json_slides_good: "sl_pending_actions s \<noteq> None \<Longrightarrow> good (json_slides s)"
  unfolding json_slides_def
  by (rule obj_of_good) (auto simp: encode_good simp del: json_wf.simps(1,2) null_free.simps split: option.splits)

lemma json_audio_good:
  assumes "ptr_map_ok (au_channels a)" "ptr_map_ok (au_dca a)" "json_audio a = Some j"
  shows "good j"
proof -
  obtain cs ds where e: "json_map json_channel (au_channels a) = Some cs" "json_map json_dca (au_dca a) = Some ds"
    "j = JObj (obj_of [(''channels'', omit_if (cs = []) (JObj cs)), (''dca'', omit_if (ds = []) (JObj ds))])"
    using assms(3) by (auto simp: json_audio_def split: option.splits)
  have "good (JObj cs)" "good (JObj ds)"
    using json_map_good [OF json_channel_good assms(1) e(1)] json_map_good [OF json_dca_good assms(2) e(2)] by auto
  then show ?thesis
    unfolding e(3)
    by (intro obj_of_good) (auto simp: omit_if_Some simp del: json_wf.simps null_free.simps)
qed

text \<open>The JSON-object form of a well-formed state is well formed and holds no null.\<close>

lemma toMap_good:
  assumes "state_ok s" "normalized s" "toMap s = Some m"
  shows "obj_wf m \<and> obj_null_free m"
proof -
  obtain audio cams where e:
    "(case st_audio s of None \<Rightarrow> Some None | Some a \<Rightarrow> map_option Some (json_audio a)) = Some audio"
    "json_map json_camera (st_camera s) = Some cams"
    "m = obj_of [(''audio'', audio), (''camera'', omit_if (cams = []) (JObj cams)),
                 (''obs'', map_option json_obs (st_obs s)), (''slides'', map_option json_slides (st_slides s)),
                 (''stream'', map_option json_stream (st_stream s))]"
    using assms(3) by (auto simp: toMap_def split: option.splits)
  have cams: "good (JObj cams)"
    using json_map_good [OF json_camera_good _ e(2)] assms(1) by (simp add: state_ok_def)
  have audio: "good j" if "audio = Some j" for j
    using that e(1) assms(1) json_audio_good by (auto simp: state_ok_def split: option.splits)
  have slides: "good (json_slides sl)" if "st_slides s = Some sl" for sl
    using assms(2) that by (auto simp: normalized_def intro!: json_slides_good)
  have "good (JObj m)"
    unfolding e(3)
    using cams audio slides json_obs_good json_stream_good
    by (intro obj_of_good) (auto simp: omit_if_Some simp del: json_wf.simps null_free.simps)
  then show ?thesis by simp
qed

text \<open>Only a topic can be a key of it.\<close>

lemma obj_of_keys: "set (gm_keys (obj_of fs)) \<subseteq> set (map fst fs)" and obj_of_wf: "gm_wf (obj_of fs)"
proof (induction fs)
  case (Cons p fs)
  case 1
  with Cons show ?case by (cases p) (auto simp: obj_of.simps set_gm_put split: option.splits)
  case 2
  with Cons show ?case by (cases p) (auto simp: obj_of.simps split: option.splits)
qed (simp_all add: obj_of.simps)

lemma toMap_topics: "toMap s = Some m \<Longrightarrow> set (gm_keys m) \<subseteq> set Topics"
  using obj_of_keys by (fastforce simp: toMap_def Topics_def simp del: set_map split: option.splits)

end
