(* ===== verification/Store.thy ===== *)
theory Store
  imports MergePatch StateModel GoBase
begin

text \<open>
  \<open>Store\<close> of server/internal/state/store.go and the \<open>Poller\<close> of poller.go: the
  authoritative state, its revision, the deltas it hands its observer, and the snapshots
  clients start from.  A mutex-protected method is one step.  The observer acts on a world
  \<open>'w\<close> of its own (the hub and the clients' queues), which is threaded through.
\<close>

section \<open>The store\<close>

record update_result =
  ur_changed :: bool
  ur_rev :: int
  ur_patch :: "jobj option"

record 'w store =
  so_st :: state
  so_cur :: jobj
  so_rev :: int
  so_observer :: "(update_result \<Rightarrow> 'w \<Rightarrow> 'w) option"

datatype store_error = MarshalError

definition NewStore :: "'w store" where
  "NewStore = \<lparr>so_st = zero_state, so_cur = [], so_rev = 0, so_observer = None\<rparr>"

definition SetObserver :: "(update_result \<Rightarrow> 'w \<Rightarrow> 'w) \<Rightarrow> 'w store \<Rightarrow> 'w store" where
  "SetObserver fn s = s\<lparr>so_observer := Some fn\<rparr>"

text \<open>The mutator works on the store's own state, so it stays applied when encoding fails.\<close>

definition Update :: "(state \<Rightarrow> state) \<Rightarrow> 'w store \<Rightarrow> 'w \<Rightarrow>
    'w store \<times> 'w \<times> (store_error, update_result) result" where
  "Update mutate s w =
     (let s1 = s\<lparr>so_st := normalize (mutate (so_st s))\<rparr> in
      case toMap (so_st s1) of
        None \<Rightarrow> (s1, w, Inl MarshalError)
      | Some nxt \<Rightarrow>
          (case diff (so_cur s1) nxt of
             None \<Rightarrow> (s1, w, Inr \<lparr>ur_changed = False, ur_rev = so_rev s1, ur_patch = None\<rparr>)
           | Some patch \<Rightarrow>
               let s2 = s1\<lparr>so_cur := nxt, so_rev := so_rev s1 + 1\<rparr>;
                   res = \<lparr>ur_changed = True, ur_rev = so_rev s2, ur_patch = Some patch\<rparr>;
                   w' = (case so_observer s2 of Some f \<Rightarrow> f res w | None \<Rightarrow> w)
               in (s2, w', Inr res)))"

definition Snapshot :: "(string \<Rightarrow> bool) \<Rightarrow> 'w store \<Rightarrow> int \<times> jobj option" where
  "Snapshot topics s = (so_rev s, FilterTopics (so_cur s) topics)"

definition SnapshotInto :: "(string \<Rightarrow> bool) \<Rightarrow> (int \<Rightarrow> jobj option \<Rightarrow> 'w \<Rightarrow> 'w) \<Rightarrow> 'w store \<Rightarrow> 'w \<Rightarrow> 'w" where
  "SnapshotInto topics fn s w = fn (so_rev s) (FilterTopics (so_cur s) topics) w"

definition Rev :: "'w store \<Rightarrow> int" where
  "Rev s = so_rev s"

section \<open>The poller\<close>

definition DefaultPollInterval :: int where
  "DefaultPollInterval = Second"

text \<open>
  A source is I/O: what it fetched is an input of the tick.  \<open>Inl\<close> is a fetch error,
  \<open>Inr None\<close> a nil mutator.
\<close>

type_synonym fetched = "unit + (state \<Rightarrow> state) option"

record poller =
  po_interval :: int
  po_sources :: nat

definition NewPoller :: "int \<Rightarrow> nat \<Rightarrow> poller" where
  "NewPoller interval sources =
     \<lparr>po_interval = (if interval \<le> 0 then DefaultPollInterval else interval), po_sources = sources\<rparr>"

fun gather :: "fetched list \<Rightarrow> (state \<Rightarrow> state) list" where
  "gather [] = []"
| "gather (Inl _ # fs) = gather fs"
| "gather (Inr None # fs) = gather fs"
| "gather (Inr (Some f) # fs) = f # gather fs"

definition tick :: "fetched list \<Rightarrow> 'w store \<Rightarrow> 'w \<Rightarrow> 'w store \<times> 'w" where
  "tick fetches s w =
     (let appliers = gather fetches in
      if appliers = [] then (s, w)
      else let (s', w', _) = Update (\<lambda>st. fold (\<lambda>f. f) appliers st) s w in (s', w'))"

text \<open>
  \<open>Run\<close> until the context is cancelled: the ticks that happen before, each with what its
  sources returned.  The first tick is immediate, so \<open>ticks\<close> is not empty when there is a
  source.
\<close>

fun run_ticks :: "fetched list list \<Rightarrow> 'w store \<Rightarrow> 'w \<Rightarrow> 'w store \<times> 'w" where
  "run_ticks [] s w = (s, w)"
| "run_ticks (t # ts) s w = (let (s', w') = tick t s w in run_ticks ts s' w')"

definition Run :: "poller \<Rightarrow> fetched list \<Rightarrow> fetched list list \<Rightarrow> 'w store \<Rightarrow> 'w \<Rightarrow> 'w store \<times> 'w" where
  "Run p first later s w =
     (if po_sources p = 0 then (s, w)
      else let (s', w') = tick first s w in run_ticks later s' w')"

section \<open>Invariant\<close>

text \<open>
  The state is well formed, and \<open>cur\<close> is its JSON-object form, unless the last mutation
  could not be encoded.
\<close>

definition store_ok :: "'w store \<Rightarrow> bool" where
  "store_ok s \<longleftrightarrow> state_ok (so_st s) \<and> obj_wf (so_cur s) \<and> obj_null_free (so_cur s) \<and>
     set (gm_keys (so_cur s)) \<subseteq> set Topics \<and> 0 \<le> so_rev s \<and>
     (normalized (so_st s) \<longrightarrow> (case toMap (so_st s) of Some m \<Rightarrow> so_cur s = m | None \<Rightarrow> True))"

definition mutator_ok :: "(state \<Rightarrow> state) \<Rightarrow> bool" where
  "mutator_ok f \<longleftrightarrow> (\<forall>s. state_ok s \<longrightarrow> state_ok (f s))"

lemma zero_state_toMap: "toMap zero_state = Some []"
  by (simp add: toMap_def zero_state_def obj_of.simps omit_if_def)

lemma NewStore_ok [inv_intros]: "store_ok NewStore"
  using zero_state_toMap by (auto simp: store_ok_def NewStore_def zero_state_def state_ok_def ptr_map_ok_def)

lemma SetObserver_ok [inv_intros]: "store_ok s \<Longrightarrow> store_ok (SetObserver fn s)"
  by (auto simp: store_ok_def SetObserver_def split: option.splits)

text \<open>The outcome of an update, on each of its branches.\<close>

lemma Update_cases:
  assumes "store_ok s" "mutator_ok f"
  obtains
    (failed) s' where "Update f s w = (s', w, Inl MarshalError)" "toMap (normalize (f (so_st s))) = None"
      "so_st s' = normalize (f (so_st s))" "so_cur s' = so_cur s" "so_rev s' = so_rev s" "so_observer s' = so_observer s" "store_ok s'"
  | (unchanged) s' where "Update f s w = (s', w, Inr \<lparr>ur_changed = False, ur_rev = so_rev s, ur_patch = None\<rparr>)"
      "toMap (normalize (f (so_st s))) = Some (so_cur s)"
      "so_cur s' = so_cur s" "so_rev s' = so_rev s" "so_observer s' = so_observer s" "store_ok s'"
  | (changed) s' nxt patch where
      "Update f s w = (s', case so_observer s of Some g \<Rightarrow> g \<lparr>ur_changed = True, ur_rev = so_rev s + 1, ur_patch = Some patch\<rparr> w | None \<Rightarrow> w,
         Inr \<lparr>ur_changed = True, ur_rev = so_rev s + 1, ur_patch = Some patch\<rparr>)"
      "toMap (normalize (f (so_st s))) = Some nxt" "nxt \<noteq> so_cur s" "so_cur s' = nxt" "diff (so_cur s) nxt = Some patch"
      "so_rev s' = so_rev s + 1" "so_observer s' = so_observer s" "store_ok s'"
proof -
  let ?st = "normalize (f (so_st s))"
  have st: "state_ok ?st" "normalized ?st"
    using assms by (auto simp: store_ok_def mutator_ok_def normalize_normalized intro: normalize_ok)
  show thesis
  proof (cases "toMap ?st")
    case None
    then have "store_ok (s\<lparr>so_st := ?st\<rparr>)" using assms(1) st by (simp add: store_ok_def)
    with None show thesis by (intro failed) (simp_all add: Update_def)
  next
    case (Some nxt)
    have nxt: "obj_wf nxt" "obj_null_free nxt" "set (gm_keys nxt) \<subseteq> set Topics"
      using toMap_good [OF st Some] toMap_topics [OF Some] by auto
    have cur: "obj_wf (so_cur s)" using assms(1) by (simp add: store_ok_def)
    show thesis
    proof (cases "diff (so_cur s) nxt")
      case None
      then have "nxt = so_cur s" using diff_None_iff [OF cur nxt(1,2)] by simp
      moreover from this have "store_ok (s\<lparr>so_st := ?st\<rparr>)"
        using assms(1) st Some by (simp add: store_ok_def)
      ultimately show thesis using Some None by (intro unchanged) (simp_all add: Update_def)
    next
      case (Some patch)
      have "store_ok (s\<lparr>so_st := ?st, so_cur := nxt, so_rev := so_rev s + 1\<rparr>)"
        using assms(1) st nxt \<open>toMap ?st = Some nxt\<close> by (simp add: store_ok_def)
      moreover have "nxt \<noteq> so_cur s" using diff_None_iff [OF cur nxt(1,2)] Some by auto
      ultimately show thesis
        using Some \<open>toMap ?st = Some nxt\<close> by (intro changed) (simp_all add: Update_def Let_def split: option.split)
    qed
  qed
qed

lemma Update_ok [inv_intros]: "store_ok s \<Longrightarrow> mutator_ok f \<Longrightarrow> store_ok (fst (Update f s w))"
  by (erule (1) Update_cases [of s f w]) auto

section \<open>Following a store by its deltas\<close>

text \<open>A history: updates, in the order the lock admits them, against an observer that keeps a log.\<close>

definition log_observer :: "update_result \<Rightarrow> update_result list \<Rightarrow> update_result list" where
  "log_observer r lg = lg @ [r]"

fun updates :: "(state \<Rightarrow> state) list \<Rightarrow> 'w store \<Rightarrow> 'w \<Rightarrow> 'w store \<times> 'w" where
  "updates [] s w = (s, w)"
| "updates (f # fs) s w = (let (s', w', _) = Update f s w in updates fs s' w')"

text \<open>What a client subscribed to \<open>topics\<close> holds after a snapshot object and the deltas of a log.\<close>

definition snapshot_object :: "(string \<Rightarrow> bool) \<Rightarrow> 'w store \<Rightarrow> json" where
  "snapshot_object topics s = JObj (or_empty (snd (Snapshot topics s)))"

definition follow :: "(string \<Rightarrow> bool) \<Rightarrow> json \<Rightarrow> update_result list \<Rightarrow> json" where
  "follow topics v lg = foldl (\<lambda>v r. applyMergePatch v (JObj (scoped topics (or_empty (ur_patch r))))) v lg"

lemma follow_append: "follow topics v (xs @ ys) = follow topics (follow topics v xs) ys"
  by (simp add: follow_def)

lemma Update_followed:
  assumes "store_ok s" "mutator_ok f" "so_observer s = Some log_observer"
  shows "\<exists>new. fst (snd (Update f s lg)) = lg @ new \<and>
    follow topics (snapshot_object topics s) new = snapshot_object topics (fst (Update f s lg)) \<and>
    map ur_rev new = [so_rev s + 1 .. so_rev (fst (Update f s lg))] \<and>
    so_observer (fst (Update f s lg)) = Some log_observer"
  using assms(1,2)
proof (cases rule: Update_cases [of s f lg])
  case (changed s' nxt patch)
  let ?r = "\<lparr>ur_changed = True, ur_rev = so_rev s + 1, ur_patch = Some patch\<rparr>"
  have good: "obj_wf (so_cur s)" "obj_wf nxt" "obj_null_free nxt"
    using assms(1) changed(4,8) by (auto simp: store_ok_def)
  have "gm_wf (so_cur s)" "gm_wf patch" using good(1) diff_wf [of "so_cur s" nxt] changed(5) by auto
  then have "follow topics (snapshot_object topics s) [?r] = snapshot_object topics s'"
    using merge_diff [OF good] changed(4,5)
    by (simp add: follow_def snapshot_object_def Snapshot_def merge_obj merge_scoped)
  with changed assms(3) show ?thesis
    by (intro exI [of _ "[?r]"]) (simp add: log_observer_def)
qed (auto simp: follow_def snapshot_object_def Snapshot_def assms(3))

lemma updates_followed:
  assumes "store_ok s" "\<forall>f \<in> set fs. mutator_ok f" "so_observer s = Some log_observer"
  shows "\<exists>new. snd (updates fs s lg) = lg @ new \<and>
    follow topics (snapshot_object topics s) new = snapshot_object topics (fst (updates fs s lg)) \<and>
    map ur_rev new = [so_rev s + 1 .. so_rev (fst (updates fs s lg))] \<and> so_rev s \<le> so_rev (fst (updates fs s lg))"
  using assms
proof (induction fs arbitrary: s lg)
  case Nil
  then show ?case by (auto simp: follow_def)
next
  case (Cons f fs)
  obtain s' lg' r where u: "Update f s lg = (s', lg', r)" by (cases "Update f s lg")
  have ok: "store_ok s'" "so_rev s \<le> so_rev s'"
    using Update_cases [of s f lg "so_rev s \<le> so_rev s'"] Update_ok [of s f lg] Cons.prems u by auto
  obtain new where n: "lg' = lg @ new" "follow topics (snapshot_object topics s) new = snapshot_object topics s'"
    "map ur_rev new = [so_rev s + 1 .. so_rev s']" "so_observer s' = Some log_observer"
    using Update_followed [of s f lg topics] Cons.prems u by auto
  obtain new' where n': "snd (updates fs s' lg') = lg' @ new'"
    "follow topics (snapshot_object topics s') new' = snapshot_object topics (fst (updates fs s' lg'))"
    "map ur_rev new' = [so_rev s' + 1 .. so_rev (fst (updates fs s' lg'))]" "so_rev s' \<le> so_rev (fst (updates fs s' lg'))"
    using Cons.IH [of s' lg'] ok n(4) Cons.prems(2) by auto
  have "[so_rev s + 1 .. so_rev s'] @ [so_rev s' + 1 .. so_rev (fst (updates fs s' lg'))] =
      [so_rev s + 1 .. so_rev (fst (updates fs s' lg'))]"
    using upto_split1 [of "so_rev s + 1" "so_rev s' + 1" "so_rev (fst (updates fs s' lg'))"] ok(2) n'(4)
    by (cases "so_rev s' = so_rev (fst (updates fs s' lg'))") auto
  with n n' u ok show ?case
    by (intro exI [of _ "new @ new'"]) (simp add: follow_append)
qed


section \<open>Properties\<close>

text \<open>
  Whatever updates are made, in whatever order the lock admits them, a client that took a
  snapshot at any point and merges every later delta scoped to its topics holds the store's
  state scoped to them, and the revisions it sees are consecutive.
\<close>
lemma store_replay:
  assumes "store_ok s" and "\<forall>f \<in> set fs. mutator_ok f" and "so_observer s = Some log_observer"
  shows "follow topics (snapshot_object topics s) (snd (updates fs s [])) =
           snapshot_object topics (fst (updates fs s [])) \<and>
         map ur_rev (snd (updates fs s [])) = [Rev s + 1 .. Rev (fst (updates fs s []))]"
  using updates_followed [OF assms, of "[]" topics] by (auto simp: Rev_def)

lemma store_replay_witness:
  defines "s \<equiv> SetObserver log_observer NewStore"
  shows "follow (\<lambda>t. t = ''camera'') (snapshot_object (\<lambda>t. t = ''camera'') s)
      (snd (updates [recall_preset ''cam1'' ''wide'', recall_preset ''cam1'' ''wide'', recall_preset ''cam2'' ''stage''] s [])) =
    snapshot_object (\<lambda>t. t = ''camera'') (fst (updates [recall_preset ''cam1'' ''wide'', recall_preset ''cam1'' ''wide'', recall_preset ''cam2'' ''stage''] s []))"
proof -
  have "store_ok s" "so_observer s = Some log_observer"
    by (auto simp: s_def SetObserver_def intro: inv_intros simp flip: SetObserver_def)
       (simp add: SetObserver_def)
  then show ?thesis
    using store_replay [of s "[recall_preset ''cam1'' ''wide'', recall_preset ''cam1'' ''wide'', recall_preset ''cam2'' ''stage'']" "\<lambda>t. t = ''camera''"]
      recall_preset_ok by (simp add: mutator_ok_def)
qed

text \<open>
  The outcome of an update on each branch.  An encoding error and a mutation that changes
  nothing leave the revision, the published object and the observer alone; a change bumps
  the revision by one and notifies the observer once, with that revision and the delta.
\<close>
lemma update_outcome:
  assumes "store_ok s" and "mutator_ok f" and "Update f s w = (s', w', r)"
  shows "store_ok s' \<and>
    (case toMap (normalize (f (so_st s))) of
       None \<Rightarrow> r = Inl MarshalError \<and> w' = w \<and> Rev s' = Rev s \<and> so_cur s' = so_cur s
     | Some nxt \<Rightarrow>
         so_cur s' = nxt \<and>
         (if nxt = so_cur s
          then r = Inr \<lparr>ur_changed = False, ur_rev = Rev s, ur_patch = None\<rparr> \<and> w' = w \<and> Rev s' = Rev s
          else \<exists>patch. diff (so_cur s) nxt = Some patch \<and> Rev s' = Rev s + 1 \<and>
            r = Inr \<lparr>ur_changed = True, ur_rev = Rev s', ur_patch = Some patch\<rparr> \<and>
            w' = (case so_observer s of
                    Some g \<Rightarrow> g \<lparr>ur_changed = True, ur_rev = Rev s', ur_patch = Some patch\<rparr> w
                  | None \<Rightarrow> w)))"
  using assms(1,2)
  by (cases rule: Update_cases [of s f w]) (use assms(3) in \<open>auto simp: Rev_def split: option.split\<close>)

lemma update_outcome_witness:
  "Rev (fst (Update (\<lambda>st. set_camera ''cam1'' (zero_camera\<lparr>cam_pan := NaN\<rparr>) st) NewStore ())) = 0"
proof -
  let ?f = "\<lambda>st. set_camera ''cam1'' (zero_camera\<lparr>cam_pan := NaN\<rparr>) st"
  have "mutator_ok ?f" by (simp add: mutator_ok_def set_camera_ok)
  moreover have "toMap (normalize (?f (so_st (NewStore :: unit store)))) = None"
    by (simp add: NewStore_def zero_state_def normalize_def set_camera_def zero_camera_def toMap_def json_camera_def)
  moreover obtain s' w' r where u: "Update ?f NewStore () = (s', w', r)" by (cases "Update ?f NewStore ()")
  ultimately have "Rev s' = Rev (NewStore :: unit store)"
    using update_outcome [OF NewStore_ok _ u] by simp
  then show ?thesis by (simp add: u) (simp add: Rev_def NewStore_def)
qed

text \<open>
  A poller is a writer like any other: its ticks are one update each, of what the readable
  sources returned, applied in the sources' order; a source that failed or returned nothing
  changes nothing, and a tick without a mutator does not touch the store.
\<close>
lemma poller_updates:
  fixes s :: "'w store"
  assumes "po_sources p \<noteq> 0"
  shows "Run p first later s w =
    updates (map (\<lambda>t st. fold (\<lambda>f. f) (gather t) st) (filter (\<lambda>t. gather t \<noteq> []) (first # later))) s w"
proof -
  let ?ups = "\<lambda>ts. map (\<lambda>t st. fold (\<lambda>f. f) (gather t) st) (filter (\<lambda>t. gather t \<noteq> []) ts)"
  have one: "(let (s', w') = tick t s w in updates (?ups ts) s' w') = updates (?ups (t # ts)) s w" for t ts and s :: "'w store" and w
    by (simp add: tick_def Let_def split: prod.split)
  have "run_ticks ts s w = updates (?ups ts) s w" for ts and s :: "'w store" and w
  proof (induction ts arbitrary: s w)
    case (Cons t ts)
    then show ?case using one [of t s w ts] by (simp split: prod.splits)
  qed simp
  then have "Run p first later s w = (let (s', w') = tick first s w in updates (?ups later) s' w')"
    using assms by (simp add: Run_def split: prod.split)
  also note one
  finally show ?thesis .
qed

lemma poller_updates_witness:
  "Run (NewPoller 0 2) [Inl (), Inr (Some (recall_preset ''cam1'' ''wide''))] [[Inr None, Inl ()]] NewStore ()
   = updates [recall_preset ''cam1'' ''wide''] NewStore ()"
  using poller_updates [of "NewPoller 0 2" "[Inl (), Inr (Some (recall_preset ''cam1'' ''wide''))]" "[[Inr None, Inl ()]]" NewStore "()"]
  by (simp add: NewPoller_def)

end
