(* ===== verification/GoStrings.thy ===== *)
theory GoStrings
  imports GoBase "HOL-Library.Sublist"
begin

text \<open>
  What the components use of Go's \<open>strings\<close> and \<open>strconv\<close>.  A Go string is a sequence of
  bytes, a \<open>string\<close> here; the functions that work on runes are written out on their UTF-8
  encodings.
\<close>

abbreviation byte :: "char \<Rightarrow> nat" where
  "byte c \<equiv> of_char c"

section \<open>Searching and splitting\<close>

abbreviation HasPrefix :: "string \<Rightarrow> string \<Rightarrow> bool" where
  "HasPrefix s p \<equiv> prefix p s"

abbreviation HasSuffix :: "string \<Rightarrow> string \<Rightarrow> bool" where
  "HasSuffix s p \<equiv> suffix p s"

text \<open>\<open>strings.ContainsAny\<close> with ASCII characters.\<close>

definition ContainsAny :: "string \<Rightarrow> string \<Rightarrow> bool" where
  "ContainsAny s chars \<longleftrightarrow> (\<exists>c \<in> set s. c \<in> set chars)"

text \<open>\<open>strings.Split\<close> with a one-byte separator.\<close>

fun Split :: "string \<Rightarrow> char \<Rightarrow> string list" where
  "Split [] c = [[]]"
| "Split (x # xs) c =
     (if x = c then [] # Split xs c
      else (case Split xs c of [] \<Rightarrow> [[x]] | p # ps \<Rightarrow> (x # p) # ps))"

fun Join :: "string list \<Rightarrow> char \<Rightarrow> string" where
  "Join [] c = []"
| "Join [p] c = p"
| "Join (p # q # ps) c = p @ c # Join (q # ps) c"

text \<open>\<open>strings.Cut\<close> with a one-byte separator.\<close>

definition Cut :: "string \<Rightarrow> char \<Rightarrow> string \<times> string \<times> bool" where
  "Cut s c =
     (case dropWhile (\<lambda>x. x \<noteq> c) s of
        [] \<Rightarrow> (s, [], False)
      | _ # rest \<Rightarrow> (takeWhile (\<lambda>x. x \<noteq> c) s, rest, True))"

lemma Split_not_Nil [simp]: "Split s c \<noteq> []"
  by (induction s) (auto split: list.splits)

lemma Split_no_sep: "c \<notin> set p \<Longrightarrow> Split p c = [p]"
  by (induction p) auto

lemma Split_append: "c \<notin> set p \<Longrightarrow> Split (p @ c # s) c = p # Split s c"
  by (induction p) auto

lemma Split_Join: "ps \<noteq> [] \<Longrightarrow> \<forall>p \<in> set ps. c \<notin> set p \<Longrightarrow> Split (Join ps c) c = ps"
  by (induction ps c rule: Join.induct) (simp_all add: Split_no_sep Split_append)

section \<open>Trimming\<close>

text \<open>The encodings of the runes of \<open>unicode.IsSpace\<close>.\<close>

definition space_seqs :: "string list" where
  "space_seqs =
    [[CHR 0x09], [CHR 0x0A], [CHR 0x0B], [CHR 0x0C], [CHR 0x0D], [CHR 0x20],
     [CHR 0xC2, CHR 0x85], [CHR 0xC2, CHR 0xA0], [CHR 0xE1, CHR 0x9A, CHR 0x80],
     [CHR 0xE2, CHR 0x80, CHR 0x80], [CHR 0xE2, CHR 0x80, CHR 0x81],
     [CHR 0xE2, CHR 0x80, CHR 0x82], [CHR 0xE2, CHR 0x80, CHR 0x83],
     [CHR 0xE2, CHR 0x80, CHR 0x84], [CHR 0xE2, CHR 0x80, CHR 0x85],
     [CHR 0xE2, CHR 0x80, CHR 0x86], [CHR 0xE2, CHR 0x80, CHR 0x87],
     [CHR 0xE2, CHR 0x80, CHR 0x88], [CHR 0xE2, CHR 0x80, CHR 0x89],
     [CHR 0xE2, CHR 0x80, CHR 0x8A], [CHR 0xE2, CHR 0x80, CHR 0xA8],
     [CHR 0xE2, CHR 0x80, CHR 0xA9], [CHR 0xE2, CHR 0x80, CHR 0xAF],
     [CHR 0xE2, CHR 0x81, CHR 0x9F], [CHR 0xE3, CHR 0x80, CHR 0x80]]"

fun strip_one :: "string list \<Rightarrow> string \<Rightarrow> string option" where
  "strip_one [] s = None"
| "strip_one (p # ps) s = (if p \<noteq> [] \<and> prefix p s then Some (drop (length p) s) else strip_one ps s)"

lemma strip_one_shorter: "strip_one ps s = Some t \<Longrightarrow> length t < length s"
  by (induction ps) (auto split: if_splits simp: prefix_def)

function strip_all :: "string list \<Rightarrow> string \<Rightarrow> string" where
  "strip_all ps s = (case strip_one ps s of Some t \<Rightarrow> strip_all ps t | None \<Rightarrow> s)"
  by auto
termination
  by (relation "measure (\<lambda>(ps, s). length s)") (auto simp: strip_one_shorter)

declare strip_all.simps [simp del]

definition TrimSpace :: "string \<Rightarrow> string" where
  "TrimSpace s = rev (strip_all (map rev space_seqs) (rev (strip_all space_seqs s)))"

definition TrimRight :: "string \<Rightarrow> char \<Rightarrow> string" where
  "TrimRight s c = rev (dropWhile (\<lambda>x. x = c) (rev s))"

definition TrimSuffix :: "string \<Rightarrow> string \<Rightarrow> string" where
  "TrimSuffix s p = (if suffix p s then take (length s - length p) s else s)"

definition TrimPrefix :: "string \<Rightarrow> string \<Rightarrow> string" where
  "TrimPrefix s p = (if prefix p s then drop (length p) s else s)"

lemma strip_one_None: "(\<And>p. p \<in> set ps \<Longrightarrow> p = [] \<or> \<not> prefix p s) \<Longrightarrow> strip_one ps s = None"
  by (induction ps) auto

text \<open>A string that neither begins nor ends with a byte of a space rune is left alone.\<close>

definition edge_bytes :: "char set" where
  "edge_bytes = set (concat space_seqs)"

lemma strip_all_id:
  assumes "s = [] \<or> hd s \<notin> set (concat ps)"
  shows "strip_all ps s = s"
proof -
  have "strip_one ps s = None"
  proof (rule strip_one_None)
    fix p assume "p \<in> set ps"
    with assms show "p = [] \<or> \<not> prefix p s"
      by (cases p; cases s) auto
  qed
  then show ?thesis by (simp add: strip_all.simps)
qed

lemma TrimSpace_id:
  assumes "s = [] \<or> (hd s \<notin> edge_bytes \<and> last s \<notin> edge_bytes)"
  shows "TrimSpace s = s"
proof -
  have "strip_all space_seqs s = s" using assms by (intro strip_all_id) (auto simp: edge_bytes_def)
  moreover have "strip_all (map rev space_seqs) (rev s) = rev s"
    using assms by (intro strip_all_id) (auto simp: edge_bytes_def hd_rev)
  ultimately show ?thesis by (simp add: TrimSpace_def)
qed

section \<open>Case\<close>

text \<open>
  \<open>strings.ToLower\<close>.  Outside ASCII only the runes whose lower case is an ASCII letter are
  mapped (U+0130 and U+212A); the code compares the result with ASCII words, and no other rune
  lowers into one.
\<close>

definition ascii_lower :: "char \<Rightarrow> char" where
  "ascii_lower c = (let n = byte c in if 65 \<le> n \<and> n \<le> 90 then char_of (n + 32) else c)"

fun ToLower :: "string \<Rightarrow> string" where
  "ToLower (a # b # c # s) =
     (if byte a = 196 \<and> byte b = 176 then CHR ''i'' # ToLower (c # s)
      else if byte a = 226 \<and> byte b = 132 \<and> byte c = 170 then CHR ''k'' # ToLower s
      else ascii_lower a # ToLower (b # c # s))"
| "ToLower [a, b] =
     (if byte a = 196 \<and> byte b = 176 then ''i'' else [ascii_lower a, ascii_lower b])"
| "ToLower [a] = [ascii_lower a]"
| "ToLower [] = []"

section \<open>Decimal numbers\<close>

definition digit_char :: "nat \<Rightarrow> char" where
  "digit_char d = char_of (48 + d)"

definition digit_value :: "char \<Rightarrow> nat option" where
  "digit_value c = (let n = byte c in if 48 \<le> n \<and> n \<le> 57 then Some (n - 48) else None)"

fun nat_string :: "nat \<Rightarrow> string" where
  "nat_string n = (if n < 10 then [digit_char n] else nat_string (n div 10) @ [digit_char (n mod 10)])"

declare nat_string.simps [simp del]

text \<open>\<open>strconv.Itoa\<close> and the verb \<open>%d\<close>.\<close>

definition Itoa :: "int \<Rightarrow> string" where
  "Itoa n = (if n < 0 then CHR ''-'' # nat_string (nat (- n)) else nat_string (nat n))"

fun parse_digits :: "nat \<Rightarrow> string \<Rightarrow> nat option" where
  "parse_digits acc [] = Some acc"
| "parse_digits acc (c # s) = (case digit_value c of Some d \<Rightarrow> parse_digits (10 * acc + d) s | None \<Rightarrow> None)"

definition parse_nat :: "string \<Rightarrow> nat option" where
  "parse_nat s = (if s = [] then None else parse_digits 0 s)"

text \<open>\<open>strconv.Atoi\<close>: \<open>None\<close> is a syntax or a range error.\<close>

definition Atoi :: "string \<Rightarrow> int option" where
  "Atoi s =
     (let (neg, ds) = (case s of
          c # cs \<Rightarrow> if c = CHR ''-'' then (True, cs) else if c = CHR ''+'' then (False, cs) else (False, s)
        | [] \<Rightarrow> (False, s))
      in case parse_nat ds of
           None \<Rightarrow> None
         | Some n \<Rightarrow>
             let v = (if neg then - int n else int n)
             in if in_int64 v then Some v else None)"

lemma digit_value_char: "d < 10 \<Longrightarrow> digit_value (digit_char d) = Some d"
  by (simp add: digit_value_def digit_char_def Let_def of_char_of)

lemma digit_char_range: "d < 10 \<Longrightarrow> 48 \<le> byte (digit_char d) \<and> byte (digit_char d) \<le> 57"
  by (simp add: digit_char_def of_char_of)

lemma nat_string_not_Nil [simp]: "nat_string n \<noteq> []"
  by (subst nat_string.simps) simp

lemma nat_string_digits: "c \<in> set (nat_string n) \<Longrightarrow> 48 \<le> byte c \<and> byte c \<le> 57"
proof (induction n rule: nat_string.induct)
  case (1 n)
  then show ?case
    by (subst (asm) (2) nat_string.simps) (auto simp: digit_char_range split: if_splits)
qed

lemma parse_digits_append: "parse_digits acc (s @ t) = Option.bind (parse_digits acc s) (\<lambda>a. parse_digits a t)"
  by (induction s arbitrary: acc) (auto split: option.splits)

lemma parse_nat_string: "parse_digits 0 (nat_string n) = Some n"
proof (induction n rule: nat_string.induct)
  case (1 n)
  then show ?case
    by (subst nat_string.simps) (simp add: parse_digits_append digit_value_char)
qed

lemma Atoi_Itoa:
  assumes "in_int64 n"
  shows "Atoi (Itoa n) = Some n"
proof -
  have not_sign: "hd (nat_string m) \<noteq> CHR ''-'' \<and> hd (nat_string m) \<noteq> CHR ''+''" for m
    using nat_string_digits [of "hd (nat_string m)" m] by auto
  show ?thesis
  proof (cases "n < 0")
    case True
    then show ?thesis
      using assms by (simp add: Atoi_def Itoa_def parse_nat_def parse_nat_string)
  next
    case False
    then show ?thesis
      using assms not_sign [of "nat n"] parse_nat_string [of "nat n"] nat_string_not_Nil [of "nat n"]
      by (cases "nat_string (nat n)") (auto simp: Atoi_def Itoa_def parse_nat_def simp del: parse_digits.simps nat_string_not_Nil)
  qed
qed

lemma Itoa_nonneg_digits: "0 \<le> n \<Longrightarrow> c \<in> set (Itoa n) \<Longrightarrow> 48 \<le> byte c \<and> byte c \<le> 57"
  by (auto simp: Itoa_def dest: nat_string_digits)

lemma Itoa_not_Nil [simp]: "Itoa n \<noteq> []"
  by (simp add: Itoa_def)

end
