(* ===== verification/Protocol.thy ===== *)
theory Protocol
  imports Json GoStrings
begin

text \<open>
  server/internal/api/protocol.go: the frames of docs/protocol.md, how \<open>encoding/json\<close> decodes
  the client's and encodes the server's.  The text of a JSON value is parsed by the standard
  library; a parsed value keeps what decoding can see of the text: the order of an object's
  entries, their duplicates, and number literals.
\<close>

section \<open>Parsed JSON text\<close>

datatype rjson =
    RNull
  | RBool bool
  | RNum string
  | RStr string
  | RArr "rjson list"
  | RObj "(string \<times> rjson) list"

text \<open>
  Field names match up to Unicode simple folding: ASCII case, and the two runes outside ASCII
  that fold to an ASCII letter.
\<close>

fun fold_name :: "string \<Rightarrow> string" where
  "fold_name (a # b # c # s) =
     (if byte a = 197 \<and> byte b = 191 then CHR ''s'' # fold_name (c # s)
      else if byte a = 226 \<and> byte b = 132 \<and> byte c = 170 then CHR ''k'' # fold_name s
      else ascii_lower a # fold_name (b # c # s))"
| "fold_name [a, b] = (if byte a = 197 \<and> byte b = 191 then ''s'' else [ascii_lower a, ascii_lower b])"
| "fold_name [a] = [ascii_lower a]"
| "fold_name [] = []"

abbreviation names_field :: "string \<Rightarrow> string \<Rightarrow> bool" where
  "names_field key field \<equiv> fold_name key = field"

text \<open>
  Decoding into a field gives the new field and whether the types mismatched; a mismatch is
  remembered, the rest is still decoded, and the call reports an error.  Null leaves a string
  or a bool as it was and makes a pointer or a slice nil.
\<close>

definition into_string :: "rjson \<Rightarrow> string \<Rightarrow> string \<times> bool" where
  "into_string v x = (case v of RStr s \<Rightarrow> (s, False) | RNull \<Rightarrow> (x, False) | _ \<Rightarrow> (x, True))"

definition into_bool_ptr :: "rjson \<Rightarrow> bool option \<Rightarrow> bool option \<times> bool" where
  "into_bool_ptr v x = (case v of RBool b \<Rightarrow> (Some b, False) | RNull \<Rightarrow> (None, False) | _ \<Rightarrow> (x, True))"

definition into_int_ptr :: "rjson \<Rightarrow> int option \<Rightarrow> int option \<times> bool" where
  "into_int_ptr v x =
     (case v of
        RNum lit \<Rightarrow> (case Atoi lit of Some n \<Rightarrow> (Some n, False) | None \<Rightarrow> (x, True))
      | RNull \<Rightarrow> (None, False)
      | _ \<Rightarrow> (x, True))"

fun into_string_items :: "rjson list \<Rightarrow> string list \<times> bool" where
  "into_string_items [] = ([], False)"
| "into_string_items (v # vs) =
     (let (s, e) = into_string v ''''; (ss, e') = into_string_items vs in (s # ss, e \<or> e'))"

definition into_strings :: "rjson \<Rightarrow> string list \<Rightarrow> string list \<times> bool" where
  "into_strings v x = (case v of RArr vs \<Rightarrow> into_string_items vs | RNull \<Rightarrow> ([], False) | _ \<Rightarrow> (x, True))"

fun decode_entries :: "(string \<Rightarrow> rjson \<Rightarrow> 's \<Rightarrow> 's \<times> bool) \<Rightarrow> (string \<times> rjson) list \<Rightarrow> 's \<Rightarrow> 's \<times> bool" where
  "decode_entries field [] s = (s, False)"
| "decode_entries field ((k, v) # es) s =
     (let (s', e) = field k v s; (s'', e') = decode_entries field es s' in (s'', e \<or> e'))"

text \<open>
  \<open>json.Unmarshal\<close> into a struct: \<open>None\<close> as input is text that does not parse, \<open>None\<close> as
  output an error.
\<close>

definition unmarshal :: "(string \<Rightarrow> rjson \<Rightarrow> 's \<Rightarrow> 's \<times> bool) \<Rightarrow> 's \<Rightarrow> rjson option \<Rightarrow> 's option" where
  "unmarshal field zero raw =
     (case raw of
        None \<Rightarrow> None
      | Some RNull \<Rightarrow> Some zero
      | Some (RObj es) \<Rightarrow> (let (s, e) = decode_entries field es zero in if e then None else Some s)
      | Some _ \<Rightarrow> None)"

section \<open>Error codes\<close>

datatype error_code =
    codeProtocol | codeUnknownTarget | codeUnknownAction | codeUnknownTopic | codeUnknownPreset
  | codeUnknownChannel | codeInvalidTargetKind | codeDeviceUnavailable | codeInternal

fun code_string :: "error_code \<Rightarrow> string" where
  "code_string codeProtocol = ''protocol''"
| "code_string codeUnknownTarget = ''unknown_target''"
| "code_string codeUnknownAction = ''unknown_action''"
| "code_string codeUnknownTopic = ''unknown_topic''"
| "code_string codeUnknownPreset = ''unknown_preset''"
| "code_string codeUnknownChannel = ''unknown_channel''"
| "code_string codeInvalidTargetKind = ''invalid_target_kind''"
| "code_string codeDeviceUnavailable = ''device_unavailable''"
| "code_string codeInternal = ''internal''"

section \<open>Frames a client sends\<close>

record cmd_frame =
  cf_id :: string
  cf_target :: string
  cf_action :: string
  cf_value :: "rjson option"
  cf_camera_id :: string

record subscribe_frame =
  sub_topics :: "string list"

record ping_frame =
  pf_id :: string

record surface_press_frame =
  spf_key :: "int option"
  spf_pressed :: "bool option"

definition decode_envelope :: "rjson option \<Rightarrow> string option" where
  "decode_envelope = unmarshal (\<lambda>k v s. if names_field k ''type'' then into_string v s else (s, False)) ''''"

text \<open>The \<open>type\<close> field of a frame is decoded too, only to be checked for its kind.\<close>

definition skip_type :: "string \<Rightarrow> rjson \<Rightarrow> 's \<Rightarrow> 's \<times> bool" where
  "skip_type k v s = (s, names_field k ''type'' \<and> snd (into_string v ''''))"

definition decode_cmd :: "rjson option \<Rightarrow> cmd_frame option" where
  "decode_cmd = unmarshal
     (\<lambda>k v c.
        if names_field k ''id'' then (let (x, e) = into_string v (cf_id c) in (c\<lparr>cf_id := x\<rparr>, e))
        else if names_field k ''target'' then (let (x, e) = into_string v (cf_target c) in (c\<lparr>cf_target := x\<rparr>, e))
        else if names_field k ''action'' then (let (x, e) = into_string v (cf_action c) in (c\<lparr>cf_action := x\<rparr>, e))
        else if names_field k ''value'' then (c\<lparr>cf_value := Some v\<rparr>, False)
        else if names_field k ''camera_id'' then (let (x, e) = into_string v (cf_camera_id c) in (c\<lparr>cf_camera_id := x\<rparr>, e))
        else skip_type k v c)
     \<lparr>cf_id = '''', cf_target = '''', cf_action = '''', cf_value = None, cf_camera_id = ''''\<rparr>"

definition decode_subscribe :: "rjson option \<Rightarrow> subscribe_frame option" where
  "decode_subscribe = unmarshal
     (\<lambda>k v f.
        if names_field k ''topics'' then (let (x, e) = into_strings v (sub_topics f) in (f\<lparr>sub_topics := x\<rparr>, e))
        else skip_type k v f)
     \<lparr>sub_topics = []\<rparr>"

definition decode_ping :: "rjson option \<Rightarrow> ping_frame option" where
  "decode_ping = unmarshal
     (\<lambda>k v f.
        if names_field k ''id'' then (let (x, e) = into_string v (pf_id f) in (f\<lparr>pf_id := x\<rparr>, e))
        else skip_type k v f)
     \<lparr>pf_id = ''''\<rparr>"

definition decode_surface_press :: "rjson option \<Rightarrow> surface_press_frame option" where
  "decode_surface_press = unmarshal
     (\<lambda>k v f.
        if names_field k ''key'' then (let (x, e) = into_int_ptr v (spf_key f) in (f\<lparr>spf_key := x\<rparr>, e))
        else if names_field k ''pressed'' then (let (x, e) = into_bool_ptr v (spf_pressed f) in (f\<lparr>spf_pressed := x\<rparr>, e))
        else skip_type k v f)
     \<lparr>spf_key = None, spf_pressed = None\<rparr>"

section \<open>Frames the server sends\<close>

text \<open>Error and event messages are free text for people; they are parameters of their frames.\<close>

record surface_layout_frame =
  slf_rows :: int
  slf_cols :: int
  slf_seq :: int
  slf_bitmap_size :: int

record surface_key_frame =
  skf_key :: int
  skf_seq :: int
  skf_row :: int
  skf_col :: int
  skf_key_type :: string
  skf_pressed :: bool
  skf_color :: string
  skf_bitmap :: string

datatype frame =
    HelloFrame string string string
  | StateFrame int "jobj option"
  | StateDeltaFrame int "jobj option"
  | AckFrame string
  | NakFrame string error_code string
  | PongFrame string
  | ErrorFrame error_code string
  | EventFrame string string string
  | SurfaceLayoutFrame surface_layout_frame
  | SurfaceKeyFrame surface_key_frame

text \<open>The object a frame encodes to, with exact integers; a state frame flattens its topics.\<close>

abbreviation jint :: "int \<Rightarrow> json" where
  "jint n \<equiv> JNum (of_int n)"

definition flatten :: "jobj \<Rightarrow> jobj \<Rightarrow> jobj" where
  "flatten out data = fold (\<lambda>(k, v) m. gm_put k v m) data out"

fun frame_json :: "frame \<Rightarrow> jobj" where
  "frame_json (HelloFrame proto version sid) =
     [(''proto'', JStr proto), (''server_id'', JStr sid), (''server_version'', JStr version), (''type'', JStr ''hello'')]"
| "frame_json (StateFrame r data) =
     flatten [(''rev'', jint r), (''type'', JStr ''state'')] (case data of Some m \<Rightarrow> m | None \<Rightarrow> [])"
| "frame_json (StateDeltaFrame r patch) =
     [(''patch'', case patch of Some p \<Rightarrow> JObj p | None \<Rightarrow> JNull), (''rev'', jint r), (''type'', JStr ''state-delta'')]"
| "frame_json (AckFrame i) = [(''id'', JStr i), (''type'', JStr ''ack'')]"
| "frame_json (NakFrame i c msg) =
     [(''error'', JObj [(''code'', JStr (code_string c)), (''message'', JStr msg)]), (''id'', JStr i), (''type'', JStr ''nak'')]"
| "frame_json (PongFrame i) = [(''id'', JStr i), (''type'', JStr ''pong'')]"
| "frame_json (ErrorFrame c msg) = [(''code'', JStr (code_string c)), (''message'', JStr msg), (''type'', JStr ''error'')]"
| "frame_json (EventFrame severity source msg) =
     [(''message'', JStr msg), (''severity'', JStr severity)] @
     (if source = '''' then [] else [(''source'', JStr source)]) @ [(''type'', JStr ''event'')]"
| "frame_json (SurfaceLayoutFrame f) =
     [(''bitmap_size'', jint (slf_bitmap_size f)), (''cols'', jint (slf_cols f)), (''rows'', jint (slf_rows f)),
      (''seq'', jint (slf_seq f)), (''type'', JStr ''surface-layout'')]"
| "frame_json (SurfaceKeyFrame f) =
     (if skf_bitmap f = '''' then [] else [(''bitmap'', JStr (skf_bitmap f))]) @
     [(''col'', jint (skf_col f))] @
     (if skf_color f = '''' then [] else [(''color'', JStr (skf_color f))]) @
     [(''key'', jint (skf_key f)), (''key_type'', JStr (skf_key_type f)), (''pressed'', JBool (skf_pressed f)),
      (''row'', jint (skf_row f)), (''seq'', jint (skf_seq f)), (''type'', JStr ''surface-key'')]"

definition ProtoVersion :: string where
  "ProtoVersion = ''1.1''"

text \<open>A state frame is the state object with its type and revision, when no topic is called so.\<close>

lemma flatten_Cons [simp]: "flatten out ((k, v) # m) = flatten (gm_put k v out) m"
  and flatten_Nil [simp]: "flatten out [] = out"
  by (simp_all add: flatten_def)

lemma flatten_wf: "gm_wf out \<Longrightarrow> gm_wf (flatten out m)"
proof (induction m arbitrary: out)
  case (Cons e m)
  then show ?case by (cases e) simp
qed simp

lemma get_flatten:
  "gm_wf out \<Longrightarrow> gm_wf m \<Longrightarrow> gm_get (flatten out m) k = (case gm_get m k of Some v \<Rightarrow> Some v | None \<Rightarrow> gm_get out k)"
proof (induction m arbitrary: out)
  case (Cons e m)
  obtain a v where e: "e = (a, v)" by (cases e)
  have "gm_get m a = None" "gm_wf m"
    using Cons.prems(2) by (force simp: e gm_wf_Cons map_of_eq_None_iff)+
  with Cons show ?case by (simp add: e gm_get_put split: option.splits)
qed simp

lemma state_frame_get:
  assumes "gm_wf m" "k \<noteq> ''type''" "k \<noteq> ''rev''"
  shows "gm_get (frame_json (StateFrame r (Some m))) k = gm_get m k"
  using assms get_flatten [of "[(''rev'', jint r), (''type'', JStr ''state'')]" m k]
  by (auto simp: gm_wf_Cons split: option.splits)

end
