(* ===== verification/Location.thy ===== *)
theory Location
  imports GoStrings
begin

text \<open>
  \<open>Location\<close> of server/internal/companion/location.go: button coordinates, their parser and
  their printed form, which is also the path of a Companion request.
\<close>

record location =
  Page :: int
  Row :: int
  Column :: int

datatype location_error = NotThreeParts | NotInteger | NegativeComponent | PageBelowOne

fun parse_parts :: "string list \<Rightarrow> (location_error, int list) result" where
  "parse_parts [] = Inr []"
| "parse_parts (p # ps) =
     (case Atoi (TrimSpace p) of
        None \<Rightarrow> Inl NotInteger
      | Some n \<Rightarrow>
          if n < 0 then Inl NegativeComponent
          else (case parse_parts ps of Inl e \<Rightarrow> Inl e | Inr ns \<Rightarrow> Inr (n # ns)))"

definition ParseLocation :: "string \<Rightarrow> (location_error, location) result" where
  "ParseLocation s =
     (let parts = Split s (CHR ''/'') in
      if length parts \<noteq> 3 then Inl NotThreeParts
      else (case parse_parts parts of
              Inl e \<Rightarrow> Inl e
            | Inr nums \<Rightarrow>
                let loc = \<lparr>Page = nums ! 0, Row = nums ! 1, Column = nums ! 2\<rparr> in
                if Page loc < 1 then Inl PageBelowOne else Inr loc))"

definition location_String :: "location \<Rightarrow> string" where
  "location_String l = Itoa (Page l) @ ''/'' @ Itoa (Row l) @ ''/'' @ Itoa (Column l)"

definition location_ok :: "location \<Rightarrow> bool" where
  "location_ok l \<longleftrightarrow> 1 \<le> Page l \<and> 0 \<le> Row l \<and> 0 \<le> Column l \<and>
     in_int64 (Page l) \<and> in_int64 (Row l) \<and> in_int64 (Column l)"

lemma digit_not_edge:
  assumes "48 \<le> byte c \<and> byte c \<le> 57"
  shows "c \<notin> edge_bytes"
proof
  assume "c \<in> edge_bytes"
  then have "byte c \<in> byte ` edge_bytes" by simp
  also have "byte ` edge_bytes \<subseteq> {9 .. 32} \<union> {128 ..< 256}"
    by (auto simp: edge_bytes_def space_seqs_def of_char_of)
  finally show False using assms by auto
qed

lemma TrimSpace_Itoa: "0 \<le> n \<Longrightarrow> TrimSpace (Itoa n) = Itoa n"
  using Itoa_nonneg_digits digit_not_edge by (intro TrimSpace_id) (metis Itoa_not_Nil hd_in_set last_in_set)

lemma slash_notin_Itoa: "0 \<le> n \<Longrightarrow> CHR ''/'' \<notin> set (Itoa n)"
  using Itoa_nonneg_digits [of n "CHR ''/''"] by auto

lemma Split_location:
  assumes "location_ok l"
  shows "Split (location_String l) (CHR ''/'') = [Itoa (Page l), Itoa (Row l), Itoa (Column l)]"
  using assms by (simp add: location_ok_def location_String_def Split_append Split_no_sep slash_notin_Itoa)

lemma ParseLocation_String: "location_ok l \<Longrightarrow> ParseLocation (location_String l) = Inr l"
  by (simp add: ParseLocation_def Split_location Let_def) (auto simp: location_ok_def TrimSpace_Itoa Atoi_Itoa)

lemma parse_parts_ok:
  "parse_parts ps = Inr ns \<Longrightarrow> length ns = length ps \<and> (\<forall>n \<in> set ns. 0 \<le> n \<and> in_int64 n)"
  by (induction ps arbitrary: ns)
     (auto simp: Atoi_def Let_def split: option.splits if_splits sum.splits prod.splits)

lemma ParseLocation_ok:
  assumes "ParseLocation s = Inr l"
  shows "location_ok l"
proof -
  let ?ps = "Split s (CHR ''/'')"
  obtain ns where ns: "parse_parts ?ps = Inr ns" "length ?ps = 3"
    and l: "l = \<lparr>Page = ns ! 0, Row = ns ! 1, Column = ns ! 2\<rparr>" "1 \<le> ns ! 0"
    using assms by (auto simp: ParseLocation_def Let_def split: if_splits sum.splits)
  have "length ns = 3" "\<forall>n \<in> set ns. 0 \<le> n \<and> in_int64 n"
    using parse_parts_ok [OF ns(1)] ns(2) by auto
  then have "0 \<le> ns ! i \<and> in_int64 (ns ! i)" if "i < 3" for i
    using that by (auto simp: nth_mem)
  from this [of 0] this [of 1] this [of 2] l show ?thesis by (simp add: location_ok_def)
qed

section \<open>Properties\<close>

text \<open>
  A coordinate that parses is in range, and its printed form, which is the path a press is
  sent to, parses back to the same button whatever blanks the configured text had.
\<close>
lemma location_roundtrip:
  assumes "ParseLocation s = Inr l"
  shows "location_ok l \<and> ParseLocation (location_String l) = Inr l"
  using ParseLocation_ok [OF assms] ParseLocation_String by blast

lemma location_roundtrip_witness:
  "ParseLocation '' 7/0/2 '' = Inr \<lparr>Page = 7, Row = 0, Column = 2\<rparr> \<and>
   ParseLocation (location_String \<lparr>Page = 7, Row = 0, Column = 2\<rparr>) = Inr \<lparr>Page = 7, Row = 0, Column = 2\<rparr>"
proof -
  have "ParseLocation '' 7/0/2 '' = Inr \<lparr>Page = 7, Row = 0, Column = 2\<rparr>"
    by code_simp
  with location_roundtrip [OF this] show ?thesis by simp
qed

end
