(* ===== verification/Presets.thy ===== *)
theory Presets
  imports Location
begin

text \<open>
  server/internal/config/presets.go: the preset tables, their validation, and the resolution
  of a preset name to an action.
\<close>

section \<open>Data\<close>

text \<open>What a TOML decoder hands an unmarshaler: the cases the code tells apart.\<close>

datatype toml =
    TInt int
  | TFloat float64
  | TStr string
  | TArr "toml list"
  | TOther

record osc_value =
  ov_value :: float64
  ov_set :: bool

definition zero_osc_value :: osc_value where
  "zero_osc_value = \<lparr>ov_value = Fin 0, ov_set = False\<rparr>"

definition OSCValue_UnmarshalTOML :: "toml \<Rightarrow> osc_value \<Rightarrow> (unit, osc_value) result" where
  "OSCValue_UnmarshalTOML data v =
     (case data of
        TInt n \<Rightarrow> Inr (v\<lparr>ov_value := Fin (of_int (float64_of_int n)), ov_set := True\<rparr>)
      | TFloat x \<Rightarrow> Inr (v\<lparr>ov_value := x, ov_set := True\<rparr>)
      | _ \<Rightarrow> Inl ())"

record action_ref =
  CompanionButton :: string
  OSCCommand :: string
  OSCVal :: osc_value

type_synonym action_table = "(string, action_ref) gomap"

record audio_presets =
  Mute :: action_table
  Unmute :: action_table

record presets_config =
  pc_Camera :: "(string, action_table) gomap"
  pc_Scene :: action_table
  pc_Audio :: audio_presets
  pc_Streaming :: action_table
  pc_Recording :: action_table
  pc_Slides :: action_table

record action =
  act_Button :: "location option"
  act_OSCCommand :: string
  act_OSCValue :: float64

definition IsCompanion :: "action \<Rightarrow> bool" where
  "IsCompanion a \<longleftrightarrow> act_Button a \<noteq> None"

section \<open>Validation\<close>

datatype ref_error =
    BothRoutes
  | NoRoute
  | ValueWithoutOSC
  | BadCoordinate location_error
  | BadOSCAddress
  | OSCWithoutValue

definition ActionRef_validate :: "action_ref \<Rightarrow> ref_error option" where
  "ActionRef_validate r =
     (let hasButton = (CompanionButton r \<noteq> ''''); hasOSC = (OSCCommand r \<noteq> '''') in
      if hasButton \<and> hasOSC then Some BothRoutes
      else if \<not> hasButton \<and> \<not> hasOSC then Some NoRoute
      else if hasButton then
        (if ov_set (OSCVal r) then Some ValueWithoutOSC
         else (case ParseLocation (CompanionButton r) of Inl e \<Rightarrow> Some (BadCoordinate e) | Inr _ \<Rightarrow> None))
      else if \<not> HasPrefix (OSCCommand r) ''/'' then Some BadOSCAddress
      else if \<not> ov_set (OSCVal r) then Some OSCWithoutValue
      else None)"

datatype presets_error =
    EntryError string string ref_error
  | UnknownVerb string string

text \<open>The range over a table: the first failing entry.\<close>

fun validate_table :: "string \<Rightarrow> action_table \<Rightarrow> presets_error option" where
  "validate_table section [] = None"
| "validate_table section ((name, ref) # m) =
     (case ActionRef_validate ref of
        Some e \<Rightarrow> Some (EntryError section name e)
      | None \<Rightarrow> validate_table section m)"

fun validate_cameras :: "(string, action_table) gomap \<Rightarrow> presets_error option" where
  "validate_cameras [] = None"
| "validate_cameras ((cam, names) # m) =
     (case validate_table (''camera.'' @ cam) names of Some e \<Rightarrow> Some e | None \<Rightarrow> validate_cameras m)"

fun validate_verbs :: "string \<Rightarrow> string list \<Rightarrow> action_table \<Rightarrow> presets_error option" where
  "validate_verbs section allowed [] = None"
| "validate_verbs section allowed ((name, ref) # m) =
     (if name \<notin> set allowed then Some (UnknownVerb section name)
      else (case ActionRef_validate ref of
              Some e \<Rightarrow> Some (EntryError section name e)
            | None \<Rightarrow> validate_verbs section allowed m))"

text \<open>\<open>first_error\<close> is the chain of \<open>if err != nil { return err }\<close>.\<close>

fun first_error :: "'e option list \<Rightarrow> 'e option" where
  "first_error [] = None"
| "first_error (Some e # es) = Some e"
| "first_error (None # es) = first_error es"

lemma first_error_None: "first_error es = None \<longleftrightarrow> (\<forall>e \<in> set es. e = None)"
  by (induction es rule: first_error.induct) auto

definition Presets_validate :: "presets_config \<Rightarrow> presets_error option" where
  "Presets_validate p = first_error
     [validate_cameras (pc_Camera p),
      validate_table ''scene'' (pc_Scene p),
      validate_table ''audio.mute'' (Mute (pc_Audio p)),
      validate_table ''audio.unmute'' (Unmute (pc_Audio p)),
      validate_verbs ''streaming'' [''start'', ''stop''] (pc_Streaming p),
      validate_verbs ''recording'' [''start'', ''stop''] (pc_Recording p),
      validate_verbs ''slides'' [''next'', ''prev''] (pc_Slides p)]"

section \<open>Resolution\<close>

datatype resolve_error = ErrUnknownPreset | ErrBadButton location_error

definition resolve :: "action_ref \<Rightarrow> (resolve_error, action) result" where
  "resolve r =
     (if CompanionButton r \<noteq> ''''
      then (case ParseLocation (CompanionButton r) of
              Inl e \<Rightarrow> Inl (ErrBadButton e)
            | Inr loc \<Rightarrow> Inr \<lparr>act_Button = Some loc, act_OSCCommand = '''', act_OSCValue = Fin 0\<rparr>)
      else Inr \<lparr>act_Button = None, act_OSCCommand = OSCCommand r, act_OSCValue = ov_value (OSCVal r)\<rparr>)"

definition resolveNamed :: "action_table \<Rightarrow> string \<Rightarrow> (resolve_error, action) result" where
  "resolveNamed m name = (case gm_get m name of None \<Rightarrow> Inl ErrUnknownPreset | Some ref \<Rightarrow> resolve ref)"

definition ResolveCameraPreset :: "presets_config \<Rightarrow> string \<Rightarrow> string \<Rightarrow> (resolve_error, action) result" where
  "ResolveCameraPreset p cameraID name =
     (case gm_get (pc_Camera p) cameraID of
        None \<Rightarrow> Inl ErrUnknownPreset
      | Some names \<Rightarrow> (case gm_get names name of None \<Rightarrow> Inl ErrUnknownPreset | Some ref \<Rightarrow> resolve ref))"

definition ResolveScene where "ResolveScene p = resolveNamed (pc_Scene p)"
definition ResolveAudioMute where "ResolveAudioMute p = resolveNamed (Mute (pc_Audio p))"
definition ResolveAudioUnmute where "ResolveAudioUnmute p = resolveNamed (Unmute (pc_Audio p))"
definition ResolveStreaming where "ResolveStreaming p = resolveNamed (pc_Streaming p)"
definition ResolveRecording where "ResolveRecording p = resolveNamed (pc_Recording p)"
definition ResolveSlides where "ResolveSlides p = resolveNamed (pc_Slides p)"

lemmas resolve_defs = ResolveScene_def ResolveAudioMute_def ResolveAudioUnmute_def
  ResolveStreaming_def ResolveRecording_def ResolveSlides_def

section \<open>What validation gives\<close>

text \<open>A resolved action is usable: it presses an existing location or sends an OSC address.\<close>

definition action_ok :: "action \<Rightarrow> bool" where
  "action_ok a \<longleftrightarrow>
     (case act_Button a of
        Some loc \<Rightarrow> location_ok loc
      | None \<Rightarrow> HasPrefix (act_OSCCommand a) ''/'')"

lemma resolve_validated:
  assumes "ActionRef_validate r = None"
  obtains a where "resolve r = Inr a" "action_ok a"
  using assms ParseLocation_ok [of "CompanionButton r"]
  by (cases "ParseLocation (CompanionButton r)")
     (auto simp: ActionRef_validate_def resolve_def action_ok_def Let_def split: if_splits)

lemma validate_table_None: "validate_table sec m = None \<longleftrightarrow> (\<forall>e \<in> set m. ActionRef_validate (snd e) = None)"
  by (induction sec m rule: validate_table.induct) (auto split: option.splits)

lemma validate_verbs_None:
  "validate_verbs sec allowed m = None \<longleftrightarrow> (\<forall>e \<in> set m. fst e \<in> set allowed \<and> ActionRef_validate (snd e) = None)"
  by (induction sec allowed m rule: validate_verbs.induct) (auto split: option.splits if_splits)

lemma validate_cameras_None:
  "validate_cameras m = None \<longleftrightarrow> (\<forall>c \<in> set m. \<forall>e \<in> set (snd c). ActionRef_validate (snd e) = None)"
proof (induction m rule: validate_cameras.induct)
  case (2 cam names m)
  then show ?case
    using validate_table_None [of "''camera.'' @ cam" names]
    by (cases "validate_table (''camera.'' @ cam) names") auto
qed simp

text \<open>A table whose entries validate resolves every name it has and rejects every other one.\<close>

definition resolves :: "(resolve_error, action) result \<Rightarrow> bool" where
  "resolves r \<longleftrightarrow> (case r of Inr a \<Rightarrow> action_ok a | Inl e \<Rightarrow> e = ErrUnknownPreset)"

lemma resolveNamed_ok:
  assumes "\<forall>e \<in> set m. ActionRef_validate (snd e) = None"
  shows "resolves (resolveNamed m name)" and "(\<exists>a. resolveNamed m name = Inr a) \<longleftrightarrow> gm_get m name \<noteq> None"
proof -
  have "resolves (resolveNamed m name) \<and> ((\<exists>a. resolveNamed m name = Inr a) \<longleftrightarrow> gm_get m name \<noteq> None)"
  proof (cases "gm_get m name")
    case None
    then show ?thesis by (simp add: resolveNamed_def resolves_def)
  next
    case (Some ref)
    then have "ActionRef_validate ref = None" using assms by (force dest: map_of_SomeD)
    then obtain a where "resolve ref = Inr a" "action_ok a" by (rule resolve_validated)
    with Some show ?thesis by (simp add: resolveNamed_def resolves_def)
  qed
  then show "resolves (resolveNamed m name)" "(\<exists>a. resolveNamed m name = Inr a) \<longleftrightarrow> gm_get m name \<noteq> None"
    by blast+
qed

lemma Presets_validated:
  assumes "Presets_validate p = None"
  shows "resolves (ResolveCameraPreset p cam name)" "resolves (ResolveScene p name)"
    "resolves (ResolveAudioMute p name)" "resolves (ResolveAudioUnmute p name)"
    "resolves (ResolveStreaming p name)" "resolves (ResolveRecording p name)" "resolves (ResolveSlides p name)"
proof -
  have v: "\<forall>c \<in> set (pc_Camera p). \<forall>e \<in> set (snd c). ActionRef_validate (snd e) = None"
    "\<forall>e \<in> set (pc_Scene p). ActionRef_validate (snd e) = None"
    "\<forall>e \<in> set (Mute (pc_Audio p)). ActionRef_validate (snd e) = None"
    "\<forall>e \<in> set (Unmute (pc_Audio p)). ActionRef_validate (snd e) = None"
    "\<forall>e \<in> set (pc_Streaming p). ActionRef_validate (snd e) = None"
    "\<forall>e \<in> set (pc_Recording p). ActionRef_validate (snd e) = None"
    "\<forall>e \<in> set (pc_Slides p). ActionRef_validate (snd e) = None"
    using assms
    unfolding Presets_validate_def first_error_None
    by (simp_all add: validate_table_None validate_verbs_None validate_cameras_None)
  show "resolves (ResolveScene p name)" "resolves (ResolveAudioMute p name)" "resolves (ResolveAudioUnmute p name)"
    "resolves (ResolveStreaming p name)" "resolves (ResolveRecording p name)" "resolves (ResolveSlides p name)"
    unfolding resolve_defs using v by (simp_all add: resolveNamed_ok(1))
  show "resolves (ResolveCameraPreset p cam name)"
  proof (cases "gm_get (pc_Camera p) cam")
    case None
    then show ?thesis by (simp add: ResolveCameraPreset_def resolves_def)
  next
    case (Some names)
    then have "\<forall>e \<in> set names. ActionRef_validate (snd e) = None"
      using v(1) map_of_SomeD [OF Some] by force
    then show ?thesis
      using resolveNamed_ok(1) [of names name] Some by (simp add: ResolveCameraPreset_def resolveNamed_def)
  qed
qed

end
