(* ===== verification/Config.thy ===== *)
theory Config
  imports Presets
begin

text \<open>
  server/internal/config/config.go: the configuration, its defaults, \<open>Load\<close> and the
  validation of every section.  The URL parser, the TOML decoder, the file system's path
  functions and the environment are parameters.
\<close>

section \<open>Data\<close>

record server_config =
  Listen :: string

record satellite_section =
  ss_Addr :: string
  ss_DeviceID :: string
  ss_Rows :: int
  ss_Cols :: int
  ss_BitmapSize :: int

record companion_config =
  BaseURL :: string
  Satellite_section :: satellite_section

type_synonym url_list = "string list"

record chat_config =
  Provider :: string
  ClientID :: string
  ClientSecret :: string
  PublicURL :: url_list
  TokenFile :: string

record config =
  cfg_Server :: server_config
  cfg_Companion :: companion_config
  cfg_Chat :: chat_config
  cfg_Presets :: presets_config

text \<open>What \<open>url.Parse\<close> returns, as far as it is read; \<open>None\<close> is a parse error.\<close>

record url =
  url_Scheme :: string
  url_Host :: string
  url_Path :: string

type_synonym url_parser = "string \<Rightarrow> url option"

section \<open>URLList\<close>

fun string_items :: "toml list \<Rightarrow> string list option" where
  "string_items [] = Some []"
| "string_items (TStr s # xs) = map_option (\<lambda>ss. s # ss) (string_items xs)"
| "string_items (_ # xs) = None"

definition URLList_UnmarshalTOML :: "toml \<Rightarrow> (unit, url_list) result" where
  "URLList_UnmarshalTOML v =
     (case v of
        TStr s \<Rightarrow> Inr [s]
      | TArr xs \<Rightarrow> (case string_items xs of Some ss \<Rightarrow> Inr ss | None \<Rightarrow> Inl ())
      | _ \<Rightarrow> Inl ())"

definition Primary :: "url_list \<Rightarrow> string" where
  "Primary l = (case l of [] \<Rightarrow> '''' | u # _ \<Rightarrow> TrimRight u (CHR ''/''))"

fun Hosts :: "url_parser \<Rightarrow> url_list \<Rightarrow> string list" where
  "Hosts parse [] = []"
| "Hosts parse (raw # l) =
     (case parse (TrimRight raw (CHR ''/'')) of
        None \<Rightarrow> Hosts parse l
      | Some u \<Rightarrow> if url_Host u = '''' then Hosts parse l else url_Host u # Hosts parse l)"

definition ChatCallbackPath :: string where
  "ChatCallbackPath = ''/chat/auth/callback''"

definition RedirectURI :: "chat_config \<Rightarrow> string" where
  "RedirectURI c = Primary (PublicURL c) @ ChatCallbackPath"

section \<open>Sections turned off\<close>

definition ChatConfig_Disabled :: "chat_config \<Rightarrow> bool" where
  "ChatConfig_Disabled c \<longleftrightarrow> ToLower (TrimSpace (Provider c)) \<in> {'''', ''off'', ''disabled'', ''none''}"

definition SatelliteConfig_Disabled :: "satellite_section \<Rightarrow> bool" where
  "SatelliteConfig_Disabled s \<longleftrightarrow> ToLower (TrimSpace (ss_Addr s)) \<in> {''off'', ''disabled'', ''none''}"

section \<open>Validation\<close>

datatype config_error =
    NoListen | NoBaseURL
  | BadDeviceID | NegativeGrid | TooManyKeys | SmallBitmap | LargeBitmap
  | UnsupportedProvider | NoClientID | NoClientSecret | NoPublicURL
  | EmptyURL | InvalidURL | NotAbsoluteHTTP | URLWithPath
  | PresetsError presets_error

definition maxSatelliteKeys :: int where
  "maxSatelliteKeys = 256"

definition maxSatelliteBitmapSize :: int where
  "maxSatelliteBitmapSize = 256"

text \<open>The characters of \<open>" \\t\\r\\n\\"="\<close>.\<close>

definition device_id_forbidden :: string where
  "device_id_forbidden = [CHR 0x20, CHR 0x09, CHR 0x0D, CHR 0x0A, CHR 0x22, CHR ''='']"

definition SatelliteConfig_validate :: "satellite_section \<Rightarrow> config_error option" where
  "SatelliteConfig_validate s =
     (if SatelliteConfig_Disabled s then None
      else if ContainsAny (ss_DeviceID s) device_id_forbidden then Some BadDeviceID
      else if ss_Rows s < 0 \<or> ss_Cols s < 0 then Some NegativeGrid
      else if ss_Rows s > maxSatelliteKeys \<or> ss_Cols s > maxSatelliteKeys \<or>
              wrap64 (ss_Rows s * ss_Cols s) > maxSatelliteKeys then Some TooManyKeys
      else if ss_BitmapSize s < 0 \<or> (ss_BitmapSize s > 0 \<and> ss_BitmapSize s < 5) then Some SmallBitmap
      else if ss_BitmapSize s > maxSatelliteBitmapSize then Some LargeBitmap
      else None)"

fun validate_urls :: "url_parser \<Rightarrow> url_list \<Rightarrow> config_error option" where
  "validate_urls parse [] = None"
| "validate_urls parse (raw # l) =
     (if raw = '''' then Some EmptyURL
      else (case parse (TrimRight raw (CHR ''/'')) of
              None \<Rightarrow> Some InvalidURL
            | Some u \<Rightarrow>
                if (url_Scheme u \<noteq> ''http'' \<and> url_Scheme u \<noteq> ''https'') \<or> url_Host u = '''' then Some NotAbsoluteHTTP
                else if url_Path u \<noteq> '''' then Some URLWithPath
                else validate_urls parse l))"

definition ChatConfig_validate :: "url_parser \<Rightarrow> chat_config \<Rightarrow> config_error option" where
  "ChatConfig_validate parse c =
     (if ChatConfig_Disabled c then None
      else if ToLower (TrimSpace (Provider c)) \<noteq> ''restream'' then Some UnsupportedProvider
      else if ClientID c = '''' then Some NoClientID
      else if ClientSecret c = '''' then Some NoClientSecret
      else if length (PublicURL c) = 0 then Some NoPublicURL
      else validate_urls parse (PublicURL c))"

definition Config_validate :: "url_parser \<Rightarrow> config \<Rightarrow> config_error option" where
  "Config_validate parse c =
     (if Listen (cfg_Server c) = '''' then Some NoListen
      else if BaseURL (cfg_Companion c) = '''' then Some NoBaseURL
      else first_error
        [SatelliteConfig_validate (Satellite_section (cfg_Companion c)),
         ChatConfig_validate parse (cfg_Chat c),
         map_option PresetsError (Presets_validate (cfg_Presets c))])"

section \<open>Loading\<close>

definition config_defaults :: config where
  "config_defaults =
     \<lparr>cfg_Server = \<lparr>Listen = ''0.0.0.0:7878''\<rparr>,
      cfg_Companion = \<lparr>BaseURL = ''http://localhost:8000'',
        Satellite_section = \<lparr>ss_Addr = ''localhost:16622'', ss_DeviceID = ''cuebooth'',
          ss_Rows = 4, ss_Cols = 8, ss_BitmapSize = 72\<rparr>\<rparr>,
      cfg_Chat = \<lparr>Provider = '''', ClientID = '''', ClientSecret = '''', PublicURL = [], TokenFile = ''chat-token.json''\<rparr>,
      cfg_Presets = \<lparr>pc_Camera = [], pc_Scene = [], pc_Audio = \<lparr>Mute = [], Unmute = []\<rparr>,
        pc_Streaming = [], pc_Recording = [], pc_Slides = []\<rparr>\<rparr>"

definition decodedTables :: "string set" where
  "decodedTables = {''server'', ''companion'', ''chat'', ''presets''}"

definition warnableKey :: "string list \<Rightarrow> bool" where
  "warnableKey key \<longleftrightarrow> (if length key \<le> 1 then True else key ! 0 \<in> decodedTables)"

definition ChatSecretEnv :: string where
  "ChatSecretEnv = ''CUEBOOTH_CHAT_CLIENT_SECRET''"

datatype load_error = ReadError | ParseError | InvalidConfig config_error

text \<open>What \<open>Load\<close> calls: the file, the decoder with its undecoded keys, the environment, and \<open>path/filepath\<close>.\<close>

record load_env =
  le_ReadFile :: "string \<Rightarrow> string option"
  le_Decode :: "string \<Rightarrow> config \<Rightarrow> (config \<times> string list list) option"
  le_Getenv :: "string \<Rightarrow> string"
  le_IsAbs :: "string \<Rightarrow> bool"
  le_Dir :: "string \<Rightarrow> string"
  le_PathJoin :: "string \<Rightarrow> string \<Rightarrow> string"
  le_ParseURL :: url_parser

text \<open>The second component is the keys warned about.\<close>

definition Load :: "load_env \<Rightarrow> string \<Rightarrow> (load_error, config) result \<times> string list list" where
  "Load env path =
     (case le_ReadFile env path of
        None \<Rightarrow> (Inl ReadError, [])
      | Some contents \<Rightarrow>
          (case le_Decode env contents config_defaults of
             None \<Rightarrow> (Inl ParseError, [])
           | Some (cfg, undecoded) \<Rightarrow>
               let chat = cfg_Chat cfg;
                   chat1 = (if ClientSecret chat = '''' then chat\<lparr>ClientSecret := le_Getenv env ChatSecretEnv\<rparr> else chat);
                   tf = TokenFile chat1;
                   chat2 = (if tf \<noteq> '''' \<and> \<not> le_IsAbs env tf
                            then chat1\<lparr>TokenFile := le_PathJoin env (le_Dir env path) tf\<rparr> else chat1);
                   cfg' = cfg\<lparr>cfg_Chat := chat2\<rparr>;
                   warned = filter warnableKey undecoded
               in (case Config_validate (le_ParseURL env) cfg' of
                     Some e \<Rightarrow> (Inl (InvalidConfig e), warned)
                   | None \<Rightarrow> (Inr cfg', warned))))"

section \<open>What validation gives\<close>

lemma Config_validated:
  assumes "Config_validate parse c = None"
  shows "SatelliteConfig_validate (Satellite_section (cfg_Companion c)) = None"
    "ChatConfig_validate parse (cfg_Chat c) = None" "Presets_validate (cfg_Presets c) = None"
  using assms by (auto simp: Config_validate_def first_error_None split: if_splits)

lemma validate_urls_Hosts:
  "validate_urls parse l = None \<Longrightarrow>
     Hosts parse l = map (\<lambda>raw. url_Host (the (parse (TrimRight raw (CHR ''/''))))) l \<and> '''' \<notin> set (Hosts parse l)"
  by (induction l) (auto split: if_splits option.splits)

lemma SatelliteConfig_validated:
  assumes "SatelliteConfig_validate s = None" "\<not> SatelliteConfig_Disabled s"
  shows "0 \<le> ss_Rows s \<and> ss_Rows s \<le> maxSatelliteKeys \<and> 0 \<le> ss_Cols s \<and> ss_Cols s \<le> maxSatelliteKeys \<and>
    ss_Rows s * ss_Cols s \<le> maxSatelliteKeys \<and>
    (ss_BitmapSize s = 0 \<or> 5 \<le> ss_BitmapSize s \<and> ss_BitmapSize s \<le> maxSatelliteBitmapSize) \<and>
    set (ss_DeviceID s) \<inter> set device_id_forbidden = {}"
proof -
  have b: "0 \<le> ss_Rows s" "ss_Rows s \<le> 256" "0 \<le> ss_Cols s" "ss_Cols s \<le> 256" "wrap64 (ss_Rows s * ss_Cols s) \<le> 256"
    using assms by (auto simp: SatelliteConfig_validate_def maxSatelliteKeys_def split: if_splits)
  have "ss_Rows s * ss_Cols s \<le> 256 * 256" using b by (intro mult_mono) auto
  then have "wrap64 (ss_Rows s * ss_Cols s) = ss_Rows s * ss_Cols s"
    using b by (intro wrap64_id) (auto simp: in_int64_def minInt64_def maxInt64_def intro: order_trans [OF _ mult_nonneg_nonneg])
  with b show ?thesis
    using assms by (auto simp: SatelliteConfig_validate_def maxSatelliteKeys_def ContainsAny_def split: if_splits)
qed

section \<open>Properties\<close>

text \<open>
  An enabled surface that passes validation has at most 256 keys, counted without
  wrap-around, a bitmap size Companion does not coerce, and a device id that is one unquoted
  token; the check of each dimension is what keeps the 64-bit product from wrapping into a
  small count.
\<close>
lemma surface_validated:
  assumes "Config_validate parse c = None" and "s = Satellite_section (cfg_Companion c)"
    and "\<not> SatelliteConfig_Disabled s"
  shows "0 \<le> ss_Rows s \<and> 0 \<le> ss_Cols s \<and> ss_Rows s * ss_Cols s \<le> maxSatelliteKeys \<and>
    (ss_BitmapSize s = 0 \<or> 5 \<le> ss_BitmapSize s \<and> ss_BitmapSize s \<le> maxSatelliteBitmapSize) \<and>
    set (ss_DeviceID s) \<inter> {CHR 0x20, CHR 0x09, CHR 0x0D, CHR 0x0A, CHR 0x22, CHR ''=''} = {}"
  using SatelliteConfig_validated [of s] Config_validated(1) [OF assms(1)] assms(2,3)
  by (auto simp: device_id_forbidden_def)

lemma config_defaults_valid: "Config_validate parse config_defaults = None"
  by (simp add: Config_validate_def config_defaults_def SatelliteConfig_validate_def SatelliteConfig_Disabled_def
      ChatConfig_validate_def ChatConfig_Disabled_def Presets_validate_def maxSatelliteKeys_def maxSatelliteBitmapSize_def
      ContainsAny_def device_id_forbidden_def TrimSpace_def strip_all.simps space_seqs_def wrap64_def)

lemma surface_validated_witness:
  "ss_Rows (Satellite_section (cfg_Companion config_defaults)) *
   ss_Cols (Satellite_section (cfg_Companion config_defaults)) \<le> maxSatelliteKeys"
proof -
  have "\<not> SatelliteConfig_Disabled (Satellite_section (cfg_Companion config_defaults))"
    by (simp add: config_defaults_def SatelliteConfig_Disabled_def TrimSpace_def strip_all.simps space_seqs_def ascii_lower_def)
  from surface_validated [OF config_defaults_valid refl this] show ?thesis by blast
qed

text \<open>
  With chat enabled, a validated configuration names the one supported provider and has its
  credentials, every \<open>public_url\<close> yields a host (none is dropped from the addresses chat
  answers on), and the OAuth redirect is the callback route on the first of them.
\<close>
lemma chat_validated:
  assumes "Config_validate parse c = None" and "ch = cfg_Chat c" and "\<not> ChatConfig_Disabled ch"
  shows "ToLower (TrimSpace (Provider ch)) = ''restream'' \<and> ClientID ch \<noteq> '''' \<and> ClientSecret ch \<noteq> '''' \<and>
    length (Hosts parse (PublicURL ch)) = length (PublicURL ch) \<and> Hosts parse (PublicURL ch) \<noteq> [] \<and>
    '''' \<notin> set (Hosts parse (PublicURL ch)) \<and>
    RedirectURI ch = TrimRight (hd (PublicURL ch)) (CHR ''/'') @ ChatCallbackPath"
proof -
  have v: "ChatConfig_validate parse ch = None" using Config_validated(2) [OF assms(1)] assms(2) by simp
  then have "validate_urls parse (PublicURL ch) = None" "PublicURL ch \<noteq> []"
    using assms(3) by (auto simp: ChatConfig_validate_def split: if_splits)
  then show ?thesis
    using v assms(3) validate_urls_Hosts [of parse "PublicURL ch"]
    by (auto simp: ChatConfig_validate_def RedirectURI_def Primary_def split: if_splits list.splits)
qed

definition witness_chat :: config where
  "witness_chat = config_defaults\<lparr>cfg_Chat := \<lparr>Provider = ''Restream'', ClientID = ''id'', ClientSecret = ''s'',
     PublicURL = [''http://booth:7878/''], TokenFile = ''t''\<rparr>\<rparr>"

definition witness_parse :: url_parser where
  "witness_parse s = Some \<lparr>url_Scheme = ''http'', url_Host = drop 7 s, url_Path = ''''\<rparr>"

lemma chat_validated_witness:
  "RedirectURI (cfg_Chat witness_chat) = ''http://booth:7878/chat/auth/callback''"
proof -
  have on: "\<not> ChatConfig_Disabled (cfg_Chat witness_chat)" by code_simp
  have "ChatConfig_validate witness_parse (cfg_Chat witness_chat) = None"
    by code_simp
  moreover have "Config_validate witness_parse config_defaults = None" by (rule config_defaults_valid)
  ultimately have "Config_validate witness_parse witness_chat = None"
    by (auto simp: Config_validate_def witness_chat_def first_error_None split: if_splits)
  from chat_validated [OF this refl on] show ?thesis
    by (simp add: witness_chat_def TrimRight_def ChatCallbackPath_def)
qed

end
