(* ===== verification/Dispatch.thy ===== *)
theory Dispatch
  imports Protocol Config StateModel
begin

text \<open>
  \<open>companionDispatcher\<close> of server/internal/api/dispatch.go.  The Companion client behind it is
  I/O: \<open>press_ok\<close> says which presses succeed, and every press made is part of the result.
\<close>

type_synonym mutator = "state \<Rightarrow> state"

text \<open>The presses made, and either the nak's code or the mutator of the ack (\<open>None\<close> is nil).\<close>

type_synonym dispatched = "location list \<times> (error_code, mutator option) result"

definition nakErr :: "error_code \<Rightarrow> dispatched" where
  "nakErr code = ([], Inl code)"

definition defaultCameraID :: string where
  "defaultCameraID = ''main''"

definition valueString :: "rjson option \<Rightarrow> string option" where
  "valueString raw =
     (case raw of
        None \<Rightarrow> None
      | Some v \<Rightarrow> (let (s, e) = into_string v '''' in if e then None else Some s))"

definition resolveErr :: "resolve_error \<Rightarrow> dispatched" where
  "resolveErr e = (case e of ErrUnknownPreset \<Rightarrow> nakErr codeUnknownPreset | ErrBadButton _ \<Rightarrow> nakErr codeInternal)"

definition press :: "(location \<Rightarrow> bool) \<Rightarrow> action \<Rightarrow> location list \<times> error_code option" where
  "press press_ok act =
     (case act_Button act of
        None \<Rightarrow> ([], Some codeDeviceUnavailable)
      | Some loc \<Rightarrow> ([loc], if press_ok loc then None else Some codeDeviceUnavailable))"

text \<open>A resolution followed by a press: what every acting command ends with.\<close>

definition press_resolved ::
    "(location \<Rightarrow> bool) \<Rightarrow> (resolve_error \<Rightarrow> dispatched) \<Rightarrow> (resolve_error, action) result \<Rightarrow> mutator option \<Rightarrow> dispatched" where
  "press_resolved press_ok on_err r mutate =
     (case r of
        Inl e \<Rightarrow> on_err e
      | Inr act \<Rightarrow>
          (case press press_ok act of
             (ps, Some code) \<Rightarrow> (ps, Inl code)
           | (ps, None) \<Rightarrow> (ps, Inr mutate)))"

definition dispatch_camera :: "config \<Rightarrow> (location \<Rightarrow> bool) \<Rightarrow> cmd_frame \<Rightarrow> dispatched" where
  "dispatch_camera cfg press_ok c =
     (if cf_action c \<in> {''position'', ''pan_tilt'', ''zoom''} then nakErr codeDeviceUnavailable
      else if cf_action c \<noteq> ''preset'' then nakErr codeUnknownAction
      else (case valueString (cf_value c) of
              None \<Rightarrow> nakErr codeProtocol
            | Some name \<Rightarrow>
                let camID = (if cf_camera_id c = '''' then defaultCameraID else cf_camera_id c)
                in press_resolved press_ok resolveErr (ResolveCameraPreset (cfg_Presets cfg) camID name)
                     (Some (recall_preset camID name))))"

definition dispatch_scene :: "config \<Rightarrow> (location \<Rightarrow> bool) \<Rightarrow> cmd_frame \<Rightarrow> dispatched" where
  "dispatch_scene cfg press_ok c =
     (if cf_action c \<noteq> ''set'' then nakErr codeUnknownAction
      else (case valueString (cf_value c) of
              None \<Rightarrow> nakErr codeProtocol
            | Some name \<Rightarrow>
                press_resolved press_ok resolveErr (ResolveScene (cfg_Presets cfg) name)
                  (Some (assign_obs (\<lambda>b. b\<lparr>obs_scene := name\<rparr>)))))"

text \<open>The \<open>{id, mute}\<close> value of \<open>set_mute\<close>.\<close>

record mute_value =
  mv_id :: string
  mv_mute :: "bool option"

definition decode_mute :: "rjson option \<Rightarrow> mute_value option" where
  "decode_mute = unmarshal
     (\<lambda>k v m.
        if names_field k ''id'' then (let (x, e) = into_string v (mv_id m) in (m\<lparr>mv_id := x\<rparr>, e))
        else if names_field k ''mute'' then (let (x, e) = into_bool_ptr v (mv_mute m) in (m\<lparr>mv_mute := x\<rparr>, e))
        else (m, False))
     \<lparr>mv_id = '''', mv_mute = None\<rparr>"

definition dispatch_audio :: "config \<Rightarrow> (location \<Rightarrow> bool) \<Rightarrow> cmd_frame \<Rightarrow> dispatched" where
  "dispatch_audio cfg press_ok c =
     (if cf_action c \<in> {''set_fader'', ''set_gain'', ''apply_profile'', ''dca_member''} then nakErr codeDeviceUnavailable
      else if cf_action c \<noteq> ''set_mute'' then nakErr codeUnknownAction
      else (case decode_mute (cf_value c) of
              None \<Rightarrow> nakErr codeProtocol
            | Some v \<Rightarrow>
                (case mv_mute v of
                   None \<Rightarrow> nakErr codeProtocol
                 | Some mute \<Rightarrow>
                     if mv_id v = '''' then nakErr codeProtocol
                     else press_resolved press_ok
                       (\<lambda>e. if e = ErrUnknownPreset then nakErr codeUnknownChannel else resolveErr e)
                       (if mute then ResolveAudioMute (cfg_Presets cfg) (mv_id v)
                        else ResolveAudioUnmute (cfg_Presets cfg) (mv_id v))
                       None)))"

definition streamingOrRecording :: "config \<Rightarrow> (location \<Rightarrow> bool) \<Rightarrow> cmd_frame \<Rightarrow> bool \<Rightarrow> dispatched" where
  "streamingOrRecording cfg press_ok c recording =
     (if cf_action c \<noteq> ''start'' \<and> cf_action c \<noteq> ''stop'' then nakErr codeUnknownAction
      else let on = (cf_action c = ''start'') in
        press_resolved press_ok resolveErr
          (if recording then ResolveRecording (cfg_Presets cfg) (cf_action c)
           else ResolveStreaming (cfg_Presets cfg) (cf_action c))
          (Some (assign_obs (\<lambda>b. if recording then b\<lparr>obs_recording := on\<rparr> else b\<lparr>obs_streaming := on\<rparr>))))"

definition dispatch_slides :: "config \<Rightarrow> (location \<Rightarrow> bool) \<Rightarrow> cmd_frame \<Rightarrow> dispatched" where
  "dispatch_slides cfg press_ok c =
     (if cf_action c \<in> {''next'', ''prev''}
      then press_resolved press_ok resolveErr (ResolveSlides (cfg_Presets cfg) (cf_action c)) None
      else if cf_action c \<in> {''confirm_pending'', ''cancel_pending''} then ([], Inr None)
      else nakErr codeUnknownAction)"

definition Dispatch :: "config \<Rightarrow> (location \<Rightarrow> bool) \<Rightarrow> cmd_frame \<Rightarrow> dispatched" where
  "Dispatch cfg press_ok c =
     (if cf_target c = ''camera'' then dispatch_camera cfg press_ok c
      else if cf_target c = ''scene'' then dispatch_scene cfg press_ok c
      else if cf_target c = ''audio'' then dispatch_audio cfg press_ok c
      else if cf_target c = ''streaming'' then streamingOrRecording cfg press_ok c False
      else if cf_target c = ''recording'' then streamingOrRecording cfg press_ok c True
      else if cf_target c = ''slides'' then dispatch_slides cfg press_ok c
      else if cf_target c \<in> {''power'', ''automation''} then nakErr codeDeviceUnavailable
      else nakErr codeUnknownTarget)"

section \<open>What a dispatch may do\<close>

text \<open>
  The contract of a handler under a validated configuration: no internal error; at most one
  press, of a real location; a press that went out decides between the ack and
  \<open>device_unavailable\<close>; every other rejection comes before any press; and the mutator of an ack
  keeps the state well formed.
\<close>

definition dispatch_ok :: "(location \<Rightarrow> bool) \<Rightarrow> dispatched \<Rightarrow> bool" where
  "dispatch_ok press_ok d \<longleftrightarrow>
     snd d \<noteq> Inl codeInternal \<and>
     (case fst d of
        [] \<Rightarrow> True
      | [loc] \<Rightarrow> location_ok loc \<and>
          (if press_ok loc then \<exists>m. snd d = Inr m else snd d = Inl codeDeviceUnavailable)
      | _ \<Rightarrow> False) \<and>
     (\<forall>f s. snd d = Inr (Some f) \<longrightarrow> state_ok s \<longrightarrow> state_ok (f s))"

lemma nakErr_ok: "code \<noteq> codeInternal \<Longrightarrow> dispatch_ok press_ok (nakErr code)"
  by (simp add: dispatch_ok_def nakErr_def)

lemma press_resolved_ok:
  assumes "resolves r" and "dispatch_ok press_ok (on_err ErrUnknownPreset)"
    and "\<And>f s. mutate = Some f \<Longrightarrow> state_ok s \<Longrightarrow> state_ok (f s)"
  shows "dispatch_ok press_ok (press_resolved press_ok on_err r mutate)"
proof (cases r)
  case (Inr act)
  with assms(1) have "action_ok act" by (simp add: resolves_def)
  with Inr assms(3) show ?thesis
    by (auto simp: press_resolved_def press_def dispatch_ok_def action_ok_def split: option.splits)
qed (use assms in \<open>simp add: press_resolved_def resolves_def\<close>)

lemma resolveErr_ok: "dispatch_ok press_ok (resolveErr ErrUnknownPreset)"
  by (simp add: resolveErr_def nakErr_ok)

lemmas press_resolved_std = press_resolved_ok [where on_err = resolveErr, OF _ resolveErr_ok]

lemma Dispatch_ok:
  assumes "Presets_validate (cfg_Presets cfg) = None"
  shows "dispatch_ok press_ok (Dispatch cfg press_ok c)"
proof -
  note res = Presets_validated [OF assms]
  have noop: "dispatch_ok press_ok ([], Inr None)" by (simp add: dispatch_ok_def)
  have "dispatch_ok press_ok (dispatch_camera cfg press_ok c)"
    unfolding dispatch_camera_def Let_def
    using res by (auto intro!: nakErr_ok press_resolved_std recall_preset_ok split: option.splits)
  moreover have "dispatch_ok press_ok (dispatch_scene cfg press_ok c)"
    unfolding dispatch_scene_def
    using res by (auto intro!: nakErr_ok press_resolved_std assign_obs_ok split: option.splits)
  moreover have "dispatch_ok press_ok (dispatch_audio cfg press_ok c)"
    unfolding dispatch_audio_def
    using res by (auto intro!: nakErr_ok press_resolved_ok resolveErr_ok split: option.splits)
  moreover have "dispatch_ok press_ok (streamingOrRecording cfg press_ok c rec)" for rec
    unfolding streamingOrRecording_def Let_def
    using res by (auto intro!: nakErr_ok press_resolved_std assign_obs_ok)
  moreover have "dispatch_ok press_ok (dispatch_slides cfg press_ok c)"
    unfolding dispatch_slides_def
    using res noop by (auto intro!: nakErr_ok press_resolved_std)
  ultimately show ?thesis
    by (simp add: Dispatch_def nakErr_ok)
qed

section \<open>Properties\<close>

text \<open>
  Under a validated configuration a command never ends in an internal error.  It makes at
  most one press, of a location in range; if it presses, the press decides between the ack and
  a \<open>device_unavailable\<close> nak, so every other rejection leaves the equipment untouched; and the
  mutation an ack brings keeps the state well formed.
\<close>
lemma dispatch_contract:
  assumes "Config_validate parse cfg = None"
  shows "dispatch_ok press_ok (Dispatch cfg press_ok c)"
  using Dispatch_ok Config_validated(3) [OF assms] by blast

definition demo_config :: config where
  "demo_config = config_defaults\<lparr>cfg_Presets := (cfg_Presets config_defaults)
     \<lparr>pc_Camera := [(''main'', [(''wide'', \<lparr>CompanionButton = ''7/0/2'', OSCCommand = '''', OSCVal = zero_osc_value\<rparr>)])]\<rparr>\<rparr>"

lemma demo_config_valid: "Config_validate parse demo_config = None"
proof -
  have "Presets_validate (cfg_Presets demo_config) = None" by code_simp
  moreover have "SatelliteConfig_validate (Satellite_section (cfg_Companion demo_config)) = None \<and>
      ChatConfig_validate parse (cfg_Chat demo_config) = None"
    using Config_validated(1,2) [OF config_defaults_valid [of parse]] by (simp add: demo_config_def)
  ultimately show ?thesis
    by (simp add: Config_validate_def) (simp add: demo_config_def config_defaults_def)
qed

lemma dispatch_contract_witness:
  "dispatch_ok (\<lambda>_. False) (Dispatch demo_config (\<lambda>_. False)
     \<lparr>cf_id = ''1'', cf_target = ''camera'', cf_action = ''preset'', cf_value = Some (RStr ''wide''), cf_camera_id = ''''\<rparr>) \<and>
   fst (Dispatch demo_config (\<lambda>_. False)
     \<lparr>cf_id = ''1'', cf_target = ''camera'', cf_action = ''preset'', cf_value = Some (RStr ''wide''), cf_camera_id = ''''\<rparr>)
   = [\<lparr>Page = 7, Row = 0, Column = 2\<rparr>]"
proof -
  have "fst (Dispatch demo_config (\<lambda>_. False)
     \<lparr>cf_id = ''1'', cf_target = ''camera'', cf_action = ''preset'', cf_value = Some (RStr ''wide''), cf_camera_id = ''''\<rparr>)
   = [\<lparr>Page = 7, Row = 0, Column = 2\<rparr>]"
    by code_simp
  with dispatch_contract [OF demo_config_valid] show ?thesis by blast
qed

end
