(* ===== verification/CompanionClient.thy ===== *)
theory CompanionClient
  imports Location
begin

text \<open>
  server/internal/companion/client.go: the HTTP client that presses buttons and reads and
  writes variables.  The network is an input: what each attempt met, whether the caller's
  context was done after it, and whether the sleep before a retry was cut short.
\<close>

section \<open>Paths\<close>

text \<open>\<open>url.PathEscape\<close>, byte by byte.\<close>

definition hex_digit :: "nat \<Rightarrow> char" where
  "hex_digit d = (if d < 10 then char_of (48 + d) else char_of (55 + d))"

definition unescaped :: "char \<Rightarrow> bool" where
  "unescaped c \<longleftrightarrow>
     (let n = byte c in
      (48 \<le> n \<and> n \<le> 57) \<or> (65 \<le> n \<and> n \<le> 90) \<or> (97 \<le> n \<and> n \<le> 122) \<or> c \<in> set ''-_.~$&+:=@'')"

fun PathEscape :: "string \<Rightarrow> string" where
  "PathEscape [] = []"
| "PathEscape (c # s) =
     (if unescaped c then c # PathEscape s
      else CHR ''%'' # hex_digit (byte c div 16) # hex_digit (byte c mod 16) # PathEscape s)"

lemma hex_digit_unescaped: "d < 16 \<Longrightarrow> unescaped (hex_digit d)"
  by (auto simp: hex_digit_def unescaped_def of_char_of)

lemma PathEscape_chars: "c \<in> set (PathEscape s) \<Longrightarrow> unescaped c \<or> c = CHR ''%''"
proof (induction s)
  case (Cons a s)
  have "byte a div 16 < 16" "byte a mod 16 < 16"
    using nat_of_char_less_256 [of a] by linarith+
  with Cons show ?case by (auto simp: hex_digit_unescaped split: if_splits)
qed simp

lemma PathEscape_segment: "CHR ''/'' \<notin> set (PathEscape s) \<and> CHR ''?'' \<notin> set (PathEscape s) \<and> CHR ''#'' \<notin> set (PathEscape s)"
  using PathEscape_chars by (fastforce simp: unescaped_def)

section \<open>The client\<close>

record client =
  cl_baseURL :: string
  cl_timeout :: int
  cl_maxRetries :: int
  cl_backoff :: int

definition DefaultTimeout :: int where
  "DefaultTimeout = 5 * Second"

definition defaultMaxRetries :: int where
  "defaultMaxRetries = 2"

definition defaultBackoff :: int where
  "defaultBackoff = 100 * Millisecond"

definition WithHTTPClient :: "int option \<Rightarrow> client \<Rightarrow> client" where
  "WithHTTPClient hc c = (case hc of Some timeout \<Rightarrow> c\<lparr>cl_timeout := timeout\<rparr> | None \<Rightarrow> c)"

definition WithRetries :: "int \<Rightarrow> int \<Rightarrow> client \<Rightarrow> client" where
  "WithRetries maxRetries backoff c =
     (let c1 = c\<lparr>cl_maxRetries := (if maxRetries < 0 then 0 else maxRetries)\<rparr>
      in if backoff > 0 then c1\<lparr>cl_backoff := backoff\<rparr> else c1)"

datatype new_error = BadURL | BadScheme | MissingHost

text \<open>\<open>parse\<close> is \<open>url.Parse\<close>: scheme and host, or an error.\<close>

definition New :: "(string \<Rightarrow> (string \<times> string) option) \<Rightarrow> string \<Rightarrow> (client \<Rightarrow> client) list \<Rightarrow> (new_error, client) result" where
  "New parse baseURL opts =
     (case parse baseURL of
        None \<Rightarrow> Inl BadURL
      | Some (scheme, host) \<Rightarrow>
          if scheme \<noteq> ''http'' \<and> scheme \<noteq> ''https'' then Inl BadScheme
          else if host = '''' then Inl MissingHost
          else
            let c = fold (\<lambda>opt c. opt c) opts
                      \<lparr>cl_baseURL = TrimRight baseURL (CHR ''/''), cl_timeout = DefaultTimeout,
                       cl_maxRetries = defaultMaxRetries, cl_backoff = defaultBackoff\<rparr>
            in Inr (if cl_timeout c = 0 then c\<lparr>cl_timeout := DefaultTimeout\<rparr> else c))"

section \<open>Requests\<close>

datatype http_method = MethodGet | MethodPost

record request =
  rq_method :: http_method
  rq_url :: string
  rq_body :: string
  rq_contentType :: string

text \<open>
  What one attempt meets: the request could not be built, the transport failed (nobody knows
  whether the request arrived), or a response came, with its status and its body (\<open>None\<close> when
  reading it failed).
\<close>

datatype http_outcome = RequestError | TransportError | Response int "string option"

datatype client_error =
    RequestBuild | Transport | ReadBody | UnexpectedStatus int | Cancelled
  | EmptyName

definition attempt :: "http_method \<Rightarrow> http_outcome \<Rightarrow> bool \<times> (client_error, string) result" where
  "attempt meth out =
     (let idempotent = (meth = MethodGet) in
      case out of
        RequestError \<Rightarrow> (False, Inl RequestBuild)
      | TransportError \<Rightarrow> (idempotent, Inl Transport)
      | Response status body \<Rightarrow>
          if 200 \<le> status \<and> status < 300 then
            (if \<not> idempotent then (False, Inr '''')
             else (case body of None \<Rightarrow> (True, Inl ReadBody) | Some b \<Rightarrow> (False, Inr b)))
          else (500 \<le> status \<or> status = 429, Inl (UnexpectedStatus status)))"

text \<open>The network seen by the attempts of one call, by their number.\<close>

record network =
  net_outcome :: "nat \<Rightarrow> http_outcome"
  net_done :: "nat \<Rightarrow> bool"
  net_slept :: "nat \<Rightarrow> bool"

text \<open>
  The loop of \<open>do\<close>: \<open>left\<close> attempts remain after the current one.  The outcomes of the
  attempts made are part of the result.
\<close>

fun do_loop :: "network \<Rightarrow> http_method \<Rightarrow> nat \<Rightarrow> nat \<Rightarrow> http_outcome list \<times> (client_error, string) result" where
  "do_loop net meth n left =
     (if n > 0 \<and> \<not> net_slept net n then ([], Inl Cancelled)
      else
        let out = net_outcome net n; (retryable, r) = attempt meth out in
        case r of
          Inr b \<Rightarrow> ([out], Inr b)
        | Inl e \<Rightarrow>
            if \<not> retryable \<or> net_done net n then ([out], Inl e)
            else (case left of
                    0 \<Rightarrow> ([out], Inl e)
                  | Suc l \<Rightarrow> (let (outs, r') = do_loop net meth (Suc n) l in (out # outs, r'))))"

declare do_loop.simps [simp del]

definition do_request :: "client \<Rightarrow> network \<Rightarrow> http_method \<Rightarrow> string \<Rightarrow> string \<Rightarrow> string \<Rightarrow>
    request \<times> http_outcome list \<times> (client_error, string) result" where
  "do_request c net meth path body contentType =
     (\<lparr>rq_method = meth, rq_url = cl_baseURL c @ path, rq_body = body, rq_contentType = contentType\<rparr>,
      do_loop net meth 0 (nat (cl_maxRetries c)))"

definition actuate :: "client \<Rightarrow> network \<Rightarrow> location \<Rightarrow> string \<Rightarrow> request \<times> http_outcome list \<times> (client_error, string) result" where
  "actuate c net loc verb =
     do_request c net MethodPost
       (''/api/location/'' @ Itoa (Page loc) @ ''/'' @ Itoa (Row loc) @ ''/'' @ Itoa (Column loc) @ ''/'' @ verb) '''' ''''"

definition Press where "Press c net loc = actuate c net loc ''press''"
definition PressDown where "PressDown c net loc = actuate c net loc ''down''"
definition PressUp where "PressUp c net loc = actuate c net loc ''up''"

text \<open>An operation that is refused before any request has no request.\<close>

type_synonym exchange = "(request \<times> http_outcome list) option \<times> (client_error, string) result"

definition exchanged :: "request \<times> http_outcome list \<times> (client_error, string) result \<Rightarrow> exchange" where
  "exchanged = (\<lambda>(rq, outs, r). (Some (rq, outs), r))"

definition GetVariable :: "client \<Rightarrow> network \<Rightarrow> string \<Rightarrow> exchange" where
  "GetVariable c net name =
     (if name = '''' then (None, Inl EmptyName)
      else exchanged (do_request c net MethodGet (''/api/custom-variable/'' @ PathEscape name @ ''/value'') '''' ''''))"

definition SetVariable :: "client \<Rightarrow> network \<Rightarrow> string \<Rightarrow> string \<Rightarrow> exchange" where
  "SetVariable c net name val =
     (if name = '''' then (None, Inl EmptyName)
      else exchanged (do_request c net MethodPost (''/api/custom-variable/'' @ PathEscape name @ ''/value'') val ''text/plain''))"

definition GetModuleVariable :: "client \<Rightarrow> network \<Rightarrow> string \<Rightarrow> string \<Rightarrow> exchange" where
  "GetModuleVariable c net label name =
     (if label = '''' \<or> name = '''' then (None, Inl EmptyName)
      else exchanged (do_request c net MethodGet
        (''/api/variable/'' @ PathEscape label @ ''/'' @ PathEscape name @ ''/value'') '''' ''''))"

section \<open>Retries\<close>

text \<open>A response that Companion gave without acting: the ones a retry is safe after.\<close>

definition refused :: "http_outcome \<Rightarrow> bool" where
  "refused out = (case out of Response status _ \<Rightarrow> 500 \<le> status \<or> status = 429 | _ \<Rightarrow> False)"

text \<open>The outcomes after which the request may have been performed.\<close>

definition may_have_acted :: "http_outcome \<Rightarrow> bool" where
  "may_have_acted out =
     (case out of
        Response status _ \<Rightarrow> 200 \<le> status \<and> status < 300
      | TransportError \<Rightarrow> True
      | RequestError \<Rightarrow> False)"

lemma do_loop_length: "length (fst (do_loop net meth n left)) \<le> Suc left"
proof (induction left arbitrary: n)
  case 0
  show ?case by (subst do_loop.simps) (auto simp: Let_def split: sum.splits prod.splits)
next
  case (Suc left)
  from this [of "Suc n"] show ?case
    by (subst do_loop.simps) (auto simp: Let_def split: sum.splits prod.splits)
qed

lemma attempt_post_retry: "attempt MethodPost out = (True, Inl e) \<Longrightarrow> refused out \<and> \<not> may_have_acted out"
  by (auto simp: attempt_def refused_def may_have_acted_def Let_def split: http_outcome.splits if_splits)

lemma do_loop_post:
  "\<forall>out \<in> set (butlast (fst (do_loop net MethodPost n left))). refused out \<and> \<not> may_have_acted out"
proof (induction left arbitrary: n)
  case 0
  show ?case by (subst do_loop.simps) (auto simp: Let_def split: sum.splits prod.splits)
next
  case (Suc left)
  from this [of "Suc n"] attempt_post_retry [of "net_outcome net n"] show ?case
    by (subst do_loop.simps) (auto simp: Let_def split: sum.splits prod.splits if_splits)
qed

definition acted :: "http_outcome \<Rightarrow> bool" where
  "acted out \<longleftrightarrow> (case out of Response status _ \<Rightarrow> 200 \<le> status \<and> status < 300 | _ \<Rightarrow> False)"

lemma attempt_post_ok: "attempt MethodPost out = (b, r) \<Longrightarrow> (\<exists>x. r = Inr x) \<longleftrightarrow> acted out"
  by (auto simp: attempt_def acted_def Let_def split: http_outcome.splits if_splits)

lemma do_loop_post_result:
  "(\<exists>b. snd (do_loop net MethodPost n left) = Inr b) \<longleftrightarrow> (\<exists>out \<in> set (fst (do_loop net MethodPost n left)). acted out)"
proof (induction left arbitrary: n)
  case 0
  obtain b r where a: "attempt MethodPost (net_outcome net n) = (b, r)" by force
  from attempt_post_ok [OF a] show ?case
    by (cases r) (auto simp: do_loop.simps [of net MethodPost n 0] a Let_def)
next
  case (Suc left)
  obtain b r where a: "attempt MethodPost (net_outcome net n) = (b, r)" by force
  from attempt_post_ok [OF a] Suc.IH [of "Suc n"] show ?case
    by (cases r) (auto simp: do_loop.simps [of net MethodPost n "Suc left"] a Let_def split: prod.splits if_splits)
qed

section \<open>Properties\<close>

text \<open>
  A button press or a variable write is sent at most \<open>maxRetries + 1\<close> times, and is sent
  again only after a response that says it was not performed: never after a transport error, so
  at most one of the requests sent can have acted, and the call succeeds exactly when one did
  for certain.
\<close>
lemma post_never_doubled:
  shows "length (fst (snd (actuate c net loc verb))) \<le> Suc (nat (cl_maxRetries c)) \<and>
    (\<forall>out \<in> set (butlast (fst (snd (actuate c net loc verb)))). refused out) \<and>
    length (filter may_have_acted (fst (snd (actuate c net loc verb)))) \<le> 1 \<and>
    ((\<exists>b. snd (snd (actuate c net loc verb)) = Inr b) \<longleftrightarrow>
     (\<exists>out \<in> set (fst (snd (actuate c net loc verb))). acted out))"
proof -
  let ?outs = "fst (do_loop net MethodPost 0 (nat (cl_maxRetries c)))"
  have outs: "fst (snd (actuate c net loc verb)) = ?outs" and
      res: "snd (snd (actuate c net loc verb)) = snd (do_loop net MethodPost 0 (nat (cl_maxRetries c)))"
    by (simp_all add: actuate_def do_request_def)
  have post: "\<forall>out \<in> set (butlast ?outs). refused out \<and> \<not> may_have_acted out" by (rule do_loop_post)
  then have none: "filter may_have_acted (butlast ?outs) = []" by (simp add: filter_empty_conv)
  have "length (filter may_have_acted ?outs) \<le> 1"
  proof (cases "?outs = []")
    case False
    then have "filter may_have_acted ?outs = filter may_have_acted (butlast ?outs @ [last ?outs])" by simp
    also have "\<dots> = filter may_have_acted [last ?outs]" using none by (simp only: filter_append) simp
    finally show ?thesis by simp
  qed simp
  with post show ?thesis by (simp add: outs res do_loop_length do_loop_post_result)
qed

text \<open>A busy answer, then a broken connection: two requests, and no third.\<close>

definition demo_client :: client where
  "demo_client = \<lparr>cl_baseURL = ''http://c'', cl_timeout = DefaultTimeout, cl_maxRetries = 2, cl_backoff = defaultBackoff\<rparr>"

definition flaky :: network where
  "flaky = \<lparr>net_outcome = (\<lambda>n. if n = 0 then Response 503 None else TransportError),
     net_done = (\<lambda>_. False), net_slept = (\<lambda>_. True)\<rparr>"

lemma post_never_doubled_witness:
  "(let r = actuate demo_client flaky \<lparr>Page = 1, Row = 0, Column = 0\<rparr> ''press'' in
    fst (snd r) = [Response 503 None, TransportError] \<and> snd (snd r) = Inl Transport \<and>
    (\<forall>out \<in> set (butlast (fst (snd r))). refused out) \<and> length (filter may_have_acted (fst (snd r))) \<le> 1)"
proof -
  let ?r = "actuate demo_client flaky \<lparr>Page = 1, Row = 0, Column = 0\<rparr> ''press''"
  have "fst (snd ?r) = [Response 503 None, TransportError] \<and> snd (snd ?r) = Inl Transport" by code_simp
  with post_never_doubled [of demo_client flaky "\<lparr>Page = 1, Row = 0, Column = 0\<rparr>" "''press''"] show ?thesis
    unfolding Let_def by blast
qed

text \<open>
  A variable name cannot leave its path segment: whatever its bytes, the request goes to the
  variable endpoint with exactly the configured base and no query.
\<close>
lemma variable_path_confined:
  shows "case fst (GetVariable c net name) of
      None \<Rightarrow> name = '''' \<and> snd (GetVariable c net name) = Inl EmptyName
    | Some (rq, _) \<Rightarrow> \<exists>seg. rq_url rq = cl_baseURL c @ ''/api/custom-variable/'' @ seg @ ''/value'' \<and>
        CHR ''/'' \<notin> set seg \<and> CHR ''?'' \<notin> set seg \<and> CHR ''#'' \<notin> set seg"
  using PathEscape_segment [of name]
  by (auto simp: GetVariable_def exchanged_def do_request_def split: prod.splits)

end
