(* ===== verification/SatelliteWire.thy ===== *)
theory SatelliteWire
  imports GoStrings
begin

text \<open>
  The line protocol of Companion's Satellite API as server/internal/companion/satellite.go
  speaks it: the tokenizer, the argument map, booleans, and the lines the server sends.
\<close>

section \<open>Reading lines\<close>

abbreviation backslash :: char where
  "backslash \<equiv> CHR 0x5C"

abbreviation dquote :: char where
  "dquote \<equiv> CHR 0x22"

text \<open>The loop of \<open>tokenizeSatellite\<close>: the token built so far and whether a quote is open.\<close>

definition flush :: "string \<Rightarrow> string list" where
  "flush b = (if length b > 0 then [b] else [])"

fun tokenize :: "string \<Rightarrow> string \<Rightarrow> bool \<Rightarrow> string list" where
  "tokenize [] b inQuote = flush b"
| "tokenize (c # s) b inQuote =
     (if c = backslash \<and> s \<noteq> [] then (case s of e # s' \<Rightarrow> tokenize s' (b @ [e]) inQuote | [] \<Rightarrow> [])
      else if c = dquote then tokenize s b (\<not> inQuote)
      else if c = CHR '' '' \<and> \<not> inQuote then flush b @ tokenize s [] inQuote
      else tokenize s (b @ [c]) inQuote)"

definition tokenizeSatellite :: "string \<Rightarrow> string list" where
  "tokenizeSatellite s = tokenize s [] False"

type_synonym args = "(string, string) gomap"

fun parse_args :: "string list \<Rightarrow> args \<Rightarrow> args" where
  "parse_args [] args = args"
| "parse_args (tok # toks) args =
     (let (k, v, found) = Cut tok (CHR ''='')
      in parse_args toks (if found then gm_put k v args else gm_put tok '''' args))"

definition parseSatelliteLine :: "string \<Rightarrow> string \<times> args" where
  "parseSatelliteLine line =
     (case tokenizeSatellite line of
        [] \<Rightarrow> ('''', [])
      | cmd # toks \<Rightarrow> (cmd, parse_args toks []))"

text \<open>\<open>args[k]\<close>: the zero value when absent.\<close>

definition arg :: "args \<Rightarrow> string \<Rightarrow> string" where
  "arg args k = (case gm_get args k of Some v \<Rightarrow> v | None \<Rightarrow> '''')"

definition boolWire :: "bool \<Rightarrow> string" where
  "boolWire b = (if b then ''true'' else ''false'')"

text \<open>\<open>strings.EqualFold\<close> with an ASCII word none of whose letters a rune outside ASCII folds to.\<close>

definition parseWireBool :: "string \<Rightarrow> bool" where
  "parseWireBool v \<longleftrightarrow> v = ''1'' \<or> map ascii_lower v = ''true''"

section \<open>Lines the server sends\<close>

text \<open>
  \<open>%q\<close> of an ASCII string; a byte beyond ASCII is copied, as those of a printable rune are.
\<close>

definition hex_nibble :: "nat \<Rightarrow> char" where
  "hex_nibble d = ''0123456789abcdef'' ! d"

definition quote_byte :: "char \<Rightarrow> string" where
  "quote_byte c =
     (if c = dquote \<or> c = backslash then [backslash, c]
      else if 0x20 \<le> byte c \<and> byte c \<noteq> 0x7F then [c]
      else backslash #
        (if c = CHR 0x07 then ''a'' else if c = CHR 0x08 then ''b'' else if c = CHR 0x0C then ''f''
         else if c = CHR 0x0A then ''n'' else if c = CHR 0x0D then ''r'' else if c = CHR 0x09 then ''t''
         else if c = CHR 0x0B then ''v'' else [CHR ''x'', hex_nibble (byte c div 16), hex_nibble (byte c mod 16)]))"

definition go_quote :: "string \<Rightarrow> string" where
  "go_quote s = dquote # concat (map quote_byte s) @ [dquote]"

definition printable :: "string \<Rightarrow> bool" where
  "printable s \<longleftrightarrow> (\<forall>c \<in> set s. 0x20 \<le> byte c \<and> byte c < 0x7F)"

definition add_device_line :: "string \<Rightarrow> string \<Rightarrow> int \<Rightarrow> int \<Rightarrow> int \<Rightarrow> string" where
  "add_device_line device product keysTotal keysPerRow bitmap =
     ''ADD-DEVICE DEVICEID='' @ device @ '' PRODUCT_NAME='' @ go_quote product @
     '' KEYS_TOTAL='' @ Itoa keysTotal @ '' KEYS_PER_ROW='' @ Itoa keysPerRow @
     '' BITMAPS='' @ Itoa bitmap @ '' COLORS=hex''"

definition key_press_line :: "string \<Rightarrow> int \<Rightarrow> bool \<Rightarrow> string" where
  "key_press_line device key pressed =
     ''KEY-PRESS DEVICEID='' @ device @ '' KEY='' @ Itoa key @ '' PRESSED='' @ boolWire pressed"

section \<open>What the tokenizer makes of a line\<close>

text \<open>Characters that stand for themselves outside quotes.\<close>

definition plain :: "string \<Rightarrow> bool" where
  "plain s \<longleftrightarrow> CHR '' '' \<notin> set s \<and> dquote \<notin> set s \<and> backslash \<notin> set s"

lemma plain_append [simp]: "plain (s @ t) \<longleftrightarrow> plain s \<and> plain t"
  by (auto simp: plain_def)

lemma tokenize_plain: "plain s \<Longrightarrow> tokenize (s @ t) b q = tokenize t (b @ s) q"
  by (induction s arbitrary: b) (auto simp: plain_def)

lemma tokenize_space: "tokenize (CHR '' '' # t) b False = flush b @ tokenize t [] False"
  by simp

lemma tokenize_quoted:
  "printable s \<Longrightarrow> tokenize (concat (map quote_byte s) @ dquote # t) b True = tokenize t (b @ s) False"
  by (induction s arbitrary: b) (auto simp: printable_def quote_byte_def)

lemma tokenize_go_quote: "printable s \<Longrightarrow> tokenize (go_quote s @ t) b False = tokenize t (b @ s) False"
  by (simp add: go_quote_def tokenize_quoted)

lemma Itoa_plain: "plain (Itoa n) \<and> CHR ''='' \<notin> set (Itoa n)"
proof -
  have "c = CHR ''-'' \<or> 48 \<le> byte c \<and> byte c \<le> 57" if "c \<in> set (Itoa n)" for c
    using that by (auto simp: Itoa_def dest: nat_string_digits split: if_splits)
  from this [of "CHR '' ''"] this [of dquote] this [of backslash] this [of "CHR ''=''"] show ?thesis
    by (auto simp: plain_def)
qed

lemma boolWire_plain: "plain (boolWire b)"
  by (simp add: plain_def boolWire_def)

lemma parse_bool_wire: "parseWireBool (boolWire b) = b"
  by (simp add: parseWireBool_def boolWire_def ascii_lower_def)

lemma flush_Cons [simp]: "flush (c # s) = [c # s]"
  by (simp add: flush_def)

lemma tokenize_word:
  "plain w \<Longrightarrow> w \<noteq> [] \<Longrightarrow> tokenize (w @ CHR '' '' # t) [] False = w # tokenize t [] False"
  by (simp add: tokenize_plain flush_def)

lemma tokenize_last: "plain w \<Longrightarrow> w \<noteq> [] \<Longrightarrow> tokenize w [] False = [w]"
  using tokenize_plain [of w "[]" "[]" False] by (simp add: flush_def)

lemma key_press_tokens:
  assumes "plain device"
  shows "tokenizeSatellite (key_press_line device key pressed) =
    [''KEY-PRESS'', ''DEVICEID='' @ device, ''KEY='' @ Itoa key, ''PRESSED='' @ boolWire pressed]"
proof -
  have "key_press_line device key pressed =
      ''KEY-PRESS'' @ CHR '' '' # (''DEVICEID='' @ device) @ CHR '' '' # (''KEY='' @ Itoa key) @
      CHR '' '' # (''PRESSED='' @ boolWire pressed)"
    by (simp add: key_press_line_def)
  moreover have "plain ''KEY-PRESS''" "plain (''DEVICEID='' @ device)" "plain (''KEY='' @ Itoa key)"
      "plain (''PRESSED='' @ boolWire pressed)"
    using assms Itoa_plain boolWire_plain by (auto simp: plain_def)
  ultimately show ?thesis
    unfolding tokenizeSatellite_def by (simp only: tokenize_word tokenize_last list.simps append_is_Nil_conv not_False_eq_True simp_thms)
qed

lemma add_device_tokens:
  assumes "plain device" "printable product"
  shows "tokenizeSatellite (add_device_line device product tot per_row bitmap) =
    [''ADD-DEVICE'', ''DEVICEID='' @ device, ''PRODUCT_NAME='' @ product, ''KEYS_TOTAL='' @ Itoa tot,
     ''KEYS_PER_ROW='' @ Itoa per_row, ''BITMAPS='' @ Itoa bitmap, ''COLORS=hex'']"
proof -
  let ?rest = "(''KEYS_TOTAL='' @ Itoa tot) @ CHR '' '' # (''KEYS_PER_ROW='' @ Itoa per_row) @
      CHR '' '' # (''BITMAPS='' @ Itoa bitmap) @ CHR '' '' # ''COLORS=hex''"
  have "add_device_line device product tot per_row bitmap =
      ''ADD-DEVICE'' @ CHR '' '' # (''DEVICEID='' @ device) @ CHR '' '' # (''PRODUCT_NAME='' @ go_quote product @ CHR '' '' # ?rest)"
    by (simp add: add_device_line_def)
  moreover have "tokenize (''PRODUCT_NAME='' @ go_quote product @ CHR '' '' # ?rest) [] False =
      (''PRODUCT_NAME='' @ product) # tokenize ?rest [] False"
    using tokenize_plain [of "''PRODUCT_NAME=''" "go_quote product @ CHR '' '' # ?rest" "[]" False]
    by (simp add: plain_def tokenize_go_quote [OF assms(2)])
  moreover have "plain ''ADD-DEVICE''" "plain (''DEVICEID='' @ device)" "plain (''KEYS_TOTAL='' @ Itoa tot)"
      "plain (''KEYS_PER_ROW='' @ Itoa per_row)" "plain (''BITMAPS='' @ Itoa bitmap)" "plain ''COLORS=hex''"
    using assms Itoa_plain by (auto simp: plain_def)
  ultimately show ?thesis
    unfolding tokenizeSatellite_def by (simp only: tokenize_word tokenize_last list.simps append_is_Nil_conv not_False_eq_True simp_thms)
qed

lemma Cut_at: "c \<notin> set k \<Longrightarrow> Cut (k @ c # v) c = (k, v, True)"
proof -
  assume "c \<notin> set k"
  then have "dropWhile (\<lambda>x. x \<noteq> c) (k @ c # v) = c # v" "takeWhile (\<lambda>x. x \<noteq> c) (k @ c # v) = k"
    by (induction k) auto
  then show ?thesis by (simp add: Cut_def)
qed

lemma parse_args_kv: "CHR ''='' \<notin> set k \<Longrightarrow> parse_args ((k @ CHR ''='' # v) # toks) args = parse_args toks (gm_put k v args)"
  by (simp add: Cut_at)

lemma kv_args:
  "parse_args ((''DEVICEID='' @ d) # toks) a = parse_args toks (gm_put ''DEVICEID'' d a)"
  "parse_args ((''KEY='' @ d) # toks) a = parse_args toks (gm_put ''KEY'' d a)"
  "parse_args ((''PRESSED='' @ d) # toks) a = parse_args toks (gm_put ''PRESSED'' d a)"
  "parse_args ((''PRODUCT_NAME='' @ d) # toks) a = parse_args toks (gm_put ''PRODUCT_NAME'' d a)"
  "parse_args ((''KEYS_TOTAL='' @ d) # toks) a = parse_args toks (gm_put ''KEYS_TOTAL'' d a)"
  "parse_args ((''KEYS_PER_ROW='' @ d) # toks) a = parse_args toks (gm_put ''KEYS_PER_ROW'' d a)"
  "parse_args ((''BITMAPS='' @ d) # toks) a = parse_args toks (gm_put ''BITMAPS'' d a)"
  "parse_args (''COLORS=hex'' # toks) a = parse_args toks (gm_put ''COLORS'' ''hex'' a)"
  using parse_args_kv [of "''DEVICEID''"] parse_args_kv [of "''KEY''"] parse_args_kv [of "''PRESSED''"]
    parse_args_kv [of "''PRODUCT_NAME''"] parse_args_kv [of "''KEYS_TOTAL''"] parse_args_kv [of "''KEYS_PER_ROW''"]
    parse_args_kv [of "''BITMAPS''"] parse_args_kv [of "''COLORS''" "''hex''"]
  by simp_all

section \<open>Backslashes\<close>

text \<open>
  What a word without spaces and quotes adds to a token: itself, or fewer bytes, or, when it ends in
  a backslash of its own, the space after it.
\<close>

lemma tokenize_escapes:
  assumes "CHR '' '' \<notin> set s" "dquote \<notin> set s" "backslash \<in> set s"
  obtains u where "tokenize (s @ CHR '' '' # t) b False = flush (b @ u) @ tokenize t [] False" "length u < length s"
  | u where "tokenize (s @ CHR '' '' # t) b False = tokenize t (b @ u) False" "CHR '' '' \<in> set u"
proof -
  have "(\<exists>u. tokenize (s @ CHR '' '' # t) b False = flush (b @ u) @ tokenize t [] False \<and>
          length u + (if backslash \<in> set s then 1 else 0) \<le> length s) \<or>
      (\<exists>u. tokenize (s @ CHR '' '' # t) b False = tokenize t (b @ u) False \<and> CHR '' '' \<in> set u)"
    using assms(1,2)
  proof (induction s arbitrary: b rule: length_induct)
    case (1 s)
    have ext: "\<exists>u. tokenize (r @ CHR '' '' # t) (b @ [c]) False = flush (b @ u) @ tokenize t [] False \<and>
          length u + (if backslash \<in> set r then 1 else 0) \<le> Suc (length r) \<or>
        tokenize (r @ CHR '' '' # t) (b @ [c]) False = tokenize t (b @ u) False \<and> CHR '' '' \<in> set u"
      if r: "length r < length s" "CHR '' '' \<notin> set r" "dquote \<notin> set r" for r c
      using 1(1) [rule_format, OF r(1) r(2,3), of "b @ [c]"]
    proof (elim disjE exE conjE)
      fix u
      assume "tokenize (r @ CHR '' '' # t) (b @ [c]) False = flush ((b @ [c]) @ u) @ tokenize t [] False"
        "length u + (if backslash \<in> set r then 1 else 0) \<le> length r"
      then show ?thesis by (intro exI [of _ "c # u"]) simp
    next
      fix u
      assume "tokenize (r @ CHR '' '' # t) (b @ [c]) False = tokenize t ((b @ [c]) @ u) False" "CHR '' '' \<in> set u"
      then show ?thesis by (intro exI [of _ "c # u"]) simp
    qed
    show ?case
    proof (cases s)
      case Nil
      then show ?thesis by (intro disjI1 exI [of _ "[]"]) simp
    next
      case (Cons c r)
      show ?thesis
      proof (cases "c = backslash")
        case False
        from ext [of r c] 1(2,3) False show ?thesis by (auto simp: Cons split: if_splits)
      next
        case True
        show ?thesis
        proof (cases r)
          case Nil
          then show ?thesis by (intro disjI2 exI [of _ "'' ''"]) (simp add: Cons True)
        next
          case (Cons e r')
          from ext [of r' e] 1(2,3) show ?thesis by (fastforce simp: \<open>s = c # r\<close> Cons True split: if_splits)
        qed
      qed
    qed
  qed
  with that assms(3) show thesis by fastforce
qed

section \<open>What a token says\<close>

text \<open>
  The value a line gives to a name, told from its tokens alone: that of the last token
  \<open>NAME=value\<close>, or nothing of a bare \<open>NAME\<close>.
\<close>

fun said :: "string \<Rightarrow> string list \<Rightarrow> string option" where
  "said k [] = None"
| "said k (tok # toks) =
     (case said k toks of
        Some v \<Rightarrow> Some v
      | None \<Rightarrow> if tok = k then Some '''' else if prefix (k @ ''='') tok then Some (drop (Suc (length k)) tok) else None)"

lemma Cut_cases:
  obtains "CHR ''='' \<notin> set tok" "Cut tok (CHR ''='') = (tok, [], False)"
  | k v where "tok = k @ CHR ''='' # v" "CHR ''='' \<notin> set k" "Cut tok (CHR ''='') = (k, v, True)"
proof (cases "CHR ''='' \<in> set tok")
  case False
  then have "dropWhile (\<lambda>x. x \<noteq> CHR ''='') tok = []" by (auto simp: dropWhile_eq_Nil_conv)
  then have "Cut tok (CHR ''='') = (tok, [], False)" by (simp only: Cut_def list.case)
  with False show thesis by (rule that(1))
next
  case True
  then obtain k v where "tok = k @ CHR ''='' # v" "CHR ''='' \<notin> set k" by (blast dest: split_list_first)
  with Cut_at [OF this(2)] show thesis using that(2) by simp
qed

lemma parse_args_said:
  "gm_wf a \<Longrightarrow> CHR ''='' \<notin> set k \<Longrightarrow>
     gm_get (parse_args toks a) k = (case said k toks of Some v \<Rightarrow> Some v | None \<Rightarrow> gm_get a k)"
proof (induction toks arbitrary: a)
  case (Cons tok toks)
  show ?case
  proof (cases rule: Cut_cases [of tok])
    case 1
    then have "\<not> prefix (k @ ''='') tok" by (auto simp: prefix_def)
    with 1 Cons show ?thesis by (auto simp: gm_get_put split: option.splits)
  next
    case (2 j v)
    have "prefix (k @ ''='') tok \<longleftrightarrow> j = k"
      using 2(1,2) Cons.prems(2) by (auto simp: prefix_def append_eq_append_conv2 append_eq_Cons_conv Cons_eq_append_conv)
    moreover have "tok \<noteq> k" using 2(1) Cons.prems(2) by auto
    ultimately show ?thesis using 2 Cons by (auto simp: gm_get_put split: option.splits)
  qed
qed simp

lemma parse_line_said:
  "CHR ''='' \<notin> set k \<Longrightarrow> gm_get (snd (parseSatelliteLine line)) k = said k (tl (tokenizeSatellite line))"
  using parse_args_said [of "[]" k] by (auto simp: parseSatelliteLine_def gm_wf_def split: list.split option.split)

lemma device_id_read:
  assumes "CHR '' '' \<notin> set device" "dquote \<notin> set device" "backslash \<in> set device"
  shows "gm_get (snd (parseSatelliteLine (key_press_line device key pressed))) ''DEVICEID'' \<noteq> Some device"
proof -
  let ?b = "''DEVICEID=''" and ?key = "''KEY='' @ Itoa key" and ?pressed = "''PRESSED='' @ boolWire pressed"
  let ?t = "?key @ CHR '' '' # ?pressed"
  have p: "plain ''KEY-PRESS''" "plain ?b" "plain ?key" "plain ?pressed" using Itoa_plain boolWire_plain by (auto simp: plain_def)
  have "key_press_line device key pressed = ''KEY-PRESS'' @ CHR '' '' # ?b @ device @ CHR '' '' # ?t"
    by (simp add: key_press_line_def)
  then have line: "tokenizeSatellite (key_press_line device key pressed) = ''KEY-PRESS'' # tokenize (device @ CHR '' '' # ?t) ?b False"
    using tokenize_word [OF p(1)] tokenize_plain [OF p(2), of _ "[]"] by (simp add: tokenizeSatellite_def)
  have said: "said ''DEVICEID'' ((?b @ v) # toks) = Some v" if "toks = [?key, ?pressed] \<or> toks = [?pressed]" for v toks
    using that by auto
  have other: "tokenize (?key @ CHR '' '' # ?pressed) c False = (c @ ?key) # [?pressed]" for c
    using tokenize_plain [OF p(3), of "CHR '' '' # ?pressed" c False] tokenize_last [OF p(4)] by (simp add: flush_def)
  have "said ''DEVICEID'' (tokenize (device @ CHR '' '' # ?t) ?b False) \<noteq> Some device"
  proof (rule tokenize_escapes [OF assms, of ?t ?b])
    fix u assume u: "tokenize (device @ CHR '' '' # ?t) ?b False = flush (?b @ u) @ tokenize ?t [] False" "length u < length device"
    then have "tokenize (device @ CHR '' '' # ?t) ?b False = (?b @ u) # [?key, ?pressed]" by (simp only: other) (simp add: flush_def)
    with said [of "[?key, ?pressed]" u] u(2) show ?thesis by (simp only:) auto
  next
    fix u assume u: "tokenize (device @ CHR '' '' # ?t) ?b False = tokenize ?t (?b @ u) False" "CHR '' '' \<in> set u"
    then have "tokenize (device @ CHR '' '' # ?t) ?b False = (?b @ (u @ ?key)) # [?pressed]" by (simp only: other) simp
    with said [of "[?pressed]" "u @ ?key"] u(2) assms(1) show ?thesis by (simp only:) auto
  qed
  then show ?thesis using parse_line_said [of "''DEVICEID''" "key_press_line device key pressed"] by (simp add: line)
qed

section \<open>Properties\<close>

text \<open>
  C40: A peer with Companion's tokenizer reads from a key press the device, the key and the state
  that were meant, and from a registration the dimensions that were meant, whatever the quotes
  and backslashes of a product name in printable ASCII.  The device id is sent unquoted.  Of
  the ids without spaces and quotes, all that validation admits, exactly those without a
  backslash are read back as they are.
\<close>
theorem sent_lines_roundtrip:
  assumes "CHR '' '' \<notin> set device" "dquote \<notin> set device" "printable product"
  shows "(backslash \<notin> set device \<longrightarrow>
     parseSatelliteLine (key_press_line device key pressed) =
      (''KEY-PRESS'', [(''DEVICEID'', device), (''KEY'', Itoa key), (''PRESSED'', boolWire pressed)]) \<and>
     parseSatelliteLine (add_device_line device product tot per_row bitmap) =
      (''ADD-DEVICE'', [(''BITMAPS'', Itoa bitmap), (''COLORS'', ''hex''), (''DEVICEID'', device),
        (''KEYS_PER_ROW'', Itoa per_row), (''KEYS_TOTAL'', Itoa tot), (''PRODUCT_NAME'', product)])) \<and>
    parseWireBool (boolWire pressed) = pressed \<and>
    (gm_get (snd (parseSatelliteLine (key_press_line device key pressed))) ''DEVICEID'' = Some device \<longleftrightarrow> backslash \<notin> set device)"
proof -
  have "parseSatelliteLine (key_press_line device key pressed) =
      (''KEY-PRESS'', [(''DEVICEID'', device), (''KEY'', Itoa key), (''PRESSED'', boolWire pressed)]) \<and>
     parseSatelliteLine (add_device_line device product tot per_row bitmap) =
      (''ADD-DEVICE'', [(''BITMAPS'', Itoa bitmap), (''COLORS'', ''hex''), (''DEVICEID'', device),
        (''KEYS_PER_ROW'', Itoa per_row), (''KEYS_TOTAL'', Itoa tot), (''PRODUCT_NAME'', product)])"
    if "backslash \<notin> set device"
  proof -
    have p: "plain device" using assms(1,2) that by (simp add: plain_def)
    show ?thesis
      unfolding parseSatelliteLine_def key_press_tokens [OF p] add_device_tokens [OF p assms(3)]
      by (simp only: list.case kv_args parse_args.simps(1)) (simp add: gm_put_Cons gm_wf_Cons less_char_def)
  qed
  with device_id_read [OF assms(1,2)] show ?thesis by (auto simp: parse_bool_wire)
qed

lemma sent_lines_roundtrip_witness:
  "parseSatelliteLine (key_press_line ''cuebooth'' 31 True) =
    (''KEY-PRESS'', [(''DEVICEID'', ''cuebooth''), (''KEY'', ''31''), (''PRESSED'', ''true'')]) \<and>
   gm_get (snd (parseSatelliteLine (key_press_line [CHR ''a'', backslash, CHR ''b''] 31 True))) ''DEVICEID'' \<noteq>
     Some [CHR ''a'', backslash, CHR ''b'']"
proof -
  have p: "CHR '' '' \<notin> set ''cuebooth''" "dquote \<notin> set ''cuebooth''" "printable ''CueBooth''" by (simp_all add: printable_def)
  have b: "CHR '' '' \<notin> set [CHR ''a'', backslash, CHR ''b'']" "dquote \<notin> set [CHR ''a'', backslash, CHR ''b'']" by simp_all
  have "Itoa 31 = ''31''" by code_simp
  then show ?thesis using sent_lines_roundtrip [OF p, of 31 True] sent_lines_roundtrip [OF b p(3), of 31 True]
    by (simp add: boolWire_def)
qed

text \<open>An id with a backslash is read back as another one: the tokenizer consumes it.\<close>

lemma device_id_backslash:
  "parseSatelliteLine (key_press_line [CHR ''a'', backslash, CHR ''b''] 0 True) =
     (''KEY-PRESS'', [(''DEVICEID'', ''ab''), (''KEY'', ''0''), (''PRESSED'', ''true'')])"
  by code_simp

end
