(* ===== verification/Satellite.thy ===== *)
theory Satellite
  imports SatelliteWire Config
begin

text \<open>
  \<open>Satellite\<close> of server/internal/companion/satellite.go: one registered surface, kept by one
  session after another.  A session is a socket, an outbound queue, a registration verdict and
  four goroutines (the session itself, its reader, its writer, its pinger); presses come from
  any goroutine.  Channels and sockets are cells indexed by the session they were made for, so
  that a stale handle is visible.  A section under the mutex is one function; the step relation
  interleaves them.  \<open>None\<close> is a panic: a send on a closed channel, or a second close.
\<close>

section \<open>Configuration\<close>

record sat_config =
  sc_Addr :: string
  sc_DeviceID :: string
  sc_ProductName :: string
  sc_Rows :: int
  sc_Cols :: int
  sc_BitmapSize :: int

definition keysTotal :: "sat_config \<Rightarrow> int" where
  "keysTotal c = wrap64 (sc_Rows c * sc_Cols c)"

definition keysPerRow :: "sat_config \<Rightarrow> int" where
  "keysPerRow c = sc_Cols c"

definition DefaultSatelliteAddr :: string where "DefaultSatelliteAddr = ''localhost:16622''"
definition defaultDeviceID :: string where "defaultDeviceID = ''cuebooth''"
definition defaultProductName :: string where "defaultProductName = ''CueBooth''"
definition DefaultSatRows :: int where "DefaultSatRows = 4"
definition DefaultSatCols :: int where "DefaultSatCols = 8"
definition DefaultSatBitmapSize :: int where "DefaultSatBitmapSize = 72"

definition outBuffer :: nat where
  "outBuffer = 32"

section \<open>State\<close>

datatype sat_error = ErrSatelliteNotConnected | ErrSatelliteQueueFull | ErrSatelliteRejected string

record satellite_key =
  sk_Key :: int
  sk_Type :: string
  sk_Pressed :: bool
  sk_Color :: string
  sk_BitmapBase64 :: string

text \<open>What the callbacks are invoked with.\<close>

datatype sat_event = EvKey satellite_key | EvLayout int int int | EvClear

text \<open>\<open>sa_queue\<close>, \<open>sa_closed\<close>: an outbound channel; \<open>sa_verdict\<close>: the one-slot registration channel.\<close>

record satellite =
  sa_cfg :: sat_config
  sa_onKey :: bool
  sa_onLayout :: bool
  sa_onClear :: bool
  sa_out :: "nat option"
  sa_conn :: "nat option"
  sa_registered :: bool
  sa_reg :: "nat option"
  sa_queue :: "nat \<Rightarrow> string list"
  sa_closed :: "nat \<Rightarrow> bool"
  sa_verdict :: "nat \<Rightarrow> sat_error option option"
  sa_open :: "nat \<Rightarrow> bool"

definition sat_defaults :: "sat_config \<Rightarrow> sat_config" where
  "sat_defaults c =
     \<lparr>sc_Addr = (if sc_Addr c = '''' then DefaultSatelliteAddr else sc_Addr c),
      sc_DeviceID = (if sc_DeviceID c = '''' then defaultDeviceID else sc_DeviceID c),
      sc_ProductName = (if sc_ProductName c = '''' then defaultProductName else sc_ProductName c),
      sc_Rows = (if sc_Rows c \<le> 0 then DefaultSatRows else sc_Rows c),
      sc_Cols = (if sc_Cols c \<le> 0 then DefaultSatCols else sc_Cols c),
      sc_BitmapSize = (if sc_BitmapSize c \<le> 0 then DefaultSatBitmapSize else sc_BitmapSize c)\<rparr>"

definition NewSatellite :: "sat_config \<Rightarrow> satellite" where
  "NewSatellite c =
     \<lparr>sa_cfg = sat_defaults c, sa_onKey = False, sa_onLayout = False, sa_onClear = False,
      sa_out = None, sa_conn = None, sa_registered = False, sa_reg = None,
      sa_queue = (\<lambda>_. []), sa_closed = (\<lambda>_. False), sa_verdict = (\<lambda>_. None), sa_open = (\<lambda>_. False)\<rparr>"

definition OnKey where "OnKey s = s\<lparr>sa_onKey := True\<rparr>"
definition OnLayout where "OnLayout s = s\<lparr>sa_onLayout := True\<rparr>"
definition OnClear where "OnClear s = s\<lparr>sa_onClear := True\<rparr>"

definition sat_Layout :: "satellite \<Rightarrow> int \<times> int \<times> int" where
  "sat_Layout s = (sc_Rows (sa_cfg s), sc_Cols (sa_cfg s), sc_BitmapSize (sa_cfg s))"

section \<open>Operations\<close>

text \<open>A fresh session: its channels are made and its socket is open.\<close>

definition setSession :: "nat \<Rightarrow> satellite \<Rightarrow> satellite" where
  "setSession n s = s\<lparr>sa_conn := Some n, sa_out := Some n, sa_reg := Some n, sa_open := (sa_open s)(n := True)\<rparr>"

definition close_conn :: "nat \<Rightarrow> satellite \<Rightarrow> satellite" where
  "close_conn n s = s\<lparr>sa_open := (sa_open s)(n := False)\<rparr>"

definition enqueue :: "string \<Rightarrow> satellite \<Rightarrow> (satellite \<times> sat_error option) option" where
  "enqueue line s =
     (case sa_out s of
        None \<Rightarrow> Some (s, Some ErrSatelliteNotConnected)
      | Some n \<Rightarrow>
          if sa_closed s n then None
          else if length (sa_queue s n) < outBuffer
          then Some (s\<lparr>sa_queue := (sa_queue s)(n := sa_queue s n @ [line])\<rparr>, None)
          else Some (s, Some ErrSatelliteQueueFull))"

definition signalRegistration :: "sat_error option \<Rightarrow> satellite \<Rightarrow> satellite" where
  "signalRegistration err s =
     (let s1 = s\<lparr>sa_reg := None, sa_registered := (err = None)\<rparr> in
      case sa_reg s of
        Some n \<Rightarrow> (if sa_verdict s n = None then s1\<lparr>sa_verdict := (sa_verdict s)(n := Some err)\<rparr> else s1)
      | None \<Rightarrow>
          (case (err, sa_conn s) of
             (Some _, Some n) \<Rightarrow> close_conn n s1
           | _ \<Rightarrow> s1))"

definition register :: "satellite \<Rightarrow> (satellite \<times> sat_error option) option" where
  "register s =
     (let c = sa_cfg s in
      enqueue (add_device_line (sc_DeviceID c) (sc_ProductName c) (keysTotal c) (keysPerRow c) (sc_BitmapSize c)) s)"

text \<open>
  \<open>Press\<close> looks at \<open>registered\<close> and enqueues in two sections; \<open>press_line\<close> is what the first
  hands the second.
\<close>

definition press_line :: "int \<Rightarrow> bool \<Rightarrow> satellite \<Rightarrow> (sat_error, string) result" where
  "press_line key pressed s =
     (if \<not> sa_registered s then Inl ErrSatelliteNotConnected
      else Inr (key_press_line (sc_DeviceID (sa_cfg s)) key pressed))"

definition sat_Press :: "int \<Rightarrow> bool \<Rightarrow> satellite \<Rightarrow> (satellite \<times> sat_error option) option" where
  "sat_Press key pressed s =
     (case press_line key pressed s of Inl e \<Rightarrow> Some (s, Some e) | Inr line \<Rightarrow> enqueue line s)"

definition handleKeyState :: "args \<Rightarrow> satellite \<Rightarrow> sat_event list" where
  "handleKeyState args s =
     (if \<not> sa_onKey s then []
      else (case gm_get args ''KEY'' of
              None \<Rightarrow> []
            | Some keyStr \<Rightarrow>
                (case Atoi keyStr of
                   None \<Rightarrow> []
                 | Some key \<Rightarrow>
                     [EvKey \<lparr>sk_Key = key,
                        sk_Type = (if arg args ''TYPE'' = '''' then ''BUTTON'' else arg args ''TYPE''),
                        sk_Pressed = parseWireBool (arg args ''PRESSED''),
                        sk_Color = arg args ''COLOR'', sk_BitmapBase64 = arg args ''BITMAP''\<rparr>])))"

text \<open>
  \<open>handleLine\<close> up to the last of its sections: the layout is raised before the verdict of an
  accepted registration is signalled, so that other goroutines run in between; the flag says
  whether that section is still to come.
\<close>

definition handleLine_raises :: "string \<Rightarrow> satellite \<Rightarrow> (satellite \<times> sat_event list \<times> bool) option" where
  "handleLine_raises line s =
     (if line = '''' then Some (s, [], False)
      else
        let (cmd, args) = parseSatelliteLine line in
        if cmd = ''KEY-STATE'' then Some (s, handleKeyState args s, False)
        else if cmd = ''PING'' then
          map_option (\<lambda>(s', _). (s', [], False)) (enqueue (''PONG'' @ TrimPrefix line ''PING'') s)
        else if cmd = ''KEYS-CLEAR'' then Some (s, if sa_onClear s then [EvClear] else [], False)
        else if cmd = ''ADD-DEVICE'' then
          (if gm_get args ''ERROR'' \<noteq> None
           then Some (signalRegistration
             (Some (ErrSatelliteRejected (if arg args ''MESSAGE'' = '''' then ''no message'' else arg args ''MESSAGE''))) s, [], False)
           else if gm_get args ''OK'' \<noteq> None
           then Some (s,
             if sa_onLayout s
             then [EvLayout (sc_Rows (sa_cfg s)) (sc_Cols (sa_cfg s)) (sc_BitmapSize (sa_cfg s))] else [], True)
           else Some (s, [], False))
        else Some (s, [], False))"

definition handleLine :: "string \<Rightarrow> satellite \<Rightarrow> (satellite \<times> sat_event list) option" where
  "handleLine line s =
     map_option (\<lambda>(s', evs, signals). (if signals then signalRegistration None s' else s', evs)) (handleLine_raises line s)"

lemma handleLine_eq:
  "handleLine line s =
     (if line = '''' then Some (s, [])
      else
        let (cmd, args) = parseSatelliteLine line in
        if cmd = ''KEY-STATE'' then Some (s, handleKeyState args s)
        else if cmd = ''PING'' then
          map_option (\<lambda>(s', _). (s', [])) (enqueue (''PONG'' @ TrimPrefix line ''PING'') s)
        else if cmd = ''KEYS-CLEAR'' then Some (s, if sa_onClear s then [EvClear] else [])
        else if cmd = ''ADD-DEVICE'' then
          (if gm_get args ''ERROR'' \<noteq> None
           then Some (signalRegistration
             (Some (ErrSatelliteRejected (if arg args ''MESSAGE'' = '''' then ''no message'' else arg args ''MESSAGE''))) s, [])
           else if gm_get args ''OK'' \<noteq> None
           then Some (signalRegistration None s,
             if sa_onLayout s
             then [EvLayout (sc_Rows (sa_cfg s)) (sc_Cols (sa_cfg s)) (sc_BitmapSize (sa_cfg s))] else [])
           else Some (s, []))
        else Some (s, []))"
  by (cases "parseSatelliteLine line"; cases "enqueue (''PONG'' @ TrimPrefix line ''PING'') s")
    (simp_all add: handleLine_def handleLine_raises_def split: prod.split)

text \<open>The locked section of a session's teardown.\<close>

definition teardown :: "nat \<Rightarrow> satellite \<Rightarrow> satellite option" where
  "teardown n s =
     (if sa_closed s n then None
      else Some (s\<lparr>sa_out := None, sa_reg := None, sa_conn := None, sa_registered := False,
                   sa_closed := (sa_closed s)(n := True)\<rparr>))"

section \<open>Sessions\<close>

text \<open>
  Where \<open>Run\<close> is: between sessions, in one (started, waiting for the verdict, live), in its
  deferred function (socket closed, waiting for the reader), or waiting for the writer.
  \<open>sy_signals\<close>: the reader has raised the layout and is about to signal the registration.
  Three logs are kept for the properties and read by no step: the lines the reader dispatched,
  the lines written, and the presses queued, each with its session.
\<close>

datatype phase = Idle | Started nat | Waiting nat | Live nat | Tearing nat | Draining nat

record sat_sys =
  sy_sat :: satellite
  sy_phase :: phase
  sy_reader :: "nat option"
  sy_writer :: "nat option"
  sy_signals :: bool
  sy_failed :: bool
  sy_pending :: "string list"
  sy_next :: nat
  sy_heard :: "(nat \<times> string) list"
  sy_taken :: "(nat \<times> string) list"
  sy_wire :: "(nat \<times> string) list"
  sy_events :: "(nat \<times> sat_event) list"
  sy_panic :: bool

definition initial_sys :: "satellite \<Rightarrow> sat_sys" where
  "initial_sys s = \<lparr>sy_sat = s, sy_phase = Idle, sy_reader = None, sy_writer = None, sy_signals = False,
     sy_failed = False, sy_pending = [], sy_next = 0, sy_heard = [], sy_taken = [], sy_wire = [], sy_events = [], sy_panic = False\<rparr>"

text \<open>Running an operation that may panic.\<close>

definition run_op :: "(satellite \<Rightarrow> (satellite \<times> 'a) option) \<Rightarrow> sat_sys \<Rightarrow> sat_sys" where
  "run_op f y = (case f (sy_sat y) of None \<Rightarrow> y\<lparr>sy_panic := True\<rparr> | Some (s, _) \<Rightarrow> y\<lparr>sy_sat := s\<rparr>)"

text \<open>
  A caller's enqueue.  A press that is taken is logged with the session \<open>Run\<close> is in, whatever the
  handles say.
\<close>

fun current :: "phase \<Rightarrow> nat option" where
  "current Idle = None"
| "current (Started n) = Some n"
| "current (Waiting n) = Some n"
| "current (Live n) = Some n"
| "current (Tearing n) = Some n"
| "current (Draining n) = None"

definition press_op :: "string \<Rightarrow> sat_sys \<Rightarrow> sat_sys" where
  "press_op line y =
     (case enqueue line (sy_sat y) of
        None \<Rightarrow> y\<lparr>sy_panic := True\<rparr>
      | Some (s, Some e) \<Rightarrow> y\<lparr>sy_sat := s\<rparr>
      | Some (s, None) \<Rightarrow>
          y\<lparr>sy_sat := s,
            sy_taken := sy_taken y @ (case current (sy_phase y) of None \<Rightarrow> [] | Some n \<Rightarrow> [(n, line)])\<rparr>)"

text \<open>A session returns: its deferred function closes the socket first.\<close>

definition tear :: "nat \<Rightarrow> sat_sys \<Rightarrow> sat_sys" where
  "tear n y = y\<lparr>sy_phase := Tearing n, sy_sat := close_conn n (sy_sat y)\<rparr>"

inductive sat_step :: "sat_sys \<Rightarrow> sat_sys \<Rightarrow> bool" where
  dial: "sy_phase y = Idle \<Longrightarrow> n = sy_next y \<Longrightarrow>
    sat_step y (y\<lparr>sy_phase := Started n, sy_sat := setSession n (sy_sat y), sy_reader := Some n,
                  sy_writer := Some n, sy_failed := False, sy_next := Suc n\<rparr>)"
| registering: "sy_phase y = Started n \<Longrightarrow> register (sy_sat y) = Some (s, None) \<Longrightarrow>
    sat_step y (y\<lparr>sy_sat := s, sy_phase := Waiting n\<rparr>)"
| register_failed: "sy_phase y = Started n \<Longrightarrow> register (sy_sat y) = Some (s, Some e) \<Longrightarrow>
    sat_step y (tear n (y\<lparr>sy_sat := s\<rparr>))"
| register_panics: "sy_phase y = Started n \<Longrightarrow> register (sy_sat y) = None \<Longrightarrow>
    sat_step y (y\<lparr>sy_panic := True\<rparr>)"
| accepted: "sy_phase y = Waiting n \<Longrightarrow> sa_verdict (sy_sat y) n = Some None \<Longrightarrow>
    sat_step y (y\<lparr>sy_phase := Live n, sy_sat := (sy_sat y)\<lparr>sa_verdict := (sa_verdict (sy_sat y))(n := None)\<rparr>\<rparr>)"
| rejected: "sy_phase y = Waiting n \<Longrightarrow> sa_verdict (sy_sat y) n = Some (Some e) \<Longrightarrow>
    sat_step y (tear n (y\<lparr>sy_sat := (sy_sat y)\<lparr>sa_verdict := (sa_verdict (sy_sat y))(n := None)\<rparr>\<rparr>))"
| timed_out: "sy_phase y = Waiting n \<Longrightarrow> sat_step y (tear n y)"
| read_ended: "sy_phase y \<in> {Waiting n, Live n} \<Longrightarrow> sy_reader y = None \<Longrightarrow> sat_step y (tear n y)"
| cancelled: "sy_phase y \<in> {Started n, Waiting n, Live n} \<Longrightarrow>
    sat_step y (y\<lparr>sy_sat := close_conn n (sy_sat y)\<rparr>)"
| clearing: "sy_phase y = Tearing n \<Longrightarrow> sy_reader y = None \<Longrightarrow> teardown n (sy_sat y) = Some s \<Longrightarrow>
    sat_step y (y\<lparr>sy_sat := s, sy_phase := Draining n\<rparr>)"
| clearing_panics: "sy_phase y = Tearing n \<Longrightarrow> sy_reader y = None \<Longrightarrow> teardown n (sy_sat y) = None \<Longrightarrow>
    sat_step y (y\<lparr>sy_panic := True\<rparr>)"
| reaped: "sy_phase y = Draining n \<Longrightarrow> sy_writer y = None \<Longrightarrow> sat_step y (y\<lparr>sy_phase := Idle\<rparr>)"
| reads_line: "sy_reader y = Some n \<Longrightarrow> \<not> sy_signals y \<Longrightarrow> handleLine_raises line (sy_sat y) = Some (s, evs, signals) \<Longrightarrow>
    sat_step y (y\<lparr>sy_sat := s, sy_signals := signals, sy_heard := sy_heard y @ [(n, line)],
                  sy_events := sy_events y @ map (\<lambda>e. (n, e)) evs\<rparr>)"
| reads_panics: "sy_reader y = Some n \<Longrightarrow> \<not> sy_signals y \<Longrightarrow> handleLine_raises line (sy_sat y) = None \<Longrightarrow>
    sat_step y (y\<lparr>sy_panic := True\<rparr>)"
| signals_ok: "sy_reader y = Some n \<Longrightarrow> sy_signals y \<Longrightarrow>
    sat_step y (y\<lparr>sy_sat := signalRegistration None (sy_sat y), sy_signals := False\<rparr>)"
| reader_exits: "\<not> sy_signals y \<Longrightarrow> sat_step y (y\<lparr>sy_reader := None\<rparr>)"
| writes: "sy_writer y = Some n \<Longrightarrow> sa_queue (sy_sat y) n = l # q \<Longrightarrow> \<not> sy_failed y \<Longrightarrow> sa_open (sy_sat y) n \<Longrightarrow>
    sat_step y (y\<lparr>sy_sat := (sy_sat y)\<lparr>sa_queue := (sa_queue (sy_sat y))(n := q)\<rparr>, sy_wire := sy_wire y @ [(n, l)]\<rparr>)"
| write_fails: "sy_writer y = Some n \<Longrightarrow> sa_queue (sy_sat y) n = l # q \<Longrightarrow> \<not> sy_failed y \<Longrightarrow>
    sat_step y (y\<lparr>sy_sat := close_conn n ((sy_sat y)\<lparr>sa_queue := (sa_queue (sy_sat y))(n := q)\<rparr>), sy_failed := True\<rparr>)"
| drains: "sy_writer y = Some n \<Longrightarrow> sa_queue (sy_sat y) n = l # q \<Longrightarrow> sy_failed y \<Longrightarrow>
    sat_step y (y\<lparr>sy_sat := (sy_sat y)\<lparr>sa_queue := (sa_queue (sy_sat y))(n := q)\<rparr>\<rparr>)"
| writer_exits: "sy_writer y = Some n \<Longrightarrow> sa_queue (sy_sat y) n = [] \<Longrightarrow> sa_closed (sy_sat y) n \<Longrightarrow>
    sat_step y (y\<lparr>sy_writer := None\<rparr>)"
| press_checked: "press_line key pressed (sy_sat y) = Inr line \<Longrightarrow> sat_step y (y\<lparr>sy_pending := line # sy_pending y\<rparr>)"
| press_sent: "line \<in> set (sy_pending y) \<Longrightarrow>
    sat_step y ((press_op line y)\<lparr>sy_pending := remove1 line (sy_pending y)\<rparr>)"
| pings: "sat_step y (run_op (enqueue ''PING cuebooth'') y)"

inductive sat_reachable :: "satellite \<Rightarrow> sat_sys \<Rightarrow> bool" for s where
  sat_start: "sat_reachable s (initial_sys s)"
| sat_next: "sat_reachable s y \<Longrightarrow> sat_step y y' \<Longrightarrow> sat_reachable s y'"

lemma sat_reachable_steps: "sat_step\<^sup>*\<^sup>* y y' \<Longrightarrow> sat_reachable s y \<Longrightarrow> sat_reachable s y'"
  by (induction rule: rtranclp_induct) (auto intro: sat_next)

text \<open>When nothing comes between its sections a line is handled as a whole.\<close>

lemma reads_whole:
  assumes "sy_reader y = Some n" "\<not> sy_signals y" "handleLine line (sy_sat y) = Some (s, evs)"
  shows "sat_step\<^sup>*\<^sup>* y (y\<lparr>sy_sat := s, sy_heard := sy_heard y @ [(n, line)], sy_events := sy_events y @ map (\<lambda>e. (n, e)) evs\<rparr>)"
    (is "sat_step\<^sup>*\<^sup>* y ?z")
proof -
  obtain t signals where h: "handleLine_raises line (sy_sat y) = Some (t, evs, signals)"
      "s = (if signals then signalRegistration None t else t)"
    using assms(3) by (auto simp: handleLine_def)
  let ?y1 = "y\<lparr>sy_sat := t, sy_signals := signals, sy_heard := sy_heard y @ [(n, line)], sy_events := sy_events y @ map (\<lambda>e. (n, e)) evs\<rparr>"
  have 1: "sat_step\<^sup>*\<^sup>* y ?y1" by (rule r_into_rtranclp, rule reads_line [OF assms(1,2) h(1)])
  have eq: "w\<lparr>sy_sat := a, sy_signals := False, sy_heard := b, sy_events := c\<rparr> = w\<lparr>sy_sat := a, sy_heard := b, sy_events := c\<rparr>"
    if "\<not> sy_signals w" for w :: sat_sys and a b c using that by (cases w) simp
  show ?thesis
  proof (cases signals)
    case False
    with 1 show ?thesis unfolding h(2) by (simp only: eq [OF assms(2)] if_False)
  next
    case True
    have "sat_step ?y1 (?y1\<lparr>sy_sat := signalRegistration None (sy_sat ?y1), sy_signals := False\<rparr>)"
      by (rule signals_ok [of _ n]) (simp_all add: True assms(1))
    with 1 have "sat_step\<^sup>*\<^sup>* y (?y1\<lparr>sy_sat := signalRegistration None (sy_sat ?y1), sy_signals := False\<rparr>)"
      by (rule rtranclp.rtrancl_into_rtrancl)
    moreover have "?y1\<lparr>sy_sat := signalRegistration None (sy_sat ?y1), sy_signals := False\<rparr> =
        y\<lparr>sy_sat := s, sy_signals := False, sy_heard := sy_heard y @ [(n, line)], sy_events := sy_events y @ map (\<lambda>e. (n, e)) evs\<rparr>"
      by (simp add: h(2) True)
    ultimately show ?thesis by (simp only: eq [OF assms(2)])
  qed
qed

section \<open>The session invariant\<close>

text \<open>
  In a session the handles are the session's own and its queue is open; outside one they are
  cleared and nothing can dispatch.  Channels not made yet are untouched.
\<close>

definition in_session :: "nat \<Rightarrow> sat_sys \<Rightarrow> bool" where
  "in_session n y \<longleftrightarrow> sa_out (sy_sat y) = Some n \<and> sa_conn (sy_sat y) = Some n \<and>
     sa_reg (sy_sat y) \<in> {None, Some n} \<and> sy_reader y \<in> {None, Some n} \<and> sy_writer y = Some n \<and>
     \<not> sa_closed (sy_sat y) n \<and> n < sy_next y \<and>
     (sa_registered (sy_sat y) \<or> sy_signals y \<longrightarrow> sa_onLayout (sy_sat y) \<longrightarrow>
        (\<exists>r c b. (n, EvLayout r c b) \<in> set (sy_events y)))"

definition no_session :: "sat_sys \<Rightarrow> bool" where
  "no_session y \<longleftrightarrow> sa_out (sy_sat y) = None \<and> sa_conn (sy_sat y) = None \<and> sa_reg (sy_sat y) = None \<and>
     \<not> sa_registered (sy_sat y) \<and> sy_reader y = None \<and> \<not> sy_signals y"

definition sat_inv :: "sat_sys \<Rightarrow> bool" where
  "sat_inv y \<longleftrightarrow> \<not> sy_panic y \<and> (sy_signals y \<longrightarrow> sy_reader y \<noteq> None) \<and>
     (case sy_phase y of
        Idle \<Rightarrow> no_session y \<and> sy_writer y = None
      | Started n \<Rightarrow> in_session n y
      | Waiting n \<Rightarrow> in_session n y
      | Live n \<Rightarrow> in_session n y
      | Tearing n \<Rightarrow> in_session n y
      | Draining n \<Rightarrow> no_session y \<and> sy_writer y \<in> {None, Some n} \<and> n < sy_next y) \<and>
     (\<forall>n. length (sa_queue (sy_sat y) n) \<le> outBuffer) \<and>
     (\<forall>n \<ge> sy_next y. sa_queue (sy_sat y) n = [] \<and> \<not> sa_closed (sy_sat y) n)"

text \<open>What an operation on the satellite may change, for the invariant's sake.\<close>

definition same_handles :: "satellite \<Rightarrow> satellite \<Rightarrow> bool" where
  "same_handles s t \<longleftrightarrow> sa_out t = sa_out s \<and> sa_conn t = sa_conn s \<and> sa_reg t \<in> {None, sa_reg s} \<and>
     sa_closed t = sa_closed s \<and> sa_onLayout t = sa_onLayout s"

lemma enqueue_cases:
  assumes "enqueue line s = Some (t, e)"
  shows "same_handles s t \<and> sa_registered t = sa_registered s \<and>
    (\<forall>n. sa_queue t n \<noteq> sa_queue s n \<longrightarrow> sa_out s = Some n \<and> length (sa_queue t n) \<le> outBuffer)"
  using assms by (auto simp: enqueue_def same_handles_def split: option.splits if_splits)

lemma enqueue_panic: "enqueue line s = None \<longleftrightarrow> (\<exists>n. sa_out s = Some n \<and> sa_closed s n)"
  by (auto simp: enqueue_def split: option.splits)

lemma signal_same: "same_handles s (signalRegistration e s)"
  by (auto simp: same_handles_def signalRegistration_def Let_def close_conn_def split: option.splits)

lemma signal_queue: "sa_queue (signalRegistration e s) = sa_queue s"
  by (auto simp: signalRegistration_def Let_def close_conn_def split: option.splits)

lemma signal_registered: "sa_registered (signalRegistration e s) = (e = None)"
  by (auto simp: signalRegistration_def Let_def close_conn_def split: option.splits)

lemma handleLine_cases:
  assumes "handleLine_raises line s = Some (t, evs, signals)"
  shows "same_handles s t \<and>
    (\<forall>n. sa_queue t n \<noteq> sa_queue s n \<longrightarrow> sa_out s = Some n \<and> length (sa_queue t n) \<le> outBuffer) \<and>
    (sa_registered t \<longrightarrow> sa_registered s) \<and>
    (signals \<longrightarrow> sa_onLayout s \<longrightarrow> (\<exists>r c b. EvLayout r c b \<in> set evs))"
proof -
  have refl: "same_handles s s" by (simp add: same_handles_def)
  obtain cmd args where p: "parseSatelliteLine line = (cmd, args)" by force
  show ?thesis
  proof (cases "cmd = ''PING'' \<and> line \<noteq> ''''")
    case True
    then obtain e where "enqueue (''PONG'' @ TrimPrefix line ''PING'') s = Some (t, e)"
      and "\<not> signals" using assms by (auto simp: handleLine_raises_def p)
    from enqueue_cases [OF this(1)] this(2) show ?thesis by auto
  next
    case False
    with assms refl signal_same [of s] show ?thesis
      by (auto simp: handleLine_raises_def p signal_queue signal_registered split: if_splits)
  qed
qed

lemma handleLine_panic: "handleLine_raises line s = None \<Longrightarrow> \<exists>n. sa_out s = Some n \<and> sa_closed s n"
  by (auto simp: handleLine_raises_def enqueue_panic split: if_splits prod.splits)

lemma inv_open:
  assumes "sat_inv y" "sa_out (sy_sat y) = Some n"
  shows "in_session n y \<and> sy_phase y \<in> {Started n, Waiting n, Live n, Tearing n}"
  using assms by (auto simp: sat_inv_def no_session_def in_session_def split: phase.splits)

lemma inv_no_panic: "sat_inv y \<Longrightarrow> \<not> (\<exists>n. sa_out (sy_sat y) = Some n \<and> sa_closed (sy_sat y) n)"
  using inv_open by (auto simp: in_session_def)

lemma inv_reader:
  assumes "sat_inv y" "sy_reader y = Some n"
  shows "sa_out (sy_sat y) = Some n"
  using assms by (auto simp: sat_inv_def no_session_def in_session_def split: phase.splits)

text \<open>An operation that keeps the handles keeps the invariant.\<close>

lemma inv_same:
  assumes "sat_inv y" and "same_handles (sy_sat y) t"
    and "\<forall>n. sa_queue t n \<noteq> sa_queue (sy_sat y) n \<longrightarrow> sa_out (sy_sat y) = Some n \<and> length (sa_queue t n) \<le> outBuffer"
    and "sa_registered t \<or> g \<longrightarrow> sa_registered (sy_sat y) \<or> sa_out (sy_sat y) \<noteq> None \<and>
      (sa_onLayout (sy_sat y) \<longrightarrow> (\<exists>n r c b. sa_out (sy_sat y) = Some n \<and> (n, EvLayout r c b) \<in> set (sy_events y @ evs)))"
    and "g \<longrightarrow> sy_reader y \<noteq> None"
  shows "sat_inv (y\<lparr>sy_sat := t, sy_signals := g, sy_heard := h, sy_events := sy_events y @ evs\<rparr>)"
proof -
  let ?y = "y\<lparr>sy_sat := t, sy_signals := g, sy_heard := h, sy_events := sy_events y @ evs\<rparr>"
  have in_s: "in_session n ?y" if "in_session n y" for n
    using that assms(2,4) by (fastforce simp: in_session_def same_handles_def)
  have no_s: "no_session ?y" if "no_session y"
    using that assms(2,4,5) by (auto simp: no_session_def same_handles_def)
  have len: "length (sa_queue t n) \<le> outBuffer" for n
    using assms(1,3) by (metis sat_inv_def)
  have fresh: "sa_queue t n = [] \<and> \<not> sa_closed t n" if "sy_next y \<le> n" for n
  proof -
    have "sa_out (sy_sat y) \<noteq> Some n"
      using inv_open [OF assms(1), of n] that by (auto simp: in_session_def)
    then have "sa_queue t n = sa_queue (sy_sat y) n" using assms(3) by blast
    then show ?thesis
      using assms(1,2) that by (simp add: sat_inv_def same_handles_def)
  qed
  from assms(1,5) in_s no_s len fresh show ?thesis
    by (cases "sy_phase y") (auto simp: sat_inv_def)
qed

section \<open>Every step keeps the invariant\<close>

lemma enqueue_inv:
  assumes "sat_inv y" and "enqueue line (sy_sat y) = Some (t, e)"
  shows "sat_inv (y\<lparr>sy_sat := t\<rparr>)"
proof -
  note c = enqueue_cases [OF assms(2)]
  have "in_session n y" if "sa_out (sy_sat y) = Some n" for n using inv_open [OF assms(1) that] by simp
  moreover have "sa_out (sy_sat y) \<noteq> None" "sy_reader y \<noteq> None" if "sy_signals y"
    using assms(1) that by (auto simp: sat_inv_def no_session_def in_session_def split: phase.splits)
  ultimately have "sat_inv (y\<lparr>sy_sat := t, sy_signals := sy_signals y, sy_heard := sy_heard y, sy_events := sy_events y @ []\<rparr>)"
    by (intro inv_same [OF assms(1)]) (use c in \<open>fastforce simp: in_session_def\<close>)+
  then show ?thesis by simp
qed

lemma reader_inv:
  assumes "sat_inv y" "sy_reader y = Some n" "handleLine_raises line (sy_sat y) = Some (t, evs, signals)"
  shows "sat_inv (y\<lparr>sy_sat := t, sy_signals := signals, sy_heard := h, sy_events := sy_events y @ map (\<lambda>e. (n, e)) evs\<rparr>)"
proof (rule inv_same [OF assms(1)])
  note c = handleLine_cases [OF assms(3)] and out = inv_reader [OF assms(1,2)]
  show "same_handles (sy_sat y) t" using c by blast
  show "\<forall>n. sa_queue t n \<noteq> sa_queue (sy_sat y) n \<longrightarrow> sa_out (sy_sat y) = Some n \<and> length (sa_queue t n) \<le> outBuffer"
    using c by blast
  show "sa_registered t \<or> signals \<longrightarrow> sa_registered (sy_sat y) \<or> sa_out (sy_sat y) \<noteq> None \<and>
      (sa_onLayout (sy_sat y) \<longrightarrow>
       (\<exists>n' r c b. sa_out (sy_sat y) = Some n' \<and> (n', EvLayout r c b) \<in> set (sy_events y @ map (\<lambda>e. (n, e)) evs)))"
    using c out by (fastforce simp: image_iff)
  show "signals \<longrightarrow> sy_reader y \<noteq> None" using assms(2) by simp
qed

lemma signals_inv:
  assumes "sat_inv y" "sy_reader y = Some n" "sy_signals y"
  shows "sat_inv (y\<lparr>sy_sat := signalRegistration e (sy_sat y), sy_signals := False\<rparr>)"
proof -
  have out: "sa_out (sy_sat y) = Some n" by (rule inv_reader [OF assms(1,2)])
  have "in_session n y" using inv_open [OF assms(1) out] by simp
  then have "sat_inv (y\<lparr>sy_sat := signalRegistration e (sy_sat y), sy_signals := False, sy_heard := sy_heard y, sy_events := sy_events y @ []\<rparr>)"
    using assms(3) out by (intro inv_same [OF assms(1)]) (auto simp: signal_same signal_queue in_session_def)
  then show ?thesis by simp
qed

lemma tear_inv:
  "sat_inv y \<Longrightarrow> in_session n y \<Longrightarrow> sat_inv (tear n y)"
  by (auto simp: sat_inv_def tear_def close_conn_def in_session_def)

lemma phase_session: "sat_inv y \<Longrightarrow> sy_phase y \<in> {Started n, Waiting n, Live n, Tearing n} \<Longrightarrow> in_session n y"
  by (auto simp: sat_inv_def)

text \<open>Changes the invariant does not look at.\<close>

lemma inv_irrelevant:
  "sat_inv (y\<lparr>sy_pending := p\<rparr>) = sat_inv y" "sat_inv (y\<lparr>sy_failed := f\<rparr>) = sat_inv y" "sat_inv (y\<lparr>sy_wire := w\<rparr>) = sat_inv y"
  "sat_inv (y\<lparr>sy_sat := (sy_sat y)\<lparr>sa_verdict := v\<rparr>\<rparr>) = sat_inv y"
  "sat_inv (y\<lparr>sy_sat := close_conn m (sy_sat y)\<rparr>) = sat_inv y" "sat_inv (y\<lparr>sy_taken := k\<rparr>) = sat_inv y"
  by (simp_all add: sat_inv_def in_session_def no_session_def close_conn_def cong: phase.case_cong)

lemma inv_dequeue:
  assumes "sat_inv y" "sa_queue (sy_sat y) n = l # q"
  shows "sat_inv (y\<lparr>sy_sat := (sy_sat y)\<lparr>sa_queue := (sa_queue (sy_sat y))(n := q)\<rparr>\<rparr>)"
proof -
  have "length (l # q) \<le> outBuffer" using assms by (metis sat_inv_def)
  moreover have "n < sy_next y" using assms by (metis sat_inv_def list.distinct(1) not_le)
  ultimately show ?thesis
    using assms(1) by (simp add: sat_inv_def in_session_def no_session_def cong: phase.case_cong)
qed

lemma run_op_inv:
  assumes "sat_inv y"
  shows "sat_inv (run_op (enqueue line) y)"
proof (cases "enqueue line (sy_sat y)")
  case None
  with assms show ?thesis using enqueue_panic [of line "sy_sat y"] inv_no_panic [OF assms] by simp
next
  case (Some p)
  then show ?thesis using enqueue_inv [OF assms] by (cases p) (simp add: run_op_def)
qed

lemma press_op_run: "\<exists>k. press_op line y = (run_op (enqueue line) y)\<lparr>sy_taken := k\<rparr>"
  by (cases "enqueue line (sy_sat y)"; cases y) (auto simp: press_op_def run_op_def split: option.split prod.split)

lemma press_op_inv: "sat_inv y \<Longrightarrow> sat_inv ((press_op line y)\<lparr>sy_pending := p\<rparr>)"
  using press_op_run [of line y] run_op_inv [of y line] inv_irrelevant(1,6) by metis

lemma sat_step_inv:
  assumes "sat_step y y'" "sat_inv y"
  shows "sat_inv y'"
  using assms
proof (induction rule: sat_step.induct)
  case (dial y n)
  then show ?case by (auto simp: sat_inv_def in_session_def no_session_def setSession_def)
next
  case (registering y n s)
  from registering.hyps(2) have "enqueue (add_device_line (sc_DeviceID (sa_cfg (sy_sat y))) (sc_ProductName (sa_cfg (sy_sat y)))
      (keysTotal (sa_cfg (sy_sat y))) (keysPerRow (sa_cfg (sy_sat y))) (sc_BitmapSize (sa_cfg (sy_sat y)))) (sy_sat y) = Some (s, None)"
    by (simp add: register_def Let_def)
  from enqueue_inv [OF registering.prems this] registering.hyps(1) show ?case
    by (auto simp: sat_inv_def in_session_def)
next
  case (register_failed y n s e)
  from register_failed.hyps(2) have "sat_inv (y\<lparr>sy_sat := s\<rparr>)"
    unfolding register_def Let_def by (rule enqueue_inv [OF register_failed.prems])
  moreover from this have "in_session n (y\<lparr>sy_sat := s\<rparr>)"
    using register_failed.hyps(1) by (intro phase_session) auto
  ultimately show ?case by (rule tear_inv)
next
  case (register_panics y n)
  then show ?case using inv_no_panic [of y] by (auto simp: register_def Let_def enqueue_panic)
next
  case (accepted y n)
  then show ?case by (auto simp: sat_inv_def in_session_def)
next
  case (rejected y n e)
  then have "in_session n (y\<lparr>sy_sat := (sy_sat y)\<lparr>sa_verdict := (sa_verdict (sy_sat y))(n := None)\<rparr>\<rparr>)"
    by (intro phase_session) (auto simp: inv_irrelevant)
  with rejected.prems show ?case by (intro tear_inv) (simp_all add: inv_irrelevant)
next
  case (timed_out y n)
  then show ?case by (intro tear_inv phase_session) auto
next
  case (read_ended y n)
  then show ?case by (intro tear_inv phase_session) auto
next
  case (cancelled y n)
  then show ?case by (simp add: inv_irrelevant)
next
  case (clearing y n s)
  from clearing.prems clearing.hyps(1) have "in_session n y" by (intro phase_session) auto
  with clearing show ?case
    by (auto simp: sat_inv_def in_session_def no_session_def teardown_def split: if_splits)
next
  case (clearing_panics y n)
  from clearing_panics.prems clearing_panics.hyps(1) have "in_session n y" by (intro phase_session) auto
  with clearing_panics show ?case by (auto simp: in_session_def teardown_def split: if_splits)
next
  case (reaped y n)
  then show ?case by (auto simp: sat_inv_def no_session_def)
next
  case (reads_line y n line s evs)
  then show ?case by (intro reader_inv)
next
  case (reads_panics y n line)
  then show ?case using handleLine_panic inv_no_panic by blast
next
  case (signals_ok y n)
  then show ?case by (intro signals_inv)
next
  case (reader_exits y)
  then show ?case by (auto simp: sat_inv_def in_session_def no_session_def split: phase.splits)
next
  case (writes y n l q)
  then have "sat_inv (y\<lparr>sy_sat := (sy_sat y)\<lparr>sa_queue := (sa_queue (sy_sat y))(n := q)\<rparr>\<rparr>)" by (intro inv_dequeue)
  then show ?case
    using inv_irrelevant(3) [where y = "y\<lparr>sy_sat := (sy_sat y)\<lparr>sa_queue := (sa_queue (sy_sat y))(n := q)\<rparr>\<rparr>" and w = "sy_wire y @ [(n, l)]"] by simp
next
  case (write_fails y n l q)
  let ?y = "y\<lparr>sy_sat := (sy_sat y)\<lparr>sa_queue := (sa_queue (sy_sat y))(n := q)\<rparr>\<rparr>"
  from write_fails have "sat_inv ?y" by (intro inv_dequeue)
  then have "sat_inv (?y\<lparr>sy_sat := close_conn n (sy_sat ?y), sy_failed := True\<rparr>)"
    using inv_irrelevant(2) [where y = "?y\<lparr>sy_sat := close_conn n (sy_sat ?y)\<rparr>" and f = True]
      inv_irrelevant(5) [where y = ?y and m = n] by blast
  then show ?case by simp
next
  case (drains y n l q)
  then show ?case by (intro inv_dequeue)
next
  case (writer_exits y n)
  then show ?case by (auto simp: sat_inv_def in_session_def no_session_def split: phase.splits)
next
  case (press_checked key pressed y line)
  then show ?case by (simp add: inv_irrelevant)
next
  case (press_sent line y)
  then show ?case by (intro press_op_inv)
next
  case (pings y)
  then show ?case by (rule run_op_inv)
qed

lemma sat_steps_inv: "sat_inv y \<Longrightarrow> sat_step\<^sup>*\<^sup>* y y' \<Longrightarrow> sat_inv y'"
  by (erule rtranclp_induct) (auto intro: sat_step_inv)

section \<open>The registration verdict\<close>

text \<open>
  The verdict channel is single-use: while it is wanted it is empty, so delivering a verdict
  never blocks the reader, and a live session wants none.
\<close>

definition reg_inv :: "sat_sys \<Rightarrow> bool" where
  "reg_inv y \<longleftrightarrow> (\<forall>n. sa_reg (sy_sat y) = Some n \<longrightarrow> sa_verdict (sy_sat y) n = None) \<and>
     (\<forall>n. sy_phase y = Live n \<longrightarrow> sa_reg (sy_sat y) = None) \<and>
     (\<forall>n \<ge> sy_next y. sa_verdict (sy_sat y) n = None)"

text \<open>What an operation does to the verdict: nothing, or it delivers one and gives up the channel.\<close>

definition reg_step :: "satellite \<Rightarrow> satellite \<Rightarrow> bool" where
  "reg_step s t \<longleftrightarrow> (sa_reg t = sa_reg s \<and> sa_verdict t = sa_verdict s) \<or>
     (sa_reg t = None \<and> (\<forall>n. sa_verdict t n = sa_verdict s n \<or> sa_reg s = Some n))"

lemma enqueue_reg: "enqueue line s = Some (t, e) \<Longrightarrow> reg_step s t"
  by (auto simp: enqueue_def reg_step_def split: option.splits if_splits)

lemma signal_reg: "reg_step s (signalRegistration e s)"
  by (auto simp: reg_step_def signalRegistration_def Let_def close_conn_def split: option.splits)

lemma handleLine_reg: "handleLine_raises line s = Some (t, evs, g) \<Longrightarrow> reg_step s t"
proof -
  assume a: "handleLine_raises line s = Some (t, evs, g)"
  obtain cmd args where p: "parseSatelliteLine line = (cmd, args)" by force
  have "reg_step s s" by (simp add: reg_step_def)
  with a signal_reg [of s] show ?thesis
    by (auto simp: handleLine_raises_def p dest: enqueue_reg split: if_splits)
qed

lemma reg_step_inv:
  assumes "reg_inv y" "sat_inv y" "reg_step (sy_sat y) t"
  shows "reg_inv (y\<lparr>sy_sat := t\<rparr>)" "reg_inv (y\<lparr>sy_sat := t, sy_signals := g, sy_heard := h, sy_events := evs\<rparr>)"
    "reg_inv (y\<lparr>sy_sat := t, sy_signals := g\<rparr>)"
proof -
  have fresh: "n < sy_next y" if "sa_reg (sy_sat y) = Some n" for n
    using assms(2) that by (auto simp: sat_inv_def in_session_def no_session_def split: phase.splits)
  show "reg_inv (y\<lparr>sy_sat := t\<rparr>)"
  proof (cases "sa_reg t = sa_reg (sy_sat y) \<and> sa_verdict t = sa_verdict (sy_sat y)")
    case True
    with assms(1) show ?thesis by (simp add: reg_inv_def)
  next
    case False
    then have t: "sa_reg t = None" "\<And>n. sa_verdict t n = sa_verdict (sy_sat y) n \<or> sa_reg (sy_sat y) = Some n"
      using assms(3) by (auto simp: reg_step_def)
    have "sa_verdict t n = None" if "sy_next y \<le> n" for n
      using t(2) [of n] fresh [of n] that assms(1) by (auto simp: reg_inv_def)
    with t(1) show ?thesis by (simp add: reg_inv_def)
  qed
  then show "reg_inv (y\<lparr>sy_sat := t, sy_signals := g, sy_heard := h, sy_events := evs\<rparr>)" "reg_inv (y\<lparr>sy_sat := t, sy_signals := g\<rparr>)"
    by (simp_all add: reg_inv_def)
qed

lemma run_op_reg:
  assumes "reg_inv y" "sat_inv y"
  shows "reg_inv (run_op (enqueue line) y)"
proof (cases "enqueue line (sy_sat y)")
  case None
  with assms(1) show ?thesis by (simp add: run_op_def reg_inv_def)
next
  case (Some p)
  then obtain t e where p: "enqueue line (sy_sat y) = Some (t, e)" by (cases p) simp
  from reg_step_inv(1) [OF assms enqueue_reg [OF p]] show ?thesis by (simp add: run_op_def p)
qed

lemma sat_step_reg_inv:
  assumes "sat_step y y'" "sat_inv y" "reg_inv y"
  shows "reg_inv y'"
  using assms
proof (induction rule: sat_step.induct)
  case (registering y n s)
  then have "reg_inv (y\<lparr>sy_sat := s\<rparr>)" by (intro reg_step_inv(1)) (auto simp: register_def Let_def dest: enqueue_reg)
  then show ?case by (simp add: reg_inv_def)
next
  case (register_failed y n s e)
  then have "reg_inv (y\<lparr>sy_sat := s\<rparr>)" by (intro reg_step_inv(1)) (auto simp: register_def Let_def dest: enqueue_reg)
  then show ?case by (simp add: reg_inv_def tear_def close_conn_def)
next
  case (accepted y n)
  then have "sa_reg (sy_sat y) = None"
    by (cases "sa_reg (sy_sat y)") (auto simp: reg_inv_def sat_inv_def in_session_def)
  with accepted show ?case by (simp add: reg_inv_def)
next
  case (reads_line y n line s evs g)
  from handleLine_reg [OF reads_line.hyps(3)] reads_line.prems show ?case by (intro reg_step_inv(2))
next
  case (signals_ok y n)
  then show ?case by (intro reg_step_inv(3) signal_reg)
next
  case (press_sent line y)
  then have "reg_inv (run_op (enqueue line) y)" by (simp add: run_op_reg)
  then show ?case by (auto simp: reg_inv_def run_op_def press_op_def split: option.splits)
next
  case (pings y)
  then show ?case by (simp add: run_op_reg)
qed (auto simp: reg_inv_def tear_def close_conn_def setSession_def teardown_def split: if_splits)

lemma sat_step_onLayout: "sat_step y y' \<Longrightarrow> sa_onLayout (sy_sat y') = sa_onLayout (sy_sat y)"
proof (induction rule: sat_step.induct)
  case (reads_line y n line s evs g)
  then show ?case using handleLine_cases [of line "sy_sat y" s evs g] by (simp add: same_handles_def)
next
  case (signals_ok y n)
  then show ?case using signal_same [of "sy_sat y"] by (simp add: same_handles_def)
qed (auto simp: press_op_def tear_def close_conn_def setSession_def teardown_def run_op_def register_def enqueue_def Let_def
    split: if_splits option.splits)

definition wired :: "sat_config \<Rightarrow> satellite" where
  "wired c = OnKey (OnLayout (OnClear (NewSatellite c)))"

lemma wired_reachable:
  assumes "sat_reachable (wired c) y"
  shows "sat_inv y \<and> reg_inv y \<and> sa_onLayout (sy_sat y)"
  using assms
proof (induction rule: sat_reachable.induct)
  case sat_start
  show ?case
    by (simp add: sat_inv_def reg_inv_def initial_sys_def NewSatellite_def no_session_def OnKey_def OnLayout_def OnClear_def wired_def)
next
  case (sat_next y y')
  then show ?case using sat_step_inv sat_step_reg_inv sat_step_onLayout by simp
qed

section \<open>Properties\<close>

text \<open>
  C11: However presses, keepalives, lines from Companion, socket failures and reconnects
  interleave, nothing is ever sent on a closed queue and no queue is closed twice; a queue
  never exceeds its buffer; a reader only dispatches into its own session; and a press is
  accepted only in a session whose layout has been announced.
\<close>
theorem satellite_sessions_safe:
  assumes "sat_reachable (wired c) y"
  shows "\<not> sy_panic y \<and>
    (\<forall>n. length (sa_queue (sy_sat y) n) \<le> outBuffer) \<and>
    (\<forall>n. sy_reader y = Some n \<longrightarrow> sa_conn (sy_sat y) = Some n \<and> sa_out (sy_sat y) = Some n) \<and>
    (\<forall>key pressed line. press_line key pressed (sy_sat y) = Inr line \<longrightarrow>
       (\<exists>n rows cols b. sa_out (sy_sat y) = Some n \<and> (n, EvLayout rows cols b) \<in> set (sy_events y)))"
proof -
  note inv = wired_reachable [OF assms]
  have "\<exists>n r c b. sa_out (sy_sat y) = Some n \<and> (n, EvLayout r c b) \<in> set (sy_events y)" if "sa_registered (sy_sat y)"
    using inv that by (auto simp: sat_inv_def in_session_def no_session_def split: phase.splits)
  moreover have "sa_conn (sy_sat y) = Some n \<and> sa_out (sy_sat y) = Some n" if "sy_reader y = Some n" for n
    using inv that by (auto simp: sat_inv_def in_session_def no_session_def split: phase.splits)
  ultimately show ?thesis
    using inv by (auto simp: sat_inv_def press_line_def split: if_splits)
qed

definition demo_sat :: sat_config where
  "demo_sat = \<lparr>sc_Addr = '''', sc_DeviceID = '''', sc_ProductName = '''', sc_Rows = 0, sc_Cols = 0, sc_BitmapSize = 0\<rparr>"

text \<open>A run up to a live session.\<close>

lemma demo_live: "\<exists>y. sat_reachable (wired demo_sat) y \<and> sy_phase y = Live 0 \<and> sy_reader y = Some 0 \<and> \<not> sy_signals y"
proof -
  let ?y0 = "initial_sys (wired demo_sat)"
  let ?y1 = "?y0\<lparr>sy_phase := Started 0, sy_sat := setSession 0 (sy_sat ?y0), sy_reader := Some 0,
      sy_writer := Some 0, sy_failed := False, sy_next := Suc 0\<rparr>"
  note defs = initial_sys_def wired_def OnKey_def OnLayout_def OnClear_def NewSatellite_def setSession_def
  have "sat_step ?y0 ?y1" by (rule sat_step.dial) (simp_all add: initial_sys_def)
  then have r1: "sat_reachable (wired demo_sat) ?y1" by (rule sat_next [OF sat_start])
  have "\<exists>s. register (sy_sat ?y1) = Some (s, None) \<and> sa_conn s = Some 0 \<and> sa_reg s = Some 0 \<and> sa_verdict s 0 = None"
    by (simp add: register_def enqueue_def Let_def defs outBuffer_def)
  then obtain s where s: "register (sy_sat ?y1) = Some (s, None)" "sa_reg s = Some 0" "sa_verdict s 0 = None" by blast
  let ?y2 = "?y1\<lparr>sy_sat := s, sy_phase := Waiting 0\<rparr>"
  have "sat_step ?y1 ?y2" by (rule sat_step.registering [OF _ s(1)]) simp
  then have r2: "sat_reachable (wired demo_sat) ?y2" by (rule sat_next [OF r1])
  have "parseSatelliteLine ''ADD-DEVICE OK'' = (''ADD-DEVICE'', [(''OK'', '''')])" by code_simp
  then obtain t evs where t: "handleLine ''ADD-DEVICE OK'' (sy_sat ?y2) = Some (t, evs)" "sa_verdict t 0 = Some None"
    using s(2,3) by (simp add: handleLine_eq signalRegistration_def Let_def)
  let ?y3 = "?y2\<lparr>sy_sat := t, sy_heard := sy_heard ?y2 @ [(0, ''ADD-DEVICE OK'')], sy_events := sy_events ?y2 @ map (\<lambda>e. (0, e)) evs\<rparr>"
  have "sat_step\<^sup>*\<^sup>* ?y2 ?y3" by (rule reads_whole [OF _ _ t(1)]) (simp_all add: initial_sys_def)
  then have r3: "sat_reachable (wired demo_sat) ?y3" using r2 by (rule sat_reachable_steps)
  have "sat_step ?y3 (?y3\<lparr>sy_phase := Live 0, sy_sat := (sy_sat ?y3)\<lparr>sa_verdict := (sa_verdict (sy_sat ?y3))(0 := None)\<rparr>\<rparr>)"
    by (rule sat_step.accepted) (simp_all add: t(2))
  from sat_next [OF r3 this] show ?thesis by (intro exI conjI) (auto simp: initial_sys_def)
qed

lemma satellite_sessions_safe_witness:
  "\<exists>y. sat_reachable (wired demo_sat) y \<and> sy_reader y = Some 0 \<and> sa_conn (sy_sat y) = Some 0"
  using demo_live satellite_sessions_safe by blast

text \<open>
  C39: A rejection that arrives once the surface is live (Companion gave the device id to another
  surface) is not lost: the socket is closed, so the session ends and is retried, and until then
  presses are refused.
\<close>
theorem late_rejection_ends_session:
  assumes "sat_reachable (wired c) y" and "sy_phase y = Live n"
    and "parseSatelliteLine line = (''ADD-DEVICE'', args)" and "gm_get args ''ERROR'' \<noteq> None"
  shows "\<exists>s. handleLine line (sy_sat y) = Some (s, []) \<and> \<not> sa_open s n \<and>
    sat_Press key pressed s = Some (s, Some ErrSatelliteNotConnected)"
proof -
  have "sa_reg (sy_sat y) = None" "sa_conn (sy_sat y) = Some n"
    using wired_reachable [OF assms(1)] assms(2) by (auto simp: reg_inv_def sat_inv_def in_session_def)
  moreover have "line \<noteq> ''''"
    using assms(3) by (auto simp: parseSatelliteLine_def tokenizeSatellite_def flush_def)
  ultimately show ?thesis
    using assms(3,4)
    by (auto simp: handleLine_eq signalRegistration_def Let_def close_conn_def sat_Press_def press_line_def)
qed

lemma late_rejection_ends_session_witness:
  "\<exists>y s. sat_reachable (wired demo_sat) y \<and>
     handleLine ''ADD-DEVICE ERROR MESSAGE=taken'' (sy_sat y) = Some (s, []) \<and> \<not> sa_open s 0"
proof -
  obtain y where y: "sat_reachable (wired demo_sat) y" "sy_phase y = Live 0" using demo_live by blast
  have "parseSatelliteLine ''ADD-DEVICE ERROR MESSAGE=taken'' =
      (''ADD-DEVICE'', [(''ERROR'', ''''), (''MESSAGE'', ''taken'')])" by code_simp
  from late_rejection_ends_session [OF y this, of 0 True] y(1) show ?thesis by auto
qed

section \<open>The surface a configuration registers\<close>

text \<open>What \<open>run\<close> (cmd/cuebooth-server/main.go) makes of the configuration's section.\<close>

definition sat_config_of :: "satellite_section \<Rightarrow> sat_config" where
  "sat_config_of s = \<lparr>sc_Addr = ss_Addr s, sc_DeviceID = ss_DeviceID s, sc_ProductName = '''',
     sc_Rows = ss_Rows s, sc_Cols = ss_Cols s, sc_BitmapSize = ss_BitmapSize s\<rparr>"

text \<open>
  A validated surface registers a positive grid whose key count has not wrapped, and a bitmap
  size in range; with both dimensions given the grid has at most 256 keys.  A dimension of zero
  passes validation as a product of zero and is then replaced by its default, so the bound on
  what is registered is 2048 keys.
\<close>
lemma registered_surface_bound:
  assumes "SatelliteConfig_validate s = None" and "\<not> SatelliteConfig_Disabled s"
    and "c = sat_defaults (sat_config_of s)"
  shows "0 < sc_Rows c \<and> 0 < sc_Cols c \<and> keysTotal c = sc_Rows c * sc_Cols c \<and> keysTotal c \<le> 2048 \<and>
    (ss_Rows s \<noteq> 0 \<and> ss_Cols s \<noteq> 0 \<longrightarrow> keysTotal c \<le> maxSatelliteKeys) \<and>
    5 \<le> sc_BitmapSize c \<and> sc_BitmapSize c \<le> maxSatelliteBitmapSize"
proof -
  note v = SatelliteConfig_validated [OF assms(1,2)]
  have dims: "0 < sc_Rows c" "0 < sc_Cols c" "sc_Rows c \<le> 256" "sc_Cols c \<le> 256" "sc_Rows c * sc_Cols c \<le> 2048"
    using v by (auto simp: assms(3) sat_defaults_def sat_config_of_def DefaultSatRows_def DefaultSatCols_def
        maxSatelliteKeys_def split: if_splits)
  have lo: "0 \<le> sc_Rows c * sc_Cols c" using dims by (intro mult_nonneg_nonneg) auto
  have "minInt64 \<le> sc_Rows c * sc_Cols c" by (rule order_trans [OF _ lo]) (simp add: minInt64_def)
  with dims(5) have "in_int64 (sc_Rows c * sc_Cols c)" by (simp add: in_int64_def maxInt64_def)
  then have "keysTotal c = sc_Rows c * sc_Cols c" by (simp add: keysTotal_def wrap64_id)
  with dims v show ?thesis
    by (auto simp: assms(3) sat_defaults_def sat_config_of_def maxSatelliteKeys_def DefaultSatBitmapSize_def
        maxSatelliteBitmapSize_def split: if_splits)
qed

text \<open>The bound of 256 keys that validation means to give does not hold for what is registered.\<close>

definition tall_section :: satellite_section where
  "tall_section = \<lparr>ss_Addr = '''', ss_DeviceID = '''', ss_Rows = 256, ss_Cols = 0, ss_BitmapSize = 0\<rparr>"

lemma tall_section_valid: "SatelliteConfig_validate tall_section = None \<and> \<not> SatelliteConfig_Disabled tall_section"
  by code_simp

lemma zero_dimension_escapes_bound:
  "SatelliteConfig_validate tall_section = None \<and> \<not> SatelliteConfig_Disabled tall_section \<and>
   keysTotal (sat_defaults (sat_config_of tall_section)) = 2048 \<and> maxSatelliteKeys = 256"
  using tall_section_valid
  by (simp add: tall_section_def sat_defaults_def sat_config_of_def keysTotal_def wrap64_def DefaultSatCols_def maxSatelliteKeys_def)

lemma registered_surface_bound_witness:
  "keysTotal (sat_defaults (sat_config_of tall_section)) \<le> 2048"
  using registered_surface_bound [OF _ _ refl] tall_section_valid by blast

end
