(* ===== verification/Connection.thy ===== *)
theory Connection
  imports SendQueue Store Dispatch Satellite
begin

text \<open>
  The server's side of a connected client: \<open>clientConn\<close> (server/internal/api/client.go), \<open>hub\<close>
  (hub.go), \<open>surfaceManager\<close> (surface.go) and the parts of \<open>Server\<close> they call (server.go).
  A handler is a list of sections, each of which is what the code does under one acquisition of
  its locks; \<open>ServerModel\<close> interleaves the sections of all goroutines.  Message texts that
  embed an error value are left empty.
\<close>

section \<open>A connection\<close>

record conn =
  cn_send :: "frame send_queue"
  cn_topics :: "string \<Rightarrow> bool"
  cn_closing :: bool
  cn_closeCode :: int
  cn_closeReason :: string
  cn_graceful :: bool
  cn_heldSurfaceKeys :: "int set"

definition allTopicsSet :: "string \<Rightarrow> bool" where
  "allTopicsSet t \<longleftrightarrow> t \<in> set Topics"

definition validTopic :: "string \<Rightarrow> bool" where
  "validTopic t \<longleftrightarrow> t \<in> set Topics"

definition newClientConn :: conn where
  "newClientConn = \<lparr>cn_send = newSendQueue, cn_topics = allTopicsSet, cn_closing = False,
     cn_closeCode = 0, cn_closeReason = '''', cn_graceful = False, cn_heldSurfaceKeys = {}\<rparr>"

definition StatusNormalClosure :: int where "StatusNormalClosure = 1000"
definition StatusGoingAway :: int where "StatusGoingAway = 1001"
definition StatusAbnormalClosure :: int where "StatusAbnormalClosure = 1006"
definition StatusInvalidFramePayloadData :: int where "StatusInvalidFramePayloadData = 1007"
definition StatusPolicyViolation :: int where "StatusPolicyViolation = 1008"

text \<open>The first close wins.\<close>

definition conn_close :: "int \<Rightarrow> string \<Rightarrow> bool \<Rightarrow> conn \<Rightarrow> conn" where
  "conn_close code reason graceful c =
     (if cn_closing c then c
      else c\<lparr>cn_closing := True, cn_closeCode := code, cn_closeReason := reason, cn_graceful := graceful\<rparr>)"

definition closeInfo :: "conn \<Rightarrow> int \<times> string \<times> bool" where
  "closeInfo c = (cn_closeCode c, cn_closeReason c, cn_graceful c)"

definition conn_enqueue :: "frame \<Rightarrow> conn \<Rightarrow> conn" where
  "conn_enqueue f c =
     (let (q, ok) = pushOther f (cn_send c) in
      if ok then c\<lparr>cn_send := q\<rparr>
      else conn_close StatusPolicyViolation ''client send buffer full'' False (c\<lparr>cn_send := q\<rparr>))"

definition enqueueSurfaceKey :: "int \<Rightarrow> int \<Rightarrow> frame \<Rightarrow> conn \<Rightarrow> conn" where
  "enqueueSurfaceKey key seq f c = c\<lparr>cn_send := pushSurfaceKey key seq f (cn_send c)\<rparr>"

definition enqueueSurfaceLayout :: "int \<Rightarrow> frame \<Rightarrow> conn \<Rightarrow> conn" where
  "enqueueSurfaceLayout seq f c = c\<lparr>cn_send := pushSurfaceLayout seq f (cn_send c)\<rparr>"

definition scopePatch :: "jobj \<Rightarrow> conn \<Rightarrow> jobj option" where
  "scopePatch patch c = FilterTopics patch (cn_topics c)"

definition set_topics :: "bool \<Rightarrow> string list \<Rightarrow> conn \<Rightarrow> conn" where
  "set_topics subscribe ts c = c\<lparr>cn_topics := (\<lambda>t. if t \<in> set ts then subscribe else cn_topics c t)\<rparr>"

definition trackSurfaceHold :: "int \<Rightarrow> bool \<Rightarrow> conn \<Rightarrow> conn" where
  "trackSurfaceHold key pressed c =
     c\<lparr>cn_heldSurfaceKeys :=
        (if pressed then insert key (cn_heldSurfaceKeys c) else cn_heldSurfaceKeys c - {key})\<rparr>"

section \<open>The hub\<close>

record hub =
  hub_clients :: "nat set"
  hub_conns :: "nat \<Rightarrow> conn"

definition on_conn :: "nat \<Rightarrow> (conn \<Rightarrow> conn) \<Rightarrow> hub \<Rightarrow> hub" where
  "on_conn i f h = h\<lparr>hub_conns := (hub_conns h)(i := f (hub_conns h i))\<rparr>"

definition hub_add :: "nat \<Rightarrow> hub \<Rightarrow> hub" where
  "hub_add i h = h\<lparr>hub_clients := insert i (hub_clients h)\<rparr>"

definition hub_remove :: "nat \<Rightarrow> hub \<Rightarrow> hub" where
  "hub_remove i h = h\<lparr>hub_clients := hub_clients h - {i}\<rparr>"

text \<open>
  A range over the clients that does the same to each: they do not share state, so the order of
  the range does not matter.
\<close>

definition for_clients :: "(conn \<Rightarrow> conn) \<Rightarrow> hub \<Rightarrow> hub" where
  "for_clients f h = h\<lparr>hub_conns := (\<lambda>i. if i \<in> hub_clients h then f (hub_conns h i) else hub_conns h i)\<rparr>"

definition broadcastDelta :: "int \<Rightarrow> jobj \<Rightarrow> hub \<Rightarrow> hub" where
  "broadcastDelta r patch =
     for_clients (\<lambda>c. case scopePatch patch c of
                        None \<Rightarrow> c
                      | Some part \<Rightarrow> conn_enqueue (StateDeltaFrame r (Some part)) c)"

definition broadcastSurfaceKey :: "int \<Rightarrow> int \<Rightarrow> frame \<Rightarrow> hub \<Rightarrow> hub" where
  "broadcastSurfaceKey key seq f = for_clients (enqueueSurfaceKey key seq f)"

definition broadcastSurfaceLayout :: "int \<Rightarrow> frame \<Rightarrow> hub \<Rightarrow> hub" where
  "broadcastSurfaceLayout seq f = for_clients (enqueueSurfaceLayout seq f)"

definition closeAll :: "string \<Rightarrow> hub \<Rightarrow> hub" where
  "closeAll reason = for_clients (conn_close StatusGoingAway reason False)"

section \<open>The surface manager\<close>

record surface_manager =
  sm_rows :: int
  sm_cols :: int
  sm_bitmapSize :: int
  sm_seq :: int
  sm_keys :: "(int, surface_key_frame) gomap"

definition newSurfaceManager :: "satellite \<Rightarrow> surface_manager" where
  "newSurfaceManager sat =
     (let (rows, cols, b) = sat_Layout sat
      in \<lparr>sm_rows = rows, sm_cols = cols, sm_bitmapSize = b, sm_seq = 0, sm_keys = []\<rparr>)"

text \<open>A broadcast a callback makes after releasing the manager's lock.\<close>

datatype broadcast = BKey int int frame | BLayout int frame

definition layout_of :: "surface_manager \<Rightarrow> frame" where
  "layout_of m = SurfaceLayoutFrame \<lparr>slf_rows = sm_rows m, slf_cols = sm_cols m, slf_seq = sm_seq m,
     slf_bitmap_size = sm_bitmapSize m\<rparr>"

definition onLayout :: "int \<Rightarrow> int \<Rightarrow> int \<Rightarrow> surface_manager \<Rightarrow> surface_manager \<times> broadcast option" where
  "onLayout rows cols b m =
     (let m' = m\<lparr>sm_rows := rows, sm_cols := cols, sm_bitmapSize := b, sm_keys := []\<rparr>
      in (m', Some (BLayout (sm_seq m') (layout_of m'))))"

definition keyCount :: "surface_manager \<Rightarrow> int" where
  "keyCount m = wrap64 (sm_rows m * sm_cols m)"

definition inBounds :: "surface_manager \<Rightarrow> int \<Rightarrow> bool" where
  "inBounds m key \<longleftrightarrow> 0 \<le> key \<and> key < keyCount m"

definition onKey :: "satellite_key \<Rightarrow> surface_manager \<Rightarrow> surface_manager \<times> broadcast option" where
  "onKey k m =
     (if \<not> inBounds m (sk_Key k) then (m, None)
      else
        let s = sm_seq m + 1;
            f = \<lparr>skf_key = sk_Key k, skf_seq = s,
                 skf_row = (if sm_cols m > 0 then sk_Key k div sm_cols m else 0),
                 skf_col = (if sm_cols m > 0 then sk_Key k mod sm_cols m else 0),
                 skf_key_type = sk_Type k, skf_pressed = sk_Pressed k, skf_color = sk_Color k,
                 skf_bitmap = sk_BitmapBase64 k\<rparr>
        in (m\<lparr>sm_seq := s, sm_keys := gm_put (sk_Key k) f (sm_keys m)\<rparr>,
            Some (BKey (sk_Key k) s (SurfaceKeyFrame f))))"

definition onClear :: "surface_manager \<Rightarrow> surface_manager \<times> broadcast option" where
  "onClear m = (let m' = m\<lparr>sm_keys := []\<rparr> in (m', Some (BLayout (sm_seq m') (layout_of m'))))"

fun surface_event :: "sat_event \<Rightarrow> surface_manager \<Rightarrow> surface_manager \<times> broadcast option" where
  "surface_event (EvKey k) m = onKey k m"
| "surface_event (EvLayout r c b) m = onLayout r c b m"
| "surface_event EvClear m = onClear m"

fun deliver :: "broadcast \<Rightarrow> hub \<Rightarrow> hub" where
  "deliver (BKey k s f) h = broadcastSurfaceKey k s f h"
| "deliver (BLayout s f) h = broadcastSurfaceLayout s f h"

definition sendInitial :: "surface_manager \<Rightarrow> conn \<Rightarrow> conn" where
  "sendInitial m c =
     fold (\<lambda>(_, f) c. enqueueSurfaceKey (skf_key f) (skf_seq f) (SurfaceKeyFrame f) c) (sm_keys m)
       (enqueueSurfaceLayout (sm_seq m) (layout_of m) c)"

section \<open>The server\<close>

text \<open>
  \<open>sv_presses\<close> is the log of surface presses handed to the satellite: client, key, state, and
  whether it was accepted.
\<close>

record server =
  sv_cfg :: config
  sv_store :: "hub store"
  sv_hub :: hub
  sv_surface :: "surface_manager option"
  sv_version :: string
  sv_serverID :: string
  sv_presses :: "(nat \<times> int \<times> bool \<times> bool) list"

definition delta_observer :: "update_result \<Rightarrow> hub \<Rightarrow> hub" where
  "delta_observer r = broadcastDelta (ur_rev r) (or_empty (ur_patch r))"

definition newHub :: hub where
  "newHub = \<lparr>hub_clients = {}, hub_conns = (\<lambda>_. newClientConn)\<rparr>"

definition NewServer :: "config \<Rightarrow> string \<Rightarrow> string \<Rightarrow> satellite option \<Rightarrow> server" where
  "NewServer cfg version sid sat =
     \<lparr>sv_cfg = cfg, sv_store = SetObserver delta_observer NewStore, sv_hub = newHub,
      sv_surface = map_option newSurfaceManager sat,
      sv_version = (if version = '''' then ''0.1.0'' else version), sv_serverID = sid, sv_presses = []\<rparr>"

definition applyState :: "mutator \<Rightarrow> server \<Rightarrow> server" where
  "applyState mutate s =
     (let (st, h, _) = Update mutate (sv_store s) (sv_hub s) in s\<lparr>sv_store := st, sv_hub := h\<rparr>)"

definition sendSnapshot :: "nat \<Rightarrow> bool \<Rightarrow> server \<Rightarrow> server" where
  "sendSnapshot i add_to_hub s =
     s\<lparr>sv_hub := SnapshotInto (cn_topics (hub_conns (sv_hub s) i))
        (\<lambda>r data h. (let h' = on_conn i (conn_enqueue (StateFrame r data)) h
                     in if add_to_hub then hub_add i h' else h'))
        (sv_store s) (sv_hub s)\<rparr>"

text \<open>\<open>surfaceManager.press\<close>; \<open>accepts\<close> is what \<open>Satellite.Press\<close> answers.\<close>

definition surface_press :: "(int \<Rightarrow> bool) \<Rightarrow> nat \<Rightarrow> int \<Rightarrow> bool \<Rightarrow> server \<Rightarrow> server \<times> bool" where
  "surface_press accepts i key pressed s =
     (case sv_surface s of
        None \<Rightarrow> (s, True)
      | Some m \<Rightarrow>
          if \<not> inBounds m key then (s, True)
          else (s\<lparr>sv_presses := sv_presses s @ [(i, key, pressed, accepts key)]\<rparr>, accepts key))"

definition on_server_conn :: "nat \<Rightarrow> (conn \<Rightarrow> conn) \<Rightarrow> server \<Rightarrow> server" where
  "on_server_conn i f s = s\<lparr>sv_hub := on_conn i f (sv_hub s)\<rparr>"

definition surface_unavailable :: frame where
  "surface_unavailable = EventFrame ''warn'' ''surface'' ''Companion surface unavailable''"

definition do_surface_press :: "(int \<Rightarrow> bool) \<Rightarrow> nat \<Rightarrow> int \<Rightarrow> bool \<Rightarrow> server \<Rightarrow> server" where
  "do_surface_press accepts i key pressed s =
     (case sv_surface s of
        None \<Rightarrow> s
      | Some m \<Rightarrow>
          if \<not> inBounds m key then s
          else
            let s1 = (if pressed then on_server_conn i (trackSurfaceHold key True) s else s);
                (s2, ok) = surface_press accepts i key pressed s1
            in if \<not> ok then on_server_conn i (conn_enqueue surface_unavailable) s2
               else if \<not> pressed then on_server_conn i (trackSurfaceHold key False) s2
               else s2)"

definition releaseHeldSurfaceKeys :: "(int \<Rightarrow> bool) \<Rightarrow> nat \<Rightarrow> server \<Rightarrow> server" where
  "releaseHeldSurfaceKeys accepts i s =
     (if sv_surface s = None then s
      else
        let held = sorted_list_of_set (cn_heldSurfaceKeys (hub_conns (sv_hub s) i));
            s1 = on_server_conn i (\<lambda>c. c\<lparr>cn_heldSurfaceKeys := {}\<rparr>) s
        in fold (\<lambda>key s. fst (surface_press accepts i key False s)) held s1)"

section \<open>Handlers\<close>

text \<open>
  A section takes its locks once, except \<open>SurfacePress\<close> and \<open>ReleaseHeld\<close>: those take the
  satellite's and the client's one after the other, but what they read and write in between, the
  keys the client holds, belongs to the goroutine that runs them.
\<close>

datatype locked =
    Enqueue frame
  | CloseConn int string bool
  | Apply mutator
  | HubRemove
  | SetTopics bool "string list"
  | TakeSnapshot bool
  | ReplaySurface
  | SurfacePress int bool
  | ReleaseHeld

fun exec :: "(int \<Rightarrow> bool) \<Rightarrow> nat \<Rightarrow> locked \<Rightarrow> server \<Rightarrow> server" where
  "exec accepts i (Enqueue f) s = on_server_conn i (conn_enqueue f) s"
| "exec accepts i (CloseConn code reason graceful) s = on_server_conn i (conn_close code reason graceful) s"
| "exec accepts i (Apply f) s = applyState f s"
| "exec accepts i HubRemove s = s\<lparr>sv_hub := hub_remove i (sv_hub s)\<rparr>"
| "exec accepts i (SetTopics sub ts) s = on_server_conn i (set_topics sub ts) s"
| "exec accepts i (TakeSnapshot add_to_hub) s = sendSnapshot i add_to_hub s"
| "exec accepts i ReplaySurface s =
     (case sv_surface s of None \<Rightarrow> s | Some m \<Rightarrow> on_server_conn i (sendInitial m) s)"
| "exec accepts i (SurfacePress key pressed) s = do_surface_press accepts i key pressed s"
| "exec accepts i ReleaseHeld s = releaseHeldSurfaceKeys accepts i s"

definition protocol_error :: "string \<Rightarrow> locked list" where
  "protocol_error msg = [Enqueue (ErrorFrame codeProtocol msg)]"

text \<open>The presses a command makes come with the sections: dispatch precedes them.\<close>

definition handleCmd :: "config \<Rightarrow> (location \<Rightarrow> bool) \<Rightarrow> rjson option \<Rightarrow> location list \<times> locked list" where
  "handleCmd cfg press_ok data =
     (case decode_cmd data of
        None \<Rightarrow> ([], protocol_error ''cmd requires id and target'')
      | Some f \<Rightarrow>
          if cf_id f = '''' \<or> cf_target f = '''' then ([], protocol_error ''cmd requires id and target'')
          else (case Dispatch cfg press_ok f of
                  (ps, Inl code) \<Rightarrow> (ps, [Enqueue (NakFrame (cf_id f) code '''')])
                | (ps, Inr mutate) \<Rightarrow>
                    (ps, Enqueue (AckFrame (cf_id f)) # (case mutate of Some g \<Rightarrow> [Apply g] | None \<Rightarrow> []))))"

definition handleSurfacePress :: "bool \<Rightarrow> rjson option \<Rightarrow> locked list" where
  "handleSurfacePress has_surface data =
     (case decode_surface_press data of
        None \<Rightarrow> protocol_error ''surface-press requires key and pressed''
      | Some f \<Rightarrow>
          (case (spf_key f, spf_pressed f) of
             (Some key, Some pressed) \<Rightarrow>
               if \<not> has_surface
               then [Enqueue (EventFrame ''warn'' ''surface'' ''no Companion surface configured'')]
               else [SurfacePress key pressed]
           | _ \<Rightarrow> protocol_error ''surface-press requires key and pressed''))"

definition handleSubscription :: "bool \<Rightarrow> rjson option \<Rightarrow> bool \<Rightarrow> locked list" where
  "handleSubscription has_surface data subscribe =
     (case decode_subscribe data of
        None \<Rightarrow> protocol_error (''malformed '' @ (if subscribe then ''subscribe'' else ''unsubscribe'') @ '' frame'')
      | Some f \<Rightarrow>
          (case find (\<lambda>t. \<not> validTopic t) (sub_topics f) of
             Some t \<Rightarrow> [Enqueue (ErrorFrame codeUnknownTopic (''unknown topic: '' @ t))]
           | None \<Rightarrow>
               [HubRemove, SetTopics subscribe (sub_topics f), TakeSnapshot True] @
               (if has_surface then [ReplaySurface] else [])))"

definition handlePing :: "rjson option \<Rightarrow> locked list" where
  "handlePing data =
     (case decode_ping data of
        None \<Rightarrow> protocol_error ''ping requires id''
      | Some f \<Rightarrow> if pf_id f = '''' then protocol_error ''ping requires id'' else [Enqueue (PongFrame (pf_id f))])"

definition handle :: "config \<Rightarrow> bool \<Rightarrow> (location \<Rightarrow> bool) \<Rightarrow> rjson option \<Rightarrow> location list \<times> locked list" where
  "handle cfg has_surface press_ok data =
     (case decode_envelope data of
        None \<Rightarrow> ([], protocol_error ''malformed JSON frame'' @
                   [CloseConn StatusInvalidFramePayloadData ''malformed frame'' True])
      | Some typ \<Rightarrow>
          if typ = ''cmd'' then handleCmd cfg press_ok data
          else if typ = ''subscribe'' then ([], handleSubscription has_surface data True)
          else if typ = ''unsubscribe'' then ([], handleSubscription has_surface data False)
          else if typ = ''get_state'' then ([], [TakeSnapshot False])
          else if typ = ''surface-press'' then ([], handleSurfacePress has_surface data)
          else if typ = ''ping'' then ([], handlePing data)
          else ([], []))"

text \<open>The parts of \<open>run\<close> around the read loop: joining, and what is left when reading ended.\<close>

definition run_start :: "server \<Rightarrow> locked list" where
  "run_start s =
     [Enqueue (HelloFrame ProtoVersion (sv_version s) (sv_serverID s)), TakeSnapshot True] @
     (if sv_surface s \<noteq> None then [ReplaySurface] else [])"

definition run_end :: "locked list" where
  "run_end = [CloseConn StatusNormalClosure ''connection closed'' False, ReleaseHeld, HubRemove]"

section \<open>Elementary facts\<close>

lemma conn_close_simps [simp]:
  "cn_send (conn_close code reason g c) = cn_send c" "cn_topics (conn_close code reason g c) = cn_topics c"
  "cn_heldSurfaceKeys (conn_close code reason g c) = cn_heldSurfaceKeys c" "cn_closing (conn_close code reason g c)"
  by (simp_all add: conn_close_def)

lemma conn_enqueue_simps [simp]:
  "cn_topics (conn_enqueue f c) = cn_topics c" "cn_heldSurfaceKeys (conn_enqueue f c) = cn_heldSurfaceKeys c"
  by (simp_all add: conn_enqueue_def split: prod.split)

lemma conn_enqueue_open:
  assumes "sq_ok (cn_send c)"
  shows "sq_ok (cn_send (conn_enqueue f c))" "surface_frames (cn_send (conn_enqueue f c)) = surface_frames (cn_send c)"
    "\<not> cn_closing (conn_enqueue f c) \<Longrightarrow>
       \<not> cn_closing c \<and> sq_state (cn_send (conn_enqueue f c)) = sq_state (cn_send c) @ [f]"
    "cn_closing c \<Longrightarrow> cn_closing (conn_enqueue f c)"
    "set (sq_state (cn_send (conn_enqueue f c))) \<subseteq> insert f (set (sq_state (cn_send c)))"
  using sq.push_other_ok [OF assms, of f] sq.push_other_lanes [OF assms, of f]
  by (auto simp: conn_enqueue_def Let_def split: prod.splits if_splits)

lemma surface_push_simps [simp]:
  "cn_topics (enqueueSurfaceKey k s f c) = cn_topics c" "cn_closing (enqueueSurfaceKey k s f c) = cn_closing c"
  "cn_heldSurfaceKeys (enqueueSurfaceKey k s f c) = cn_heldSurfaceKeys c"
  "cn_topics (enqueueSurfaceLayout s f c) = cn_topics c" "cn_closing (enqueueSurfaceLayout s f c) = cn_closing c"
  "cn_heldSurfaceKeys (enqueueSurfaceLayout s f c) = cn_heldSurfaceKeys c"
  by (simp_all add: enqueueSurfaceKey_def enqueueSurfaceLayout_def)

end
