(* ===== verification/ServerModel.thy ===== *)
theory ServerModel
  imports Connection
begin

text \<open>
  The server as a whole: every goroutine's locked sections interleaved.  A client's read
  goroutine has the sections it still has to run (\<open>wd_todo\<close>); its write goroutine pops and
  delivers; pollers update the store; the satellite's reader raises one callback after the
  other, and what a callback broadcasts after releasing the manager's lock is \<open>wd_inflight\<close>.
  \<open>wd_got\<close> is what a client has received, and \<open>wd_synced\<close> the clients that had the surface
  replayed since they joined the hub.
\<close>

section \<open>The system\<close>

datatype cphase = Absent | Serving | Ending

record world =
  wd_server :: server
  wd_todo :: "nat \<Rightarrow> locked list"
  wd_phase :: "nat \<Rightarrow> cphase"
  wd_got :: "nat \<Rightarrow> frame list"
  wd_next :: nat
  wd_inflight :: "broadcast option"
  wd_synced :: "nat set"

abbreviation w_conn :: "world \<Rightarrow> nat \<Rightarrow> conn" where
  "w_conn w i \<equiv> hub_conns (sv_hub (wd_server w)) i"

abbreviation w_queue :: "world \<Rightarrow> nat \<Rightarrow> frame send_queue" where
  "w_queue w i \<equiv> cn_send (w_conn w i)"

abbreviation w_members :: "world \<Rightarrow> nat set" where
  "w_members w \<equiv> hub_clients (sv_hub (wd_server w))"

definition start_world :: "server \<Rightarrow> world" where
  "start_world s = \<lparr>wd_server = s, wd_todo = (\<lambda>_. []), wd_phase = (\<lambda>_. Absent), wd_got = (\<lambda>_. []),
     wd_next = 0, wd_inflight = None, wd_synced = {}\<rparr>"

definition advance :: "(int \<Rightarrow> bool) \<Rightarrow> nat \<Rightarrow> locked \<Rightarrow> locked list \<Rightarrow> world \<Rightarrow> world" where
  "advance accepts i sec rest w =
     (let s' = exec accepts i sec (wd_server w) in
      w\<lparr>wd_server := s', wd_todo := (wd_todo w)(i := rest),
        wd_synced := (case sec of
            HubRemove \<Rightarrow> wd_synced w - {i}
          | ReplaySurface \<Rightarrow> if i \<in> hub_clients (sv_hub s') then insert i (wd_synced w) else wd_synced w
          | _ \<Rightarrow> wd_synced w)\<rparr>)"

definition with_conn :: "nat \<Rightarrow> (conn \<Rightarrow> conn) \<Rightarrow> world \<Rightarrow> world" where
  "with_conn i f w = w\<lparr>wd_server := on_server_conn i f (wd_server w)\<rparr>"

text \<open>The layout a satellite announces is the one it was built with.\<close>

definition event_ok :: "sat_event \<Rightarrow> surface_manager \<Rightarrow> bool" where
  "event_ok ev m \<longleftrightarrow> (\<forall>r c b. ev = EvLayout r c b \<longrightarrow> r = sm_rows m \<and> c = sm_cols m \<and> b = sm_bitmapSize m)"

inductive srv_step :: "world \<Rightarrow> world \<Rightarrow> bool" where
  connects: "i = wd_next w \<Longrightarrow>
    srv_step w (w\<lparr>wd_todo := (wd_todo w)(i := run_start (wd_server w)), wd_phase := (wd_phase w)(i := Serving),
                  wd_next := Suc i\<rparr>)"
| runs: "wd_todo w i = sec # rest \<Longrightarrow> srv_step w (advance accepts i sec rest w)"
| receives: "wd_phase w i = Serving \<Longrightarrow> wd_todo w i = [] \<Longrightarrow> \<not> cn_closing (w_conn w i) \<Longrightarrow>
    handle (sv_cfg (wd_server w)) (sv_surface (wd_server w) \<noteq> None) press_ok data = (ps, secs) \<Longrightarrow>
    srv_step w (w\<lparr>wd_todo := (wd_todo w)(i := secs)\<rparr>)"
| read_ends: "wd_phase w i = Serving \<Longrightarrow> wd_todo w i = [] \<Longrightarrow>
    srv_step w (w\<lparr>wd_todo := (wd_todo w)(i := run_end), wd_phase := (wd_phase w)(i := Ending)\<rparr>)"
| writes: "pop (w_queue w i) = (q, Some f) \<Longrightarrow>
    srv_step w ((with_conn i (\<lambda>c. c\<lparr>cn_send := q\<rparr>) w)\<lparr>wd_got := (wd_got w)(i := wd_got w i @ [f])\<rparr>)"
| write_fails: "pop (w_queue w i) = (q, Some f) \<Longrightarrow>
    srv_step w (with_conn i (\<lambda>c. conn_close StatusAbnormalClosure ''write failed'' False (c\<lparr>cn_send := q\<rparr>)) w)"
| fails: "srv_step w (with_conn i (conn_close StatusGoingAway reason False) w)"
| stops: "srv_step w (w\<lparr>wd_server := (wd_server w)\<lparr>sv_hub := closeAll ''server shutting down'' (sv_hub (wd_server w))\<rparr>\<rparr>)"
| polls: "mutator_ok f \<Longrightarrow> srv_step w (w\<lparr>wd_server := applyState f (wd_server w)\<rparr>)"
| event: "wd_inflight w = None \<Longrightarrow> sv_surface (wd_server w) = Some m \<Longrightarrow> event_ok ev m \<Longrightarrow>
    surface_event ev m = (m', b) \<Longrightarrow>
    srv_step w (w\<lparr>wd_server := (wd_server w)\<lparr>sv_surface := Some m'\<rparr>, wd_inflight := b\<rparr>)"
| broadcasts: "wd_inflight w = Some b \<Longrightarrow>
    srv_step w (w\<lparr>wd_server := (wd_server w)\<lparr>sv_hub := deliver b (sv_hub (wd_server w))\<rparr>, wd_inflight := None\<rparr>)"

inductive srv_reachable :: "server \<Rightarrow> world \<Rightarrow> bool" for s where
  srv_start: "srv_reachable s (start_world s)"
| srv_next: "srv_reachable s w \<Longrightarrow> srv_step w w' \<Longrightarrow> srv_reachable s w'"

section \<open>What a client makes of the state frames\<close>

fun see_state :: "json \<Rightarrow> frame \<Rightarrow> json" where
  "see_state v (StateFrame r d) = JObj (or_empty d)"
| "see_state v (StateDeltaFrame r p) = applyMergePatch v (JObj (or_empty p))"
| "see_state v _ = v"

definition state_view :: "frame list \<Rightarrow> json" where
  "state_view fs = foldl see_state (JObj []) fs"

text \<open>Reads a frame of the surface stream off the wire.\<close>

fun frame_dec :: "frame \<Rightarrow> frame surface_frame option" where
  "frame_dec (SurfaceKeyFrame f) = Some (key_frame (skf_key f) (skf_seq f) (SurfaceKeyFrame f))"
| "frame_dec (SurfaceLayoutFrame f) = Some (layout_frame (slf_seq f) (SurfaceLayoutFrame f))"
| "frame_dec _ = None"

text \<open>Frames of neither stream: acks, naks, pongs, errors, events, and the server's own hello.\<close>

definition control_frame :: "frame \<Rightarrow> bool" where
  "control_frame f \<longleftrightarrow> frame_dec f = None \<and> (\<forall>v. see_state v f = v) \<and>
     (\<forall>p v i. f = HelloFrame p v i \<longrightarrow> p = ProtoVersion)"

lemma control_frame_simps [simp]:
  "control_frame (HelloFrame ProtoVersion b c)" "control_frame (AckFrame i)" "control_frame (NakFrame i e m)"
  "control_frame (PongFrame i)" "control_frame (ErrorFrame e m)" "control_frame (EventFrame a b m)"
  by (simp_all add: control_frame_def)

section \<open>Sections a goroutine may have left to run\<close>

text \<open>
  Handlers enqueue control frames only, apply well-behaved mutators only, and change a
  client's topics only while it is out of the hub (\<open>m\<close>: whether it is in).
\<close>

fun todo_ok :: "bool \<Rightarrow> locked list \<Rightarrow> bool" where
  "todo_ok m [] = True"
| "todo_ok m (Enqueue f # r) = (control_frame f \<and> todo_ok m r)"
| "todo_ok m (Apply f # r) = (mutator_ok f \<and> todo_ok m r)"
| "todo_ok m (SetTopics sub ts # r) = (\<not> m \<and> todo_ok m r)"
| "todo_ok m (HubRemove # r) = todo_ok False r"
| "todo_ok m (TakeSnapshot a # r) = todo_ok (m \<or> a) r"
| "todo_ok m (_ # r) = todo_ok m r"

lemma protocol_error_todo [simp]: "todo_ok m (protocol_error msg)"
  by (simp add: protocol_error_def)

lemma handleCmd_todo:
  assumes "Presets_validate (cfg_Presets cfg) = None" "handleCmd cfg press_ok data = (ps, secs)"
  shows "todo_ok m secs"
proof -
  have "mutator_ok f" if "Dispatch cfg press_ok c = (ps', Inr (Some f))" for c ps' f
    using Dispatch_ok [OF assms(1), of press_ok c] that by (simp add: dispatch_ok_def mutator_ok_def)
  with assms(2) show ?thesis
    by (auto simp: handleCmd_def split: option.splits if_splits prod.splits sum.splits)
qed

lemma handle_todo:
  assumes "Presets_validate (cfg_Presets cfg) = None" "handle cfg surf press_ok data = (ps, secs)"
  shows "todo_ok m secs"
  using assms(2) handleCmd_todo [OF assms(1)]
  by (auto simp: handle_def handleSubscription_def handleSurfacePress_def handlePing_def protocol_error_def
      split: option.splits if_splits)

lemma run_start_todo: "todo_ok m (run_start s)"
  by (simp add: run_start_def)

lemma run_end_todo: "todo_ok m run_end"
  by (simp add: run_end_def)

section \<open>Operations that do not touch the state stream\<close>

text \<open>\<open>c'\<close> is \<open>c\<close> with at most control frames queued, surface frames queued, or closed.\<close>

definition harmless :: "conn \<Rightarrow> conn \<Rightarrow> bool" where
  "harmless c c' \<longleftrightarrow> sq_ok (cn_send c') \<and> cn_topics c' = cn_topics c \<and>
     (\<not> cn_closing c' \<longrightarrow> \<not> cn_closing c \<and>
       (\<exists>fs. list_all control_frame fs \<and> sq_state (cn_send c') = sq_state (cn_send c) @ fs))"

lemma harmless_refl: "sq_ok (cn_send c) \<Longrightarrow> harmless c c"
  by (auto simp: harmless_def intro: exI [of _ "[]"])

lemma harmless_trans: "harmless a b \<Longrightarrow> harmless b c \<Longrightarrow> harmless a c"
  by (fastforce simp: harmless_def)

lemma harmless_enqueue: "sq_ok (cn_send c) \<Longrightarrow> control_frame f \<Longrightarrow> harmless c (conn_enqueue f c)"
  using conn_enqueue_open [of c f] by (auto simp: harmless_def intro: exI [of _ "[f]"])

lemma harmless_close: "sq_ok (cn_send c) \<Longrightarrow> harmless c (conn_close code reason g c)"
  by (simp add: harmless_def)

lemma harmless_surface:
  assumes "sq_ok (cn_send c)"
  shows "harmless c (enqueueSurfaceKey k s f c)" "harmless c (enqueueSurfaceLayout s f c)"
proof -
  show "harmless c (enqueueSurfaceKey k s f c)"
    using sq.push_key_ok [OF assms] sq.push_key_lanes [OF assms]
    by (auto simp: harmless_def enqueueSurfaceKey_def intro: exI [of _ "[]"])
  show "harmless c (enqueueSurfaceLayout s f c)"
    using sq.push_layout_ok [OF assms] sq.push_layout_lanes [OF assms]
    by (auto simp: harmless_def enqueueSurfaceLayout_def intro: exI [of _ "[]"])
qed

lemma harmless_ok: "harmless c c' \<Longrightarrow> sq_ok (cn_send c')"
  by (simp add: harmless_def)

lemma harmless_sendInitial:
  assumes "sq_ok (cn_send c)"
  shows "harmless c (sendInitial m c)"
proof -
  have keys: "harmless c' (fold (\<lambda>(_, f) c. enqueueSurfaceKey (skf_key f) (skf_seq f) (SurfaceKeyFrame f) c) ks c')"
    if "sq_ok (cn_send c')" for c' and ks :: "(int \<times> surface_key_frame) list"
    using that
  proof (induction ks arbitrary: c')
    case (Cons e ks)
    obtain k f where e: "e = (k, f)" by (cases e)
    let ?c = "enqueueSurfaceKey (skf_key f) (skf_seq f) (SurfaceKeyFrame f) c'"
    have h: "harmless c' ?c" by (rule harmless_surface [OF Cons.prems])
    from Cons.IH [OF harmless_ok [OF h]] h show ?case by (auto simp: e intro: harmless_trans)
  qed (simp add: harmless_refl)
  have l: "harmless c (enqueueSurfaceLayout (sm_seq m) (layout_of m) c)" by (rule harmless_surface [OF assms])
  from harmless_trans [OF l keys [OF harmless_ok [OF l]]] show ?thesis by (simp add: sendInitial_def)
qed

definition harmless_server :: "server \<Rightarrow> server \<Rightarrow> bool" where
  "harmless_server s s' \<longleftrightarrow> sv_store s' = sv_store s \<and> sv_cfg s' = sv_cfg s \<and>
     hub_clients (sv_hub s') = hub_clients (sv_hub s) \<and>
     (\<forall>i. harmless (hub_conns (sv_hub s) i) (hub_conns (sv_hub s') i))"

lemma harmless_server_conns: "harmless_server s s' \<Longrightarrow> sq_ok (cn_send (hub_conns (sv_hub s') i))"
  by (auto simp: harmless_server_def dest: harmless_ok)

lemma harmless_server_trans: "harmless_server a b \<Longrightarrow> harmless_server b c \<Longrightarrow> harmless_server a c"
  by (auto simp: harmless_server_def intro: harmless_trans)

lemma harmless_on_conn:
  assumes "\<And>j. sq_ok (cn_send (hub_conns (sv_hub s) j))" "harmless (hub_conns (sv_hub s) i) (f (hub_conns (sv_hub s) i))"
  shows "harmless_server s (on_server_conn i f s)"
  using assms by (auto simp: harmless_server_def on_server_conn_def on_conn_def harmless_refl)

lemma harmless_same_hub:
  assumes "\<And>j. sq_ok (cn_send (hub_conns (sv_hub s) j))" "sv_hub s' = sv_hub s" "sv_store s' = sv_store s" "sv_cfg s' = sv_cfg s"
  shows "harmless_server s s'"
  using assms by (auto simp: harmless_server_def harmless_refl)

lemma harmless_for_clients:
  assumes "\<And>j. sq_ok (cn_send (hub_conns (sv_hub s) j))" "\<And>c. sq_ok (cn_send c) \<Longrightarrow> harmless c (f c)"
  shows "harmless_server s (s\<lparr>sv_hub := for_clients f (sv_hub s)\<rparr>)"
  using assms by (auto simp: harmless_server_def for_clients_def harmless_refl)

lemma harmless_held: "sq_ok (cn_send c) \<Longrightarrow> harmless c (c\<lparr>cn_heldSurfaceKeys := X\<rparr>)"
  by (auto simp: harmless_def intro: exI [of _ "[]"])

lemma surface_press_hub: "sv_hub (fst (surface_press a i k p s)) = sv_hub s" "sv_store (fst (surface_press a i k p s)) = sv_store s"
  "sv_cfg (fst (surface_press a i k p s)) = sv_cfg s" "sv_surface (fst (surface_press a i k p s)) = sv_surface s"
  by (auto simp: surface_press_def split: option.splits)

lemma harmless_surface_press:
  assumes "\<And>j. sq_ok (cn_send (hub_conns (sv_hub s) j))"
  shows "harmless_server s (do_surface_press a i k p s)"
proof (cases "\<exists>m. sv_surface s = Some m \<and> inBounds m k")
  case False
  then show ?thesis
    by (auto simp: do_surface_press_def split: option.split intro: harmless_same_hub [OF assms])
next
  case True
  let ?s1 = "if p then on_server_conn i (trackSurfaceHold k True) s else s"
  have h1: "harmless_server s ?s1"
    using assms by (auto intro!: harmless_on_conn harmless_same_hub simp: trackSurfaceHold_def harmless_held)
  obtain s2 ok where p2: "surface_press a i k p ?s1 = (s2, ok)" by force
  have h2: "harmless_server s s2"
    using harmless_server_trans [OF h1 harmless_same_hub [OF harmless_server_conns [OF h1]]]
      surface_press_hub [of a i k p ?s1] by (simp add: p2)
  note ok2 = harmless_server_conns [OF h2]
  have "harmless_server s (on_server_conn i (conn_enqueue surface_unavailable) s2)"
      "harmless_server s (on_server_conn i (trackSurfaceHold k False) s2)"
    using ok2 by (auto intro!: harmless_server_trans [OF h2] harmless_on_conn harmless_enqueue
        simp: surface_unavailable_def trackSurfaceHold_def harmless_held)
  with h2 True p2 show ?thesis by (cases p) (auto simp: do_surface_press_def Let_def)
qed

lemma harmless_release:
  assumes "\<And>j. sq_ok (cn_send (hub_conns (sv_hub s) j))"
  shows "harmless_server s (releaseHeldSurfaceKeys a i s)"
proof -
  have keys: "harmless_server t (fold (\<lambda>key s. fst (surface_press a i key False s)) ks t)"
    if "\<And>j. sq_ok (cn_send (hub_conns (sv_hub t) j))" for t and ks :: "int list"
    using that
  proof (induction ks arbitrary: t)
    case (Cons k ks)
    have h: "harmless_server t (fst (surface_press a i k False t))"
      by (rule harmless_same_hub [OF Cons.prems]) (simp_all add: surface_press_hub)
    from harmless_server_trans [OF h Cons.IH [OF harmless_server_conns [OF h]]] show ?case by simp
  qed (simp add: harmless_same_hub)
  have h: "harmless_server s (on_server_conn i (\<lambda>c. c\<lparr>cn_heldSurfaceKeys := {}\<rparr>) s)"
    using assms by (intro harmless_on_conn harmless_held) auto
  from harmless_server_trans [OF h keys [OF harmless_server_conns [OF h]]] harmless_same_hub [OF assms] show ?thesis
    by (auto simp: releaseHeldSurfaceKeys_def Let_def)
qed

section \<open>The state stream\<close>

definition server_ok :: "server \<Rightarrow> bool" where
  "server_ok s \<longleftrightarrow> store_ok (sv_store s) \<and> so_observer (sv_store s) = Some delta_observer \<and>
     Presets_validate (cfg_Presets (sv_cfg s)) = None \<and> (\<forall>i. sq_ok (cn_send (hub_conns (sv_hub s) i)))"

text \<open>What client \<open>i\<close> will hold of the state once it has drained its queue.\<close>

definition state_synced :: "server \<Rightarrow> (nat \<Rightarrow> frame list) \<Rightarrow> nat \<Rightarrow> bool" where
  "state_synced s got i \<longleftrightarrow>
     (let c = hub_conns (sv_hub s) i in
      \<not> cn_closing c \<longrightarrow> state_view (got i @ sq_state (cn_send c)) = snapshot_object (cn_topics c) (sv_store s))"

definition state_inv :: "server \<Rightarrow> (nat \<Rightarrow> frame list) \<Rightarrow> (nat \<Rightarrow> locked list) \<Rightarrow> bool" where
  "state_inv s got todo \<longleftrightarrow> server_ok s \<and>
     (\<forall>i. todo_ok (i \<in> hub_clients (sv_hub s)) (todo i)) \<and>
     (\<forall>i \<in> hub_clients (sv_hub s). state_synced s got i)"

lemma state_view_append: "state_view (xs @ ys) = foldl see_state (state_view xs) ys"
  by (simp add: state_view_def)

lemma foldl_control: "list_all control_frame fs \<Longrightarrow> foldl see_state v fs = v"
  by (induction fs arbitrary: v) (auto simp: control_frame_def)

lemma synced_harmless:
  assumes "state_synced s got i" "harmless (hub_conns (sv_hub s) i) (hub_conns (sv_hub s') i)" "sv_store s' = sv_store s"
  shows "state_synced s' got i"
proof -
  let ?c = "hub_conns (sv_hub s) i" and ?c' = "hub_conns (sv_hub s') i"
  have "state_view (got i @ sq_state (cn_send ?c')) = snapshot_object (cn_topics ?c') (sv_store s')"
    if open': "\<not> cn_closing ?c'"
  proof -
    obtain fs where fs: "\<not> cn_closing ?c" "list_all control_frame fs" "sq_state (cn_send ?c') = sq_state (cn_send ?c) @ fs"
      using assms(2) open' by (auto simp: harmless_def)
    have "state_view (got i @ sq_state (cn_send ?c')) = state_view (got i @ sq_state (cn_send ?c))"
      using foldl_control [OF fs(2)] by (simp add: fs(3) state_view_append)
    with assms fs(1) show ?thesis by (simp add: state_synced_def Let_def harmless_def)
  qed
  then show ?thesis by (simp add: state_synced_def Let_def)
qed

lemma state_inv_harmless:
  assumes "state_inv s got todo" "harmless_server s s'" "\<And>i. todo_ok (i \<in> hub_clients (sv_hub s)) (todo' i)"
  shows "state_inv s' got todo'"
  using assms synced_harmless [of s got _ s'] harmless_server_conns [OF assms(2)]
  by (auto simp: state_inv_def server_ok_def harmless_server_def)

lemma state_inv_same_todo: "state_inv s got todo \<Longrightarrow> harmless_server s s' \<Longrightarrow> state_inv s' got todo"
  using state_inv_harmless [of s got todo s' todo] by (simp add: state_inv_def)

lemma server_ok_conns: "server_ok s \<Longrightarrow> sq_ok (cn_send (hub_conns (sv_hub s) i))"
  by (simp add: server_ok_def)

text \<open>An update reaches every client in the hub as the delta scoped to its topics.\<close>

lemma broadcastDelta_conn:
  assumes "i \<in> hub_clients h" "sq_ok (cn_send (hub_conns h i))"
  shows "let c = hub_conns h i; c' = hub_conns (broadcastDelta r patch h) i in
    sq_ok (cn_send c') \<and> cn_topics c' = cn_topics c \<and>
    (\<not> cn_closing c' \<longrightarrow> \<not> cn_closing c \<and>
      foldl see_state v (sq_state (cn_send c')) =
        (if scopePatch patch c = None then foldl see_state v (sq_state (cn_send c))
         else applyMergePatch (foldl see_state v (sq_state (cn_send c))) (JObj (scoped (cn_topics c) patch))))"
  using assms conn_enqueue_open [OF assms(2)]
  by (auto simp: broadcastDelta_def for_clients_def Let_def scopePatch_def split: option.splits)

lemma broadcastDelta_other: "i \<notin> hub_clients h \<Longrightarrow> hub_conns (broadcastDelta r patch h) i = hub_conns h i"
  by (simp add: broadcastDelta_def for_clients_def)

lemma broadcastDelta_clients: "hub_clients (broadcastDelta r patch h) = hub_clients h"
  by (simp add: broadcastDelta_def for_clients_def)

lemma snapshot_object_cong: "so_cur a = so_cur b \<Longrightarrow> snapshot_object t a = snapshot_object t b"
  by (simp add: snapshot_object_def Snapshot_def)

lemma state_inv_apply:
  assumes inv: "state_inv s got todo" and f: "mutator_ok f"
  shows "state_inv (applyState f s) got todo"
proof -
  have ok: "store_ok (sv_store s)" "so_observer (sv_store s) = Some delta_observer" "\<And>i. sq_ok (cn_send (hub_conns (sv_hub s) i))"
    using inv by (auto simp: state_inv_def server_ok_def)
  from ok(1) f show ?thesis
  proof (cases rule: Update_cases [of "sv_store s" f "sv_hub s"])
    case (failed st)
    have "state_synced (applyState f s) got i = state_synced s got i" for i
      using failed snapshot_object_cong [of st "sv_store s"] by (simp add: state_synced_def applyState_def)
    with failed inv ok show ?thesis by (auto simp: state_inv_def server_ok_def applyState_def)
  next
    case (unchanged st)
    have "state_synced (applyState f s) got i = state_synced s got i" for i
      using unchanged snapshot_object_cong [of st "sv_store s"] by (simp add: state_synced_def applyState_def)
    with unchanged inv ok show ?thesis by (auto simp: state_inv_def server_ok_def applyState_def)
  next
    case (changed st nxt patch)
    let ?h = "broadcastDelta (so_rev (sv_store s) + 1) patch (sv_hub s)"
    have s': "applyState f s = s\<lparr>sv_store := st, sv_hub := ?h\<rparr>"
      using changed ok(2) by (simp add: applyState_def delta_observer_def)
    have conns: "sq_ok (cn_send (hub_conns ?h i))" for i
      using broadcastDelta_conn [of i "sv_hub s"] broadcastDelta_other [of i "sv_hub s"] ok(3)
      by (cases "i \<in> hub_clients (sv_hub s)") (auto simp: Let_def)
    have good: "obj_wf (so_cur (sv_store s))" "obj_wf nxt" "obj_null_free nxt"
      using ok(1) changed(4,8) by (auto simp: store_ok_def)
    have wf: "gm_wf (so_cur (sv_store s))" "gm_wf patch"
      using good(1) diff_wf [of "so_cur (sv_store s)" nxt] changed(5) by auto
    have merged: "applyMergePatch (snapshot_object t (sv_store s)) (JObj (scoped t patch)) = snapshot_object t st" for t
      using merge_diff [OF good] changed(4,5) wf
      by (simp add: snapshot_object_def Snapshot_def merge_obj merge_scoped)
    have same: "snapshot_object t st = snapshot_object t (sv_store s)" if "FilterTopics patch t = None" for t
      using merged [of t] that by (simp add: snapshot_object_def merge_obj)
    have "state_synced (applyState f s) got i" if i: "i \<in> hub_clients (sv_hub s)" for i
    proof -
      let ?c = "hub_conns (sv_hub s) i" and ?v = "state_view (got i)"
      have old: "\<not> cn_closing ?c \<Longrightarrow> foldl see_state ?v (sq_state (cn_send ?c)) = snapshot_object (cn_topics ?c) (sv_store s)"
        using inv i by (auto simp: state_inv_def state_synced_def Let_def state_view_append)
      note b = broadcastDelta_conn [OF i ok(3), of "so_rev (sv_store s) + 1" patch ?v, unfolded Let_def]
      show ?thesis
        using b old merged [of "cn_topics ?c"] same [of "cn_topics ?c"]
        by (auto simp: s' state_synced_def Let_def state_view_append scopePatch_def split: if_splits)
    qed
    with inv ok changed conns show ?thesis
      by (auto simp: state_inv_def server_ok_def s' broadcastDelta_clients)
  qed
qed

lemma state_inv_snapshot:
  assumes inv: "state_inv s got todo" and next_ok: "todo_ok (i \<in> hub_clients (sv_hub s) \<or> a) rest"
  shows "state_inv (sendSnapshot i a s) got (todo(i := rest))"
proof -
  let ?c = "hub_conns (sv_hub s) i"
  let ?f = "StateFrame (so_rev (sv_store s)) (FilterTopics (so_cur (sv_store s)) (cn_topics ?c))"
  have ok: "sq_ok (cn_send ?c)" using inv by (simp add: state_inv_def server_ok_def)
  have s': "sendSnapshot i a s = s\<lparr>sv_hub := (if a then hub_add i else (\<lambda>h. h)) (on_conn i (conn_enqueue ?f) (sv_hub s))\<rparr>"
    by (simp add: sendSnapshot_def SnapshotInto_def Let_def)
  have self: "state_synced (sendSnapshot i a s) got i"
    using conn_enqueue_open(3) [OF ok, of ?f]
    by (auto simp: state_synced_def s' hub_add_def on_conn_def Let_def state_view_append snapshot_object_def Snapshot_def)
  have other: "state_synced (sendSnapshot i a s) got j = state_synced s got j" if "j \<noteq> i" for j
    using that by (auto simp: state_synced_def s' hub_add_def on_conn_def Let_def)
  have conns: "sq_ok (cn_send (hub_conns (sv_hub (sendSnapshot i a s)) j))" for j
    using inv conn_enqueue_open(1) [OF ok, of ?f] by (auto simp: state_inv_def server_ok_def s' hub_add_def on_conn_def)
  have clients: "hub_clients (sv_hub (sendSnapshot i a s)) = (if a then insert i (hub_clients (sv_hub s)) else hub_clients (sv_hub s))"
    by (simp add: s' hub_add_def on_conn_def)
  have rest: "sv_store (sendSnapshot i a s) = sv_store s" "sv_cfg (sendSnapshot i a s) = sv_cfg s"
    by (simp_all add: s')
  have "state_synced (sendSnapshot i a s) got j" if "j \<in> hub_clients (sv_hub (sendSnapshot i a s))" for j
    using that self other [of j] inv by (cases "j = i") (auto simp: clients state_inv_def split: if_splits)
  with inv conns next_ok show ?thesis
    by (auto simp: state_inv_def server_ok_def rest clients)
qed

lemma state_inv_remove:
  assumes "state_inv s got todo" "todo_ok False rest"
  shows "state_inv (s\<lparr>sv_hub := hub_remove i (sv_hub s)\<rparr>) got (todo(i := rest))"
  using assms by (auto simp: state_inv_def server_ok_def hub_remove_def state_synced_def)

lemma state_inv_topics:
  assumes "state_inv s got todo" "i \<notin> hub_clients (sv_hub s)" "todo_ok False rest"
  shows "state_inv (on_server_conn i (set_topics sub ts) s) got (todo(i := rest))"
  using assms by (auto simp: state_inv_def server_ok_def on_server_conn_def on_conn_def set_topics_def state_synced_def)

text \<open>Every section, run at the head of a goroutine's list, keeps the invariant.\<close>

lemma state_inv_exec:
  assumes inv: "state_inv s got todo" and hd: "todo i = sec # rest"
  shows "state_inv (exec accepts i sec s) got (todo(i := rest))"
proof -
  have t: "todo_ok (i \<in> hub_clients (sv_hub s)) (sec # rest)" using inv hd unfolding state_inv_def by metis
  have ok: "\<And>j. sq_ok (cn_send (hub_conns (sv_hub s) j))" using inv by (simp add: state_inv_def server_ok_def)
  have by_harmless: "state_inv s' got (todo(i := rest))"
    if "harmless_server s s'" "todo_ok (i \<in> hub_clients (sv_hub s)) rest" for s'
    using inv that by (intro state_inv_harmless [OF inv]) (auto simp: state_inv_def)
  show ?thesis
  proof (cases sec)
    case (Enqueue f)
    with t ok show ?thesis by (auto intro!: by_harmless harmless_on_conn harmless_enqueue)
  next
    case (CloseConn code reason g)
    with t ok show ?thesis by (auto intro!: by_harmless harmless_on_conn harmless_close)
  next
    case (Apply f)
    with t have "mutator_ok f" "todo_ok (i \<in> hub_clients (sv_hub s)) rest" by auto
    then have "state_inv s got (todo(i := rest))" using inv by (auto simp: state_inv_def)
    with \<open>mutator_ok f\<close> Apply show ?thesis by (simp add: state_inv_apply)
  next
    case HubRemove
    with t show ?thesis by (simp add: state_inv_remove [OF inv])
  next
    case (SetTopics sub ts)
    with t have "i \<notin> hub_clients (sv_hub s)" "todo_ok False rest" by auto
    from state_inv_topics [OF inv this] SetTopics show ?thesis by simp
  next
    case (TakeSnapshot a)
    with t show ?thesis by (simp add: state_inv_snapshot [OF inv])
  next
    case ReplaySurface
    with t ok show ?thesis
      by (cases "sv_surface s") (auto intro!: by_harmless harmless_on_conn harmless_sendInitial harmless_same_hub)
  next
    case (SurfacePress key pressed)
    with t ok show ?thesis by (auto intro!: by_harmless harmless_surface_press)
  next
    case ReleaseHeld
    with t ok show ?thesis by (auto intro!: by_harmless harmless_release)
  qed
qed

section \<open>Every step keeps the state stream\<close>

abbreviation w_state_inv :: "world \<Rightarrow> bool" where
  "w_state_inv w \<equiv> state_inv (wd_server w) (wd_got w) (wd_todo w)"

lemma pop_cases:
  assumes "sq_ok q" "pop q = (q', Some f)"
  obtains (state_frame) "sq_state q = f # sq_state q'" "surface_frames q' = surface_frames q" "sq_ok q'"
  | (surface_frame) g where "sq_state q = []" "sq_state q' = []" "surface_frames q = g # surface_frames q'" "f = sf_data g" "sq_ok q'"
  using sq.pop_lanes [OF assms(1)] sq.pop_ok [OF assms(1)] assms(2)
  by (cases "sq_state q"; cases "surface_frames q") auto

text \<open>Frames of the surface lane are no state frames.\<close>

definition lane_wired :: "frame send_queue \<Rightarrow> bool" where
  "lane_wired q \<longleftrightarrow> (\<forall>g \<in> set (surface_frames q). frame_dec (sf_data g) = Some g)"

lemma dec_not_state: "frame_dec f = Some g \<Longrightarrow> see_state v f = v"
  by (cases f) auto

lemma state_inv_write:
  assumes inv: "state_inv s got todo" and p: "pop (cn_send (hub_conns (sv_hub s) i)) = (q, Some f)"
    and wired: "lane_wired (cn_send (hub_conns (sv_hub s) i))"
  shows "state_inv (on_server_conn i (\<lambda>c. c\<lparr>cn_send := q\<rparr>) s) (got(i := got i @ [f])) todo"
proof -
  let ?q = "cn_send (hub_conns (sv_hub s) i)"
  have ok: "sq_ok ?q" using inv by (simp add: state_inv_def server_ok_def)
  have view: "state_view (got i @ f # sq_state q) = state_view (got i @ sq_state ?q) \<and> sq_ok q"
    using ok p
  proof (cases rule: pop_cases)
    case (surface_frame g)
    then have "frame_dec f = Some g" using wired by (simp add: lane_wired_def)
    with surface_frame dec_not_state [of f g] show ?thesis by (simp add: state_view_append)
  qed simp
  then show ?thesis
    using inv by (auto simp: state_inv_def server_ok_def on_server_conn_def on_conn_def state_synced_def Let_def)
qed

lemma state_inv_closed_conn:
  assumes inv: "state_inv s got todo" and "sq_ok (cn_send (f (hub_conns (sv_hub s) i)))" "cn_closing (f (hub_conns (sv_hub s) i))"
  shows "state_inv (on_server_conn i f s) got todo"
  using assms by (auto simp: state_inv_def server_ok_def on_server_conn_def on_conn_def state_synced_def Let_def)

lemma state_inv_step:
  assumes step: "srv_step w w'" and inv: "w_state_inv w" and wired: "\<And>i. lane_wired (w_queue w i)"
  shows "w_state_inv w'"
  using step
proof cases
  case (connects i)
  with inv show ?thesis by (simp add: state_inv_def run_start_todo)
next
  case (runs i sec rest accepts)
  then show ?thesis using state_inv_exec [OF inv runs(2)] by (simp add: advance_def Let_def)
next
  case (receives i press_ok data ps secs)
  have "todo_ok m secs" for m
    using inv handle_todo receives(5) by (auto simp: state_inv_def server_ok_def)
  with receives(1) inv show ?thesis by (auto simp: state_inv_def)
next
  case (read_ends i)
  with inv show ?thesis by (simp add: state_inv_def run_end_todo)
next
  case (writes i q f)
  from state_inv_write [OF inv writes(2) wired] writes(1) show ?thesis by (simp add: with_conn_def)
next
  case (write_fails i q f)
  have "sq_ok (w_queue w i)" using inv by (simp add: state_inv_def server_ok_def)
  then have "sq_ok q" using sq.pop_ok [of "w_queue w i"] write_fails(2) by simp
  then show ?thesis
    unfolding write_fails(1) with_conn_def by (simp add: state_inv_closed_conn [OF inv])
next
  case (fails i reason)
  have "sq_ok (w_queue w i)" using inv by (simp add: state_inv_def server_ok_def)
  then show ?thesis unfolding fails with_conn_def by (simp add: state_inv_closed_conn [OF inv])
next
  case stops
  have "harmless_server (wd_server w) ((wd_server w)\<lparr>sv_hub := closeAll ''server shutting down'' (sv_hub (wd_server w))\<rparr>)"
    unfolding closeAll_def
    using inv by (intro harmless_for_clients harmless_close) (auto simp: state_inv_def server_ok_def)
  from state_inv_same_todo [OF inv this] stops show ?thesis by simp
next
  case (polls f)
  then show ?thesis by (simp add: state_inv_apply [OF inv])
next
  case (event m ev m' b)
  have "harmless_server (wd_server w) ((wd_server w)\<lparr>sv_surface := Some m'\<rparr>)"
    using inv by (intro harmless_same_hub) (auto simp: state_inv_def server_ok_def)
  from state_inv_same_todo [OF inv this] event(1) show ?thesis by simp
next
  case (broadcasts b)
  have "harmless_server (wd_server w) ((wd_server w)\<lparr>sv_hub := deliver b (sv_hub (wd_server w))\<rparr>)"
    using inv by (cases b)
      (auto simp: broadcastSurfaceKey_def broadcastSurfaceLayout_def state_inv_def server_ok_def
        intro!: harmless_for_clients harmless_surface)
  from state_inv_same_todo [OF inv this] broadcasts(1) show ?thesis by simp
qed

section \<open>The surface stream\<close>

text \<open>What client \<open>i\<close> will show of the surface once it has drained its queue.\<close>

definition surface_view_of :: "frame list \<Rightarrow> frame send_queue \<Rightarrow> frame surface_view" where
  "surface_view_of got q = apply_frames (client_view frame_dec got) (surface_frames q)"

text \<open>What the manager caches, as a client would hold it.\<close>

definition cached_keys :: "surface_manager \<Rightarrow> int \<Rightarrow> (int \<times> frame) option" where
  "cached_keys m k = map_option (\<lambda>f. (skf_seq f, SurfaceKeyFrame f)) (gm_get (sm_keys m) k)"

definition layout_matches :: "surface_manager \<Rightarrow> frame option \<Rightarrow> bool" where
  "layout_matches m l \<longleftrightarrow> (\<exists>f. l = Some (SurfaceLayoutFrame f) \<and> slf_rows f = sm_rows m \<and>
     slf_cols f = sm_cols m \<and> slf_bitmap_size f = sm_bitmapSize m)"

definition shows_surface :: "surface_manager \<Rightarrow> frame surface_view \<Rightarrow> bool" where
  "shows_surface m v \<longleftrightarrow> sv_keys v = cached_keys m \<and> layout_matches m (sv_layout v)"

text \<open>The effect on a client of a broadcast still to be made.\<close>

fun apply_broadcast :: "broadcast option \<Rightarrow> frame surface_view \<Rightarrow> frame surface_view" where
  "apply_broadcast None v = v"
| "apply_broadcast (Some (BKey k s f)) v = applyKey k s f v"
| "apply_broadcast (Some (BLayout s f)) v = applyLayout s f v"

definition manager_ok :: "surface_manager \<Rightarrow> bool" where
  "manager_ok m \<longleftrightarrow> gm_wf (sm_keys m) \<and> (\<forall>(k, f) \<in> set (sm_keys m). skf_key f = k \<and> skf_seq f \<le> sm_seq m)"

fun broadcast_ok :: "surface_manager \<Rightarrow> broadcast option \<Rightarrow> bool" where
  "broadcast_ok m None = True"
| "broadcast_ok m (Some (BKey k s f)) =
     (s = sm_seq m \<and> (\<exists>fr. f = SurfaceKeyFrame fr \<and> skf_seq fr = s \<and> gm_get (sm_keys m) k = Some fr))"
| "broadcast_ok m (Some (BLayout s f)) = (s = sm_seq m \<and> sm_keys m = [] \<and> f = layout_of m)"

text \<open>What every connection keeps: its frames decode, and none is ahead of the manager.\<close>

definition conn_surface_ok :: "surface_manager \<Rightarrow> frame list \<Rightarrow> conn \<Rightarrow> bool" where
  "conn_surface_ok m got c \<longleftrightarrow> sq_ok (cn_send c) \<and> lane_wired (cn_send c) \<and>
     (\<forall>f \<in> set (sq_state (cn_send c)). frame_dec f = None) \<and>
     (\<forall>g \<in> set (surface_frames (cn_send c)). sf_seq g \<le> sm_seq m) \<and>
     (\<not> cn_closing c \<longrightarrow> (\<forall>k s d. sv_keys (surface_view_of got (cn_send c)) k = Some (s, d) \<longrightarrow> s \<le> sm_seq m))"

lemma client_view_append_frame:
  "client_view frame_dec (got @ [f]) =
     (case frame_dec f of None \<Rightarrow> client_view frame_dec got | Some g \<Rightarrow> apply_frame (client_view frame_dec got) g)"
  by (simp add: client_view_def List.map_filter_def split: option.splits)

text \<open>Delivering a popped frame leaves the drained view as it was.\<close>

lemma view_deliver:
  assumes "conn_surface_ok m got c" "pop (cn_send c) = (q, Some f)"
  shows "surface_view_of (got @ [f]) q = surface_view_of got (cn_send c)"
    "conn_surface_ok m (got @ [f]) (c\<lparr>cn_send := q\<rparr>)"
proof -
  have ok: "sq_ok (cn_send c)" using assms(1) by (simp add: conn_surface_ok_def)
  have *: "surface_view_of (got @ [f]) q = surface_view_of got (cn_send c) \<and> sq_ok q \<and>
      set (surface_frames q) \<subseteq> set (surface_frames (cn_send c)) \<and> set (sq_state q) \<subseteq> set (sq_state (cn_send c))"
    using ok assms(2)
  proof (cases rule: pop_cases)
    case state_frame
    then have "frame_dec f = None" using assms(1) by (auto simp: conn_surface_ok_def)
    with state_frame show ?thesis by (auto simp: surface_view_of_def client_view_append_frame)
  next
    case (surface_frame g)
    then have "frame_dec f = Some g" using assms(1) by (auto simp: conn_surface_ok_def lane_wired_def)
    with surface_frame show ?thesis by (auto simp: surface_view_of_def client_view_append_frame)
  qed
  then show "surface_view_of (got @ [f]) q = surface_view_of got (cn_send c)" by simp
  from * assms(1) show "conn_surface_ok m (got @ [f]) (c\<lparr>cn_send := q\<rparr>)"
    by (auto simp: conn_surface_ok_def lane_wired_def subset_iff)
qed

lemma held_bound:
  "conn_surface_ok m got c \<Longrightarrow> \<not> cn_closing c \<Longrightarrow> sv_keys (surface_view_of got (cn_send c)) k = Some (s, d) \<Longrightarrow> s \<le> sm_seq m"
  unfolding conn_surface_ok_def by metis

text \<open>Pushing a surface frame is applying it to the drained view.\<close>

lemma push_key_view:
  assumes "conn_surface_ok m got c" "frame_dec f = Some (key_frame k s f)" "s \<le> sm_seq m"
  shows "surface_view_of got (cn_send (enqueueSurfaceKey k s f c)) = applyKey k s f (surface_view_of got (cn_send c))"
    "conn_surface_ok m got (enqueueSurfaceKey k s f c)"
proof -
  have ok: "sq_ok (cn_send c)" using assms(1) by (simp add: conn_surface_ok_def)
  note l = sq.push_key_lanes [OF ok, of k s f]
  show v: "surface_view_of got (cn_send (enqueueSurfaceKey k s f c)) = applyKey k s f (surface_view_of got (cn_send c))"
    by (simp add: surface_view_of_def enqueueSurfaceKey_def sq.view_push_key [OF ok])
  have "\<forall>g \<in> set (surface_frames (pushSurfaceKey k s f (cn_send c))). frame_dec (sf_data g) = Some g \<and> sf_seq g \<le> sm_seq m"
    using l assms put_key_set by (fastforce simp: conn_surface_ok_def lane_wired_def)
  moreover have "s' \<le> sm_seq m"
    if "\<not> cn_closing c" "sv_keys (applyKey k s f (surface_view_of got (cn_send c))) k' = Some (s', d)" for k' s' d
    using that(2) assms(3) held_bound [OF assms(1) that(1)]
    by (auto simp: applyKey_def split: option.splits if_splits)
  ultimately show "conn_surface_ok m got (enqueueSurfaceKey k s f c)"
    using assms(1) l sq.push_key_ok [OF ok] v
    by (auto simp: conn_surface_ok_def enqueueSurfaceKey_def lane_wired_def)
qed

lemma push_layout_view:
  assumes "conn_surface_ok m got c" "frame_dec f = Some (layout_frame (sm_seq m) f)"
  shows "surface_view_of got (cn_send (enqueueSurfaceLayout (sm_seq m) f c)) =
      applyLayout (sm_seq m) f (surface_view_of got (cn_send c))"
    "conn_surface_ok m got (enqueueSurfaceLayout (sm_seq m) f c)"
proof -
  let ?s = "sm_seq m"
  have ok: "sq_ok (cn_send c)" using assms(1) by (simp add: conn_surface_ok_def)
  have bound: "\<forall>g \<in> set (surface_frames (cn_send c)). sf_layout g \<longrightarrow> sf_seq g \<le> ?s"
    using assms(1) by (simp add: conn_surface_ok_def)
  note l = sq.push_layout_lanes [OF ok, of ?s f]
  show v: "surface_view_of got (cn_send (enqueueSurfaceLayout ?s f c)) = applyLayout ?s f (surface_view_of got (cn_send c))"
    by (simp add: surface_view_of_def enqueueSurfaceLayout_def sq.view_push_layout [OF ok bound])
  have "\<forall>g \<in> set (surface_frames (pushSurfaceLayout ?s f (cn_send c))). frame_dec (sf_data g) = Some g \<and> sf_seq g \<le> ?s"
    using l assms put_layout_set by (fastforce simp: conn_surface_ok_def lane_wired_def)
  moreover have "s' \<le> ?s"
    if "\<not> cn_closing c" "sv_keys (applyLayout ?s f (surface_view_of got (cn_send c))) k' = Some (s', d)" for k' s' d
    using that(2) held_bound [OF assms(1) that(1)]
    by (auto simp: applyLayout_def split: option.splits if_splits)
  ultimately show "conn_surface_ok m got (enqueueSurfaceLayout ?s f c)"
    using assms(1) l sq.push_layout_ok [OF ok] v
    by (auto simp: conn_surface_ok_def enqueueSurfaceLayout_def lane_wired_def)
qed

text \<open>A layout at the manager's sequence drops every key a client holds.\<close>

lemma rebaseline_view:
  assumes "conn_surface_ok m got c" "\<not> cn_closing c"
  shows "sv_keys (applyLayout (sm_seq m) f (surface_view_of got (cn_send c))) = (\<lambda>_. None)"
  using held_bound [OF assms] by (auto simp: applyLayout_def fun_eq_iff split: option.splits)

abbreviation replay_key :: "int \<times> surface_key_frame \<Rightarrow> conn \<Rightarrow> conn" where
  "replay_key \<equiv> \<lambda>(_, f) c. enqueueSurfaceKey (skf_key f) (skf_seq f) (SurfaceKeyFrame f) c"

lemma replay_key_view:
  assumes "conn_surface_ok m got c" "skf_key f = k" "skf_seq f \<le> sm_seq m"
  shows "surface_view_of got (cn_send (replay_key (k, f) c)) = applyKey k (skf_seq f) (SurfaceKeyFrame f) (surface_view_of got (cn_send c))"
    "conn_surface_ok m got (replay_key (k, f) c)"
  using push_key_view [of m got c "SurfaceKeyFrame f" k "skf_seq f"] assms by auto

lemma fold_keys_closing: "cn_closing (fold replay_key ks c) = cn_closing c"
proof (induction ks arbitrary: c)
  case (Cons e ks)
  then show ?case by (cases e) simp
qed simp

lemma fold_keys_ok:
  assumes "conn_surface_ok m got c" "\<forall>(k, f) \<in> set ks. skf_key f = k \<and> skf_seq f \<le> sm_seq m"
  shows "conn_surface_ok m got (fold replay_key ks c)"
  using assms
proof (induction ks arbitrary: c)
  case (Cons e ks)
  then show ?case using replay_key_view(2) [of m got c "snd e" "fst e"] by (cases e) auto
qed simp

lemma fold_keys_view:
  assumes "conn_surface_ok m got c" "distinct (map fst ks)" "\<forall>(k, f) \<in> set ks. skf_key f = k \<and> skf_seq f \<le> sm_seq m"
    and "\<forall>k \<in> fst ` set ks. sv_keys (surface_view_of got (cn_send c)) k = None"
  shows "sv_layout (surface_view_of got (cn_send (fold replay_key ks c))) = sv_layout (surface_view_of got (cn_send c)) \<and>
    sv_keys (surface_view_of got (cn_send (fold replay_key ks c))) =
      (\<lambda>k. case map_of ks k of Some f \<Rightarrow> Some (skf_seq f, SurfaceKeyFrame f)
           | None \<Rightarrow> sv_keys (surface_view_of got (cn_send c)) k)"
  using assms
proof (induction ks arbitrary: c)
  case (Cons e ks)
  obtain k f where e: "e = (k, f)" by (cases e)
  let ?c = "replay_key (k, f) c"
  have f: "skf_key f = k" "skf_seq f \<le> sm_seq m" using Cons.prems(3) by (auto simp: e)
  note pk = replay_key_view [OF Cons.prems(1) f]
  have none: "sv_keys (surface_view_of got (cn_send c)) k = None" using Cons.prems(4) by (simp add: e)
  have v: "sv_keys (surface_view_of got (cn_send ?c)) = (sv_keys (surface_view_of got (cn_send c)))(k \<mapsto> (skf_seq f, SurfaceKeyFrame f))"
      "sv_layout (surface_view_of got (cn_send ?c)) = sv_layout (surface_view_of got (cn_send c))"
    unfolding pk(1) using none by (simp_all add: applyKey_def)
  have k: "k \<notin> fst ` set ks" using Cons.prems(2) by (simp add: e)
  then have "map_of ks k = None" by (simp add: map_of_eq_None_iff)
  moreover have "\<forall>k' \<in> fst ` set ks. sv_keys (surface_view_of got (cn_send ?c)) k' = None"
    using Cons.prems(4) k unfolding v(1) by (auto simp: e)
  note Cons.IH [OF pk(2) _ _ this]
  ultimately show ?case
    using Cons.prems(2,3) unfolding v by (auto simp: e fun_eq_iff split: option.splits)
qed simp

text \<open>A replay brings any client to the manager's surface.\<close>

lemma sendInitial_view:
  assumes "conn_surface_ok m got c" "manager_ok m"
  shows "conn_surface_ok m got (sendInitial m c)"
    "\<not> cn_closing c \<Longrightarrow> shows_surface m (surface_view_of got (cn_send (sendInitial m c)))"
proof -
  let ?c = "enqueueSurfaceLayout (sm_seq m) (layout_of m) c"
  have dec: "frame_dec (layout_of m) = Some (layout_frame (sm_seq m) (layout_of m))" by (simp add: layout_of_def)
  note pl = push_layout_view [OF assms(1) dec]
  have ks: "distinct (map fst (sm_keys m))" "\<forall>(k, f) \<in> set (sm_keys m). skf_key f = k \<and> skf_seq f \<le> sm_seq m"
    using assms(2) by (auto simp: manager_ok_def gm_wf_distinct)
  show "conn_surface_ok m got (sendInitial m c)" using fold_keys_ok [OF pl(2) ks(2)] by (simp add: sendInitial_def)
  assume "\<not> cn_closing c"
  then have none: "sv_keys (surface_view_of got (cn_send ?c)) = (\<lambda>_. None)"
    unfolding pl(1) by (rule rebaseline_view [OF assms(1)])
  have lay: "sv_layout (surface_view_of got (cn_send ?c)) = Some (layout_of m)" by (simp add: pl(1) applyLayout_def)
  from fold_keys_view [OF pl(2) ks] none lay show "shows_surface m (surface_view_of got (cn_send (sendInitial m c)))"
    by (auto simp: sendInitial_def Let_def shows_surface_def cached_keys_def layout_matches_def layout_of_def fun_eq_iff
        split: option.splits)
qed

section \<open>The surface invariant\<close>

definition no_surface :: surface_manager where
  "no_surface = \<lparr>sm_rows = 0, sm_cols = 0, sm_bitmapSize = 0, sm_seq = 0, sm_keys = []\<rparr>"

definition mgr :: "server \<Rightarrow> surface_manager" where
  "mgr s = (case sv_surface s of Some m \<Rightarrow> m | None \<Rightarrow> no_surface)"

definition surf_inv :: "server \<Rightarrow> (nat \<Rightarrow> frame list) \<Rightarrow> broadcast option \<Rightarrow> nat set \<Rightarrow> bool" where
  "surf_inv s got b synced \<longleftrightarrow>
     manager_ok (mgr s) \<and> broadcast_ok (mgr s) b \<and> (sv_surface s = None \<longrightarrow> b = None) \<and>
     (\<forall>i. conn_surface_ok (mgr s) (got i) (hub_conns (sv_hub s) i)) \<and>
     synced \<subseteq> hub_clients (sv_hub s) \<and>
     (\<forall>i \<in> synced. sv_surface s \<noteq> None \<longrightarrow> \<not> cn_closing (hub_conns (sv_hub s) i) \<longrightarrow>
        shows_surface (mgr s) (apply_broadcast b (surface_view_of (got i) (cn_send (hub_conns (sv_hub s) i)))))"

text \<open>\<open>c'\<close> has the surface lane of \<open>c\<close>.\<close>

definition quiet :: "conn \<Rightarrow> conn \<Rightarrow> bool" where
  "quiet c c' \<longleftrightarrow> sq_ok (cn_send c') \<and> surface_frames (cn_send c') = surface_frames (cn_send c) \<and>
     set (sq_state (cn_send c')) \<subseteq> set (sq_state (cn_send c)) \<union> {f. frame_dec f = None} \<and>
     (cn_closing c \<longrightarrow> cn_closing c')"

lemma quiet_refl: "sq_ok (cn_send c) \<Longrightarrow> quiet c c"
  by (simp add: quiet_def)

lemma quiet_enqueue: "sq_ok (cn_send c) \<Longrightarrow> frame_dec f = None \<Longrightarrow> quiet c (conn_enqueue f c)"
  using conn_enqueue_open [of c f] by (auto simp: quiet_def)

lemma quiet_close: "sq_ok (cn_send c) \<Longrightarrow> quiet c (conn_close code reason g c)"
  by (simp add: quiet_def)

lemma quiet_view: "quiet c c' \<Longrightarrow> surface_view_of got (cn_send c') = surface_view_of got (cn_send c)"
  by (simp add: quiet_def surface_view_of_def)

lemma quiet_ok: "quiet c c' \<Longrightarrow> conn_surface_ok m got c \<Longrightarrow> conn_surface_ok m got c'"
proof -
  assume q: "quiet c c'" and ok: "conn_surface_ok m got c"
  have "sv_keys (surface_view_of got (cn_send c')) k = Some (s, d) \<Longrightarrow> \<not> cn_closing c' \<Longrightarrow> s \<le> sm_seq m" for k s d
    using held_bound [OF ok] quiet_view [OF q] q by (auto simp: quiet_def)
  moreover have "f \<in> set (sq_state (cn_send c')) \<Longrightarrow> frame_dec f = None" for f
    using q ok by (auto simp: quiet_def conn_surface_ok_def)
  ultimately show ?thesis
    using q ok by (auto simp: quiet_def conn_surface_ok_def lane_wired_def)
qed

lemma surf_inv_quiet:
  assumes "surf_inv s got b synced" "sv_surface s' = sv_surface s"
    and "\<And>i. quiet (hub_conns (sv_hub s) i) (hub_conns (sv_hub s') i)"
    and "synced' \<subseteq> synced" "synced' \<subseteq> hub_clients (sv_hub s')"
  shows "surf_inv s' got b synced'"
proof -
  have m: "mgr s' = mgr s" using assms(2) by (simp add: mgr_def)
  have "\<not> cn_closing (hub_conns (sv_hub s') i) \<Longrightarrow> \<not> cn_closing (hub_conns (sv_hub s) i)" for i
    using assms(3) [of i] by (auto simp: quiet_def)
  then show ?thesis
    using assms(1,2,4,5) quiet_ok [OF assms(3)] quiet_view [OF assms(3)]
    unfolding surf_inv_def m by (metis subsetD)
qed

lemma surf_inv_conns: "surf_inv s got b synced \<Longrightarrow> sq_ok (cn_send (hub_conns (sv_hub s) i))"
  by (simp add: surf_inv_def conn_surface_ok_def)

lemma quiet_on_conn:
  assumes "\<And>j. sq_ok (cn_send (hub_conns h j))" "quiet (hub_conns h i) (f (hub_conns h i))"
  shows "quiet (hub_conns h j) (hub_conns (on_conn i f h) j)"
  using assms by (auto simp: on_conn_def quiet_refl)

lemma quiet_for_clients:
  assumes "\<And>j. sq_ok (cn_send (hub_conns h j))" "\<And>c. sq_ok (cn_send c) \<Longrightarrow> quiet c (f c)"
  shows "quiet (hub_conns h j) (hub_conns (for_clients f h) j)"
  using assms by (auto simp: for_clients_def quiet_refl)

lemma quiet_broadcastDelta:
  assumes "\<And>j. sq_ok (cn_send (hub_conns h j))"
  shows "quiet (hub_conns h j) (hub_conns (broadcastDelta r p h) j)"
  unfolding broadcastDelta_def
  by (rule quiet_for_clients [OF assms]) (auto intro: quiet_refl quiet_enqueue split: option.split)

lemma apply_quiet:
  assumes "server_ok s" "mutator_ok f"
  shows "sv_surface (applyState f s) = sv_surface s" "hub_clients (sv_hub (applyState f s)) = hub_clients (sv_hub s)"
    "quiet (hub_conns (sv_hub s) i) (hub_conns (sv_hub (applyState f s)) i)"
proof -
  have ok: "store_ok (sv_store s)" "so_observer (sv_store s) = Some delta_observer" "\<And>i. sq_ok (cn_send (hub_conns (sv_hub s) i))"
    using assms(1) by (auto simp: server_ok_def)
  have "\<exists>h. sv_hub (applyState f s) = h \<and> (h = sv_hub s \<or> (\<exists>r p. h = broadcastDelta r p (sv_hub s)))"
    using ok(1) assms(2)
    by (cases rule: Update_cases [of "sv_store s" f "sv_hub s"]) (use ok(2) in \<open>auto simp: applyState_def delta_observer_def\<close>)
  then show "hub_clients (sv_hub (applyState f s)) = hub_clients (sv_hub s)"
      "quiet (hub_conns (sv_hub s) i) (hub_conns (sv_hub (applyState f s)) i)"
    using ok(3) quiet_broadcastDelta [OF ok(3)] by (auto simp: broadcastDelta_clients quiet_refl)
  show "sv_surface (applyState f s) = sv_surface s" by (simp add: applyState_def split: prod.split)
qed

lemma surface_press_same: "sv_surface (do_surface_press a i k p s) = sv_surface s" "sv_surface (releaseHeldSurfaceKeys a i s) = sv_surface s"
proof -
  show "sv_surface (do_surface_press a i k p s) = sv_surface s"
    by (auto simp: do_surface_press_def surface_press_def on_server_conn_def Let_def split: option.split prod.split)
  have "sv_surface (fold (\<lambda>key s. fst (surface_press a i key False s)) ks t) = sv_surface t" for ks t
    by (induction ks arbitrary: t) (simp_all add: surface_press_hub)
  then show "sv_surface (releaseHeldSurfaceKeys a i s) = sv_surface s"
    by (simp add: releaseHeldSurfaceKeys_def Let_def on_server_conn_def)
qed

lemma quiet_trans: "quiet a b \<Longrightarrow> quiet b c \<Longrightarrow> quiet a c"
  by (auto simp: quiet_def)

lemma quiet_hold: "sq_ok (cn_send c) \<Longrightarrow> quiet c (trackSurfaceHold k p c)"
  by (simp add: quiet_def trackSurfaceHold_def)

lemma quiet_server_conn:
  assumes "\<And>j. sq_ok (cn_send (hub_conns (sv_hub s) j))" "\<And>c. sq_ok (cn_send c) \<Longrightarrow> quiet c (f c)"
  shows "quiet (hub_conns (sv_hub s) j) (hub_conns (sv_hub (on_server_conn i f s)) j)"
  using quiet_on_conn [of "sv_hub s" i f j] assms by (simp add: on_server_conn_def)

lemma press_quiet:
  assumes "\<And>j. sq_ok (cn_send (hub_conns (sv_hub s) j))"
  shows "quiet (hub_conns (sv_hub s) j) (hub_conns (sv_hub (do_surface_press a i k p s)) j)"
proof (cases "\<exists>m. sv_surface s = Some m \<and> inBounds m k")
  case False
  then show ?thesis using assms by (auto simp: do_surface_press_def quiet_refl split: option.split)
next
  case True
  let ?s1 = "if p then on_server_conn i (trackSurfaceHold k True) s else s"
  have q1: "quiet (hub_conns (sv_hub s) j) (hub_conns (sv_hub ?s1) j)" for j
    using quiet_server_conn [OF assms quiet_hold] assms by (simp add: quiet_refl)
  obtain s2 ok where p2: "surface_press a i k p ?s1 = (s2, ok)" by force
  have hub2: "sv_hub s2 = sv_hub ?s1" using surface_press_hub(1) [of a i k p ?s1] by (simp add: p2)
  have ok2: "sq_ok (cn_send (hub_conns (sv_hub s2) j))" for j using q1 [of j] by (simp add: hub2 quiet_def)
  have q2: "quiet (hub_conns (sv_hub s) j) (hub_conns (sv_hub s2) j)" for j using q1 [of j] by (simp add: hub2)
  have "quiet (hub_conns (sv_hub s) j) (hub_conns (sv_hub (on_server_conn i (conn_enqueue surface_unavailable) s2)) j)"
      "quiet (hub_conns (sv_hub s) j) (hub_conns (sv_hub (on_server_conn i (trackSurfaceHold k False) s2)) j)"
    using quiet_trans [OF q2 quiet_server_conn [OF ok2 quiet_enqueue]] quiet_trans [OF q2 quiet_server_conn [OF ok2 quiet_hold]]
    by (simp_all add: surface_unavailable_def)
  with q2 True p2 show ?thesis by (cases p) (auto simp: do_surface_press_def Let_def)
qed

lemma release_quiet:
  assumes "\<And>j. sq_ok (cn_send (hub_conns (sv_hub s) j))"
  shows "quiet (hub_conns (sv_hub s) j) (hub_conns (sv_hub (releaseHeldSurfaceKeys a i s)) j)"
proof -
  have "sv_hub (fold (\<lambda>key s. fst (surface_press a i key False s)) ks t) = sv_hub t" for ks t
    by (induction ks arbitrary: t) (simp_all add: surface_press_hub)
  with assms show ?thesis
    by (auto simp: releaseHeldSurfaceKeys_def Let_def on_server_conn_def on_conn_def quiet_def)
qed

lemma release_clients: "hub_clients (sv_hub (releaseHeldSurfaceKeys a i s)) = hub_clients (sv_hub s)"
  "hub_clients (sv_hub (do_surface_press a i k p s)) = hub_clients (sv_hub s)"
proof -
  have "sv_hub (fold (\<lambda>key s. fst (surface_press a i key False s)) ks t) = sv_hub t" for ks t
    by (induction ks arbitrary: t) (simp_all add: surface_press_hub)
  then show "hub_clients (sv_hub (releaseHeldSurfaceKeys a i s)) = hub_clients (sv_hub s)"
    by (simp add: releaseHeldSurfaceKeys_def Let_def on_server_conn_def on_conn_def)
  show "hub_clients (sv_hub (do_surface_press a i k p s)) = hub_clients (sv_hub s)"
    by (auto simp: do_surface_press_def surface_press_def on_server_conn_def on_conn_def Let_def split: option.split)
qed

text \<open>A broadcast still in flight does not disturb a client that shows the surface.\<close>

lemma broadcast_absorbed:
  assumes "shows_surface m v" "broadcast_ok m b" "manager_ok m"
  shows "shows_surface m (apply_broadcast b v)"
proof (cases b)
  case (Some x)
  then show ?thesis
  proof (cases x)
    case (BKey k s f)
    with assms Some have "sv_keys v k = Some (s, f)" by (auto simp: shows_surface_def cached_keys_def)
    then have "applyKey k s f v = v" by (simp add: applyKey_stale)
    with assms(1) Some BKey show ?thesis by simp
  next
    case (BLayout s f)
    with assms Some show ?thesis
      by (auto simp: shows_surface_def cached_keys_def applyLayout_def layout_matches_def layout_of_def fun_eq_iff)
  qed
qed (use assms in simp)

lemma manager_get: "manager_ok m \<Longrightarrow> gm_get (sm_keys m) k = Some f \<Longrightarrow> skf_key f = k \<and> skf_seq f \<le> sm_seq m"
  by (auto simp: manager_ok_def dest!: map_of_SomeD)

text \<open>A callback: the manager's new surface is the old one with the broadcast applied.\<close>

lemma surface_event_ok:
  assumes "manager_ok m" "surface_event ev m = (m', b)"
  shows "manager_ok m' \<and> broadcast_ok m' b \<and> sm_seq m \<le> sm_seq m' \<and>
    (event_ok ev m \<longrightarrow> (\<forall>v. shows_surface m v \<longrightarrow> (\<forall>k s d. sv_keys v k = Some (s, d) \<longrightarrow> s \<le> sm_seq m) \<longrightarrow>
       shows_surface m' (apply_broadcast b v)))"
proof (cases ev)
  case (EvKey k)
  show ?thesis
  proof (cases "inBounds m (sk_Key k)")
    case True
    let ?s = "sm_seq m + 1"
    obtain f where f: "m' = m\<lparr>sm_seq := ?s, sm_keys := gm_put (sk_Key k) f (sm_keys m)\<rparr>"
      "b = Some (BKey (sk_Key k) ?s (SurfaceKeyFrame f))" "skf_key f = sk_Key k" "skf_seq f = ?s"
      using assms(2) EvKey True by (auto simp: onKey_def Let_def)
    have wf: "gm_wf (sm_keys m)" using assms(1) by (simp add: manager_ok_def)
    have "manager_ok m'"
      using assms(1) f wf by (fastforce simp: manager_ok_def set_gm_put)
    moreover have "shows_surface m' (applyKey (sk_Key k) ?s (SurfaceKeyFrame f) v)"
      if "shows_surface m v" "\<forall>k s d. sv_keys v k = Some (s, d) \<longrightarrow> s \<le> sm_seq m" for v
    proof -
      have "s < ?s" if "sv_keys v (sk_Key k) = Some (s, d)" for s d
        using \<open>\<forall>k s d. _\<close> that by fastforce
      then have "applyKey (sk_Key k) ?s (SurfaceKeyFrame f) v =
          v\<lparr>sv_keys := (sv_keys v)(sk_Key k \<mapsto> (?s, SurfaceKeyFrame f))\<rparr>"
        by (fastforce simp: applyKey_def split: option.splits)
      with that(1) wf f show ?thesis
        by (auto simp: shows_surface_def cached_keys_def gm_get_put fun_eq_iff layout_matches_def)
    qed
    ultimately show ?thesis using f wf by (auto simp: gm_get_put)
  qed (use assms EvKey in \<open>auto simp: onKey_def\<close>)
next
  case (EvLayout r c bs)
  then have m': "m' = m\<lparr>sm_rows := r, sm_cols := c, sm_bitmapSize := bs, sm_keys := []\<rparr>" "b = Some (BLayout (sm_seq m') (layout_of m'))"
    using assms(2) by (auto simp: onLayout_def Let_def)
  show ?thesis
    by (auto simp: m' manager_ok_def shows_surface_def cached_keys_def applyLayout_def layout_matches_def
        layout_of_def fun_eq_iff split: option.splits)
next
  case EvClear
  then have m': "m' = m\<lparr>sm_keys := []\<rparr>" "b = Some (BLayout (sm_seq m') (layout_of m'))"
    using assms(2) by (auto simp: onClear_def Let_def)
  show ?thesis
    by (auto simp: m' manager_ok_def shows_surface_def cached_keys_def applyLayout_def layout_matches_def
        layout_of_def fun_eq_iff split: option.splits)
qed

section \<open>Every step keeps the surface stream\<close>

abbreviation w_surf_inv :: "world \<Rightarrow> bool" where
  "w_surf_inv w \<equiv> surf_inv (wd_server w) (wd_got w) (wd_inflight w) (wd_synced w)"

text \<open>A connection changes in a way the surface does not see.\<close>

lemma surf_inv_server_conn:
  assumes "surf_inv s got b synced" "\<And>c. sq_ok (cn_send c) \<Longrightarrow> quiet c (f c)"
  shows "surf_inv (on_server_conn i f s) got b synced"
proof (rule surf_inv_quiet [OF assms(1)])
  show "sv_surface (on_server_conn i f s) = sv_surface s" by (simp add: on_server_conn_def)
  show "quiet (hub_conns (sv_hub s) j) (hub_conns (sv_hub (on_server_conn i f s)) j)" for j
    by (rule quiet_server_conn [OF surf_inv_conns [OF assms(1)] assms(2)])
  show "synced \<subseteq> hub_clients (sv_hub (on_server_conn i f s))"
    using assms(1) by (simp add: surf_inv_def on_server_conn_def on_conn_def)
qed simp

lemma surf_inv_replay:
  assumes inv: "surf_inv s got b synced" and m: "sv_surface s = Some m" and "synced' \<subseteq> insert i synced"
    and "synced' \<subseteq> hub_clients (sv_hub s)"
  shows "surf_inv (on_server_conn i (sendInitial m) s) got b synced'"
proof -
  have mm: "mgr s = m" "mgr (on_server_conn i (sendInitial m) s) = m"
    using m by (simp_all add: mgr_def on_server_conn_def)
  have ok: "manager_ok m" "broadcast_ok m b" "\<And>j. conn_surface_ok m (got j) (hub_conns (sv_hub s) j)"
    using inv by (auto simp: surf_inv_def mm)
  let ?c = "hub_conns (sv_hub s) i"
  have closing: "cn_closing (sendInitial m ?c) = cn_closing ?c"
    unfolding sendInitial_def by (simp only: fold_keys_closing surface_push_simps)
  note si = sendInitial_view [OF ok(3) ok(1), of i]
  let ?s = "on_server_conn i (sendInitial m) s"
  have shown: "shows_surface m (apply_broadcast b (surface_view_of (got i) (cn_send (sendInitial m ?c))))" if "\<not> cn_closing ?c"
    by (rule broadcast_absorbed [OF si(2) [OF that] ok(2,1)])
  have conns: "hub_conns (sv_hub ?s) j = (if j = i then sendInitial m ?c else hub_conns (sv_hub s) j)" for j
    by (simp add: on_server_conn_def on_conn_def)
  have same: "hub_clients (sv_hub ?s) = hub_clients (sv_hub s)" "sv_surface ?s = sv_surface s"
    by (simp_all add: on_server_conn_def on_conn_def)
  have "conn_surface_ok m (got j) (hub_conns (sv_hub ?s) j)" for j
    using ok(3) [of j] si(1) by (simp add: conns)
  moreover have "shows_surface m (apply_broadcast b (surface_view_of (got j) (cn_send (hub_conns (sv_hub ?s) j))))"
    if j: "j \<in> synced'" "\<not> cn_closing (hub_conns (sv_hub ?s) j)" for j
  proof (cases "j = i")
    case True
    with shown j(2) show ?thesis by (simp add: conns closing)
  next
    case False
    with j assms(3) inv m show ?thesis by (auto simp: conns surf_inv_def mm)
  qed
  ultimately show ?thesis
    using ok(1,2) assms(4) m unfolding surf_inv_def mm same by simp
qed

lemma surf_inv_exec:
  assumes inv: "surf_inv s got b synced" and sinv: "state_inv s got' todo" and hd: "todo i = sec # rest"
  shows "surf_inv (exec accepts i sec s) got b
    (case sec of
       HubRemove \<Rightarrow> synced - {i}
     | ReplaySurface \<Rightarrow> if i \<in> hub_clients (sv_hub (exec accepts i sec s)) then insert i synced else synced
     | _ \<Rightarrow> synced)"
proof -
  have t: "todo_ok (i \<in> hub_clients (sv_hub s)) (sec # rest)" using sinv hd unfolding state_inv_def by metis
  note ok = surf_inv_conns [OF inv]
  have sub: "synced \<subseteq> hub_clients (sv_hub s)" using inv by (simp add: surf_inv_def)
  show ?thesis
  proof (cases sec)
    case (Enqueue f)
    with t show ?thesis by (auto intro!: surf_inv_server_conn [OF inv] quiet_enqueue simp: control_frame_def)
  next
    case (CloseConn code reason g)
    then show ?thesis by (auto intro!: surf_inv_server_conn [OF inv] quiet_close)
  next
    case (Apply f)
    with t sinv have "mutator_ok f" "server_ok s" by (auto simp: state_inv_def)
    from apply_quiet [OF this(2,1)] Apply sub show ?thesis
      by (auto intro!: surf_inv_quiet [OF inv])
  next
    case HubRemove
    then show ?thesis using sub ok by (auto intro!: surf_inv_quiet [OF inv] quiet_refl simp: hub_remove_def)
  next
    case (SetTopics sub ts)
    then show ?thesis by (auto intro!: surf_inv_server_conn [OF inv] simp: quiet_def set_topics_def)
  next
    case (TakeSnapshot a)
    have "quiet (hub_conns (sv_hub s) j) (hub_conns (sv_hub (sendSnapshot i a s)) j)" for j
      using ok quiet_enqueue [OF ok] by (simp add: sendSnapshot_def SnapshotInto_def hub_add_def on_conn_def Let_def quiet_refl)
    moreover have "hub_clients (sv_hub s) \<subseteq> hub_clients (sv_hub (sendSnapshot i a s))"
      by (auto simp: sendSnapshot_def SnapshotInto_def hub_add_def on_conn_def Let_def)
    moreover have "sv_surface (sendSnapshot i a s) = sv_surface s" by (simp add: sendSnapshot_def)
    ultimately show ?thesis using TakeSnapshot sub by (auto intro!: surf_inv_quiet [OF inv])
  next
    case ReplaySurface
    show ?thesis
    proof (cases "sv_surface s")
      case None
      with ReplaySurface inv show ?thesis by (auto simp: surf_inv_def)
    next
      case (Some m)
      have e: "exec accepts i sec s = on_server_conn i (sendInitial m) s" using ReplaySurface Some by simp
      have "hub_clients (sv_hub (exec accepts i sec s)) = hub_clients (sv_hub s)" by (simp add: e on_server_conn_def on_conn_def)
      with ReplaySurface sub show ?thesis
        unfolding e by (auto intro: surf_inv_replay [OF inv Some])
    qed
  next
    case (SurfacePress key pressed)
    with sub ok show ?thesis
      by (auto intro!: surf_inv_quiet [OF inv] press_quiet simp: surface_press_same release_clients)
  next
    case ReleaseHeld
    with sub ok show ?thesis
      by (auto intro!: surf_inv_quiet [OF inv] release_quiet simp: surface_press_same release_clients)
  qed
qed

lemma surf_inv_event:
  assumes inv: "surf_inv s got None synced" and m: "sv_surface s = Some m" and ev: "event_ok ev m" "surface_event ev m = (m', b)"
  shows "surf_inv (s\<lparr>sv_surface := Some m'\<rparr>) got b synced"
proof -
  have mm: "mgr s = m" "mgr (s\<lparr>sv_surface := Some m'\<rparr>) = m'" using m by (simp_all add: mgr_def)
  have "manager_ok m" using inv by (simp add: surf_inv_def mm)
  note e = surface_event_ok [OF this ev(2)]
  have mono: "conn_surface_ok m' got' c" if "conn_surface_ok m got' c" for got' c
    using that e unfolding conn_surface_ok_def by (meson order_trans)
  have "shows_surface m' (apply_broadcast b (surface_view_of (got i) (cn_send (hub_conns (sv_hub s) i))))"
    if "i \<in> synced" "\<not> cn_closing (hub_conns (sv_hub s) i)" for i
  proof -
    have c: "conn_surface_ok m (got i) (hub_conns (sv_hub s) i)" using inv by (simp add: surf_inv_def mm)
    moreover have "shows_surface m (surface_view_of (got i) (cn_send (hub_conns (sv_hub s) i)))"
      using inv that m by (auto simp: surf_inv_def mm)
    ultimately show ?thesis using e ev(1) held_bound [OF c that(2)] by blast
  qed
  with inv e mono show ?thesis by (auto simp: surf_inv_def mm)
qed

lemma deliver_conn:
  assumes "conn_surface_ok m got c" "broadcast_ok m (Some b)" "manager_ok m"
  defines "c' \<equiv> (case b of BKey k s f \<Rightarrow> enqueueSurfaceKey k s f c | BLayout s f \<Rightarrow> enqueueSurfaceLayout s f c)"
  shows "conn_surface_ok m got c'" "surface_view_of got (cn_send c') = apply_broadcast (Some b) (surface_view_of got (cn_send c))"
    "cn_closing c' = cn_closing c"
proof -
  have *: "conn_surface_ok m got c' \<and> surface_view_of got (cn_send c') = apply_broadcast (Some b) (surface_view_of got (cn_send c))"
  proof (cases b)
    case (BKey k s f)
    then obtain fr where fr: "s = sm_seq m" "f = SurfaceKeyFrame fr" "skf_seq fr = s" "gm_get (sm_keys m) k = Some fr"
      using assms(2) by auto
    then have "frame_dec f = Some (key_frame k s f)" using manager_get [OF assms(3) fr(4)] by simp
    with push_key_view [OF assms(1) this] fr BKey show ?thesis by (simp add: c'_def)
  next
    case (BLayout s f)
    then have "frame_dec f = Some (layout_frame (sm_seq m) f)" "s = sm_seq m" using assms(2) by (auto simp: layout_of_def)
    with push_layout_view [OF assms(1)] BLayout show ?thesis by (simp add: c'_def)
  qed
  then show "conn_surface_ok m got c'" "surface_view_of got (cn_send c') = apply_broadcast (Some b) (surface_view_of got (cn_send c))"
    by auto
  show "cn_closing c' = cn_closing c" by (cases b) (simp_all add: c'_def)
qed

lemma surf_inv_deliver:
  assumes inv: "surf_inv s got (Some b) synced"
  shows "surf_inv (s\<lparr>sv_hub := deliver b (sv_hub s)\<rparr>) got None synced"
proof -
  let ?s = "s\<lparr>sv_hub := deliver b (sv_hub s)\<rparr>"
  have m: "mgr ?s = mgr s" by (simp add: mgr_def)
  let ?f = "\<lambda>c. case b of BKey k s f \<Rightarrow> enqueueSurfaceKey k s f c | BLayout s f \<Rightarrow> enqueueSurfaceLayout s f c"
  have d: "deliver b (sv_hub s) = for_clients ?f (sv_hub s)"
    by (cases b) (simp_all add: broadcastSurfaceKey_def broadcastSurfaceLayout_def)
  have conns: "hub_conns (sv_hub ?s) i = (if i \<in> hub_clients (sv_hub s) then ?f (hub_conns (sv_hub s) i) else hub_conns (sv_hub s) i)" for i
    by (simp add: d for_clients_def)
  have clients: "hub_clients (sv_hub ?s) = hub_clients (sv_hub s)" by (simp add: d for_clients_def)
  have c: "conn_surface_ok (mgr s) (got i) (hub_conns (sv_hub s) i)" "broadcast_ok (mgr s) (Some b)" "manager_ok (mgr s)" for i
    using inv by (auto simp: surf_inv_def)
  note dc = deliver_conn [OF c]
  have synced_shows: "shows_surface (mgr s) (surface_view_of (got i) (cn_send (hub_conns (sv_hub ?s) i)))"
    if "i \<in> synced" "sv_surface s \<noteq> None" "\<not> cn_closing (hub_conns (sv_hub ?s) i)" for i
  proof -
    have i: "i \<in> hub_clients (sv_hub s)" using inv that(1) by (auto simp: surf_inv_def)
    have "hub_conns (sv_hub ?s) i = ?f (hub_conns (sv_hub s) i)" using conns i by presburger
    then have "\<not> cn_closing (hub_conns (sv_hub s) i)" using that(3) dc(3) [of i] by argo
    then have "shows_surface (mgr s) (apply_broadcast (Some b) (surface_view_of (got i) (cn_send (hub_conns (sv_hub s) i))))"
      using inv that by (auto simp: surf_inv_def)
    with dc(2) [of i] i show ?thesis by (simp only: conns if_True)
  qed
  have ok: "conn_surface_ok (mgr s) (got i) (hub_conns (sv_hub ?s) i)" for i
    using c(1) [of i] dc(1) [of i] by (simp only: conns split: if_split) blast
  from inv synced_shows ok clients show ?thesis by (auto simp: surf_inv_def m)
qed

lemma surf_inv_write:
  assumes inv: "surf_inv s got b synced" and p: "pop (cn_send (hub_conns (sv_hub s) i)) = (q, Some f)"
  shows "surf_inv (on_server_conn i (\<lambda>c. c\<lparr>cn_send := q\<rparr>) s) (got(i := got i @ [f])) b synced"
    "surf_inv (on_server_conn i (\<lambda>c. conn_close code reason g (c\<lparr>cn_send := q\<rparr>)) s) got b synced"
proof -
  have m: "mgr (on_server_conn i F s) = mgr s" for F by (simp add: mgr_def on_server_conn_def)
  have c: "conn_surface_ok (mgr s) (got i) (hub_conns (sv_hub s) i)" using inv by (simp add: surf_inv_def)
  note vd = view_deliver [OF c p]
  show "surf_inv (on_server_conn i (\<lambda>c. c\<lparr>cn_send := q\<rparr>) s) (got(i := got i @ [f])) b synced"
    using inv vd by (auto simp: surf_inv_def m) (auto simp: on_server_conn_def on_conn_def)
  have "conn_surface_ok (mgr s) (got i) (conn_close code reason g ((hub_conns (sv_hub s) i)\<lparr>cn_send := q\<rparr>))"
    using vd(2) by (auto simp: conn_surface_ok_def)
  with inv show "surf_inv (on_server_conn i (\<lambda>c. conn_close code reason g (c\<lparr>cn_send := q\<rparr>)) s) got b synced"
    by (auto simp: surf_inv_def m) (auto simp: on_server_conn_def on_conn_def)
qed

lemma surf_inv_step:
  assumes step: "srv_step w w'" and inv: "w_surf_inv w" and sinv: "w_state_inv w"
  shows "w_surf_inv w'"
  using step
proof cases
  case (connects i)
  with inv show ?thesis by simp
next
  case (runs i sec rest accepts)
  then show ?thesis using surf_inv_exec [OF inv sinv runs(2)] by (simp add: advance_def Let_def)
next
  case (receives i press_ok data ps secs)
  with inv show ?thesis by simp
next
  case (read_ends i)
  with inv show ?thesis by simp
next
  case (writes i q f)
  with surf_inv_write(1) [OF inv writes(2)] show ?thesis by (simp add: with_conn_def)
next
  case (write_fails i q f)
  with surf_inv_write(2) [OF inv write_fails(2)] show ?thesis by (simp add: with_conn_def)
next
  case (fails i reason)
  then show ?thesis by (auto simp: with_conn_def intro!: surf_inv_server_conn [OF inv] quiet_close)
next
  case stops
  have "quiet (w_conn w i) (hub_conns (closeAll ''server shutting down'' (sv_hub (wd_server w))) i)" for i
    unfolding closeAll_def by (rule quiet_for_clients [OF surf_inv_conns [OF inv] quiet_close])
  moreover have "wd_synced w \<subseteq> w_members w" using inv by (simp add: surf_inv_def)
  ultimately show ?thesis
    using stops by (auto intro!: surf_inv_quiet [OF inv] simp: closeAll_def for_clients_def)
next
  case (polls f)
  have "server_ok (wd_server w)" using sinv by (simp add: state_inv_def)
  note q = apply_quiet [OF this polls(2)]
  have "wd_synced w \<subseteq> w_members w" using inv by (simp add: surf_inv_def)
  with q polls(1) show ?thesis by (auto intro!: surf_inv_quiet [OF inv])
next
  case (event m ev m' b)
  with surf_inv_event [of "wd_server w" "wd_got w" "wd_synced w" m ev m' b] inv show ?thesis by simp
next
  case (broadcasts b)
  with surf_inv_deliver [of "wd_server w" "wd_got w" b "wd_synced w"] inv show ?thesis by simp
qed

section \<open>Reachable worlds\<close>

lemma start_inv:
  assumes "Config_validate parse cfg = None"
  shows "w_state_inv (start_world (NewServer cfg v sid sat)) \<and> w_surf_inv (start_world (NewServer cfg v sid sat))"
proof -
  have "store_ok (SetObserver delta_observer NewStore)" by (intro inv_intros)
  moreover have "Presets_validate (cfg_Presets cfg) = None" by (rule Config_validated(3) [OF assms])
  ultimately show ?thesis
    by (auto simp: start_world_def NewServer_def newHub_def newClientConn_def state_inv_def server_ok_def surf_inv_def
        newSendQueue_ok SetObserver_def mgr_def no_surface_def newSurfaceManager_def manager_ok_def conn_surface_ok_def
        lane_wired_def surface_view_of_def client_view_def sq.new_lanes empty_view_def List.map_filter_def
        split: option.splits prod.splits)
qed

lemma reachable_invs:
  assumes "srv_reachable (NewServer cfg v sid sat) w" "Config_validate parse cfg = None"
  shows "w_state_inv w \<and> w_surf_inv w"
  using assms(1)
proof (induction rule: srv_reachable.induct)
  case srv_start
  show ?case by (rule start_inv [OF assms(2)])
next
  case (srv_next w w')
  have "lane_wired (w_queue w i)" for i using srv_next.IH by (simp add: surf_inv_def conn_surface_ok_def)
  with srv_next state_inv_step surf_inv_step show ?case by blast
qed

section \<open>Properties of the server\<close>

text \<open>
  C1: However clients, commands, pollers, subscription changes, surface callbacks, writes and
  failures interleave, a client in the hub whose connection is open will, once its queue is
  drained, hold exactly the server's state scoped to its topics.
\<close>

theorem clients_follow_state:
  assumes "Config_validate parse cfg = None" "srv_reachable (NewServer cfg v sid sat) w"
    and "i \<in> w_members w" "\<not> cn_closing (w_conn w i)"
  shows "state_view (wd_got w i @ sq_state (w_queue w i)) =
    snapshot_object (cn_topics (w_conn w i)) (sv_store (wd_server w))"
  using reachable_invs [OF assms(2,1)] assms(3,4) by (auto simp: state_inv_def state_synced_def Let_def)

text \<open>
  C2: Likewise for the surface: once a client in the hub has had its replay, its drained view,
  with the broadcast a satellite callback may still owe it, is the manager's cache: the same
  keys with the same renders, under the manager's layout.
\<close>

theorem clients_follow_surface:
  assumes "Config_validate parse cfg = None" "srv_reachable (NewServer cfg v sid sat) w"
    and "i \<in> wd_synced w" "sv_surface (wd_server w) = Some m" "\<not> cn_closing (w_conn w i)"
  shows "shows_surface m (apply_broadcast (wd_inflight w) (surface_view_of (wd_got w i) (w_queue w i)))"
  using reachable_invs [OF assms(2,1)] assms(3-5) by (auto simp: surf_inv_def mgr_def)

text \<open>A run on the demonstration configuration: a client joins, a key arrives, a poller updates.\<close>

primrec run_todo :: "nat \<Rightarrow> locked list \<Rightarrow> world \<Rightarrow> world" where
  "run_todo i [] w = w"
| "run_todo i (sec # r) w = run_todo i r (advance (\<lambda>_. True) i sec r w)"

lemma run_todo_reachable:
  "srv_reachable s w \<Longrightarrow> wd_todo w i = secs \<Longrightarrow> srv_reachable s (run_todo i secs w)"
proof (induction secs arbitrary: w)
  case (Cons sec r)
  have "srv_step w (advance (\<lambda>_. True) i sec r w)" using Cons.prems(2) by (rule runs)
  with Cons.prems(1) have "srv_reachable s (advance (\<lambda>_. True) i sec r w)" by (rule srv_next)
  then show ?case using Cons.IH by (simp add: advance_def Let_def)
qed simp

definition demo_server :: server where
  "demo_server = NewServer demo_config '''' ''s1'' (Some (NewSatellite demo_sat))"

definition demo_joined :: world where
  "demo_joined =
     (let w = start_world demo_server in
      run_todo 0 (run_start demo_server)
        (w\<lparr>wd_todo := (wd_todo w)(0 := run_start demo_server), wd_phase := (wd_phase w)(0 := Serving), wd_next := 1\<rparr>))"

lemma demo_joined_reachable: "srv_reachable demo_server demo_joined"
proof -
  let ?w = "start_world demo_server"
  have "srv_step ?w (?w\<lparr>wd_todo := (wd_todo ?w)(0 := run_start (wd_server ?w)), wd_phase := (wd_phase ?w)(0 := Serving), wd_next := Suc 0\<rparr>)"
    by (rule connects) (simp add: start_world_def)
  with srv_start have "srv_reachable demo_server
      (?w\<lparr>wd_todo := (wd_todo ?w)(0 := run_start (wd_server ?w)), wd_phase := (wd_phase ?w)(0 := Serving), wd_next := Suc 0\<rparr>)"
    by (rule srv_next)
  then show ?thesis
    unfolding demo_joined_def Let_def by (intro run_todo_reachable) (simp_all add: start_world_def)
qed

definition demo_polled :: world where
  "demo_polled = demo_joined\<lparr>wd_server := applyState (recall_preset ''main'' ''wide'') (wd_server demo_joined)\<rparr>"

lemma demo_polled_reachable: "srv_reachable demo_server demo_polled"
  unfolding demo_polled_def
  by (rule srv_next [OF demo_joined_reachable polls]) (simp add: mutator_ok_def recall_preset_ok)

lemma clients_follow_state_witness:
  "0 \<in> w_members demo_polled \<and>
   state_view (wd_got demo_polled 0 @ sq_state (w_queue demo_polled 0)) =
     snapshot_object (cn_topics (w_conn demo_polled 0)) (sv_store (wd_server demo_polled))"
proof -
  have "0 \<in> w_members demo_polled" "\<not> cn_closing (w_conn demo_polled 0)"
    by code_simp+
  then show ?thesis
    using clients_follow_state [OF demo_config_valid demo_polled_reachable [unfolded demo_server_def]] by blast
qed

definition demo_key :: satellite_key where
  "demo_key = \<lparr>sk_Key = 3, sk_Type = ''BUTTON'', sk_Pressed = False, sk_Color = '''', sk_BitmapBase64 = ''AA==''\<rparr>"

definition demo_keyed :: world where
  "demo_keyed =
     (let (m', b) = onKey demo_key (mgr (wd_server demo_joined)) in
      demo_joined\<lparr>wd_server := (wd_server demo_joined)\<lparr>sv_surface := Some m'\<rparr>, wd_inflight := b\<rparr>)"

lemma demo_keyed_reachable: "srv_reachable demo_server demo_keyed"
proof -
  have "sv_surface (wd_server demo_joined) = Some (mgr (wd_server demo_joined))" "wd_inflight demo_joined = None"
    by code_simp+
  from event [OF this(2,1), of "EvKey demo_key"] show ?thesis
    by (intro srv_next [OF demo_joined_reachable])
       (auto simp: demo_keyed_def event_ok_def split: prod.split)
qed

lemma clients_follow_surface_witness:
  "0 \<in> wd_synced demo_keyed \<and>
   shows_surface (mgr (wd_server demo_keyed))
     (apply_broadcast (wd_inflight demo_keyed) (surface_view_of (wd_got demo_keyed 0) (w_queue demo_keyed 0)))"
proof -
  have "0 \<in> wd_synced demo_keyed" "\<not> cn_closing (w_conn demo_keyed 0)"
      "sv_surface (wd_server demo_keyed) = Some (mgr (wd_server demo_keyed))"
    by code_simp+
  then show ?thesis
    using clients_follow_surface [OF demo_config_valid demo_keyed_reachable [unfolded demo_server_def]] by blast
qed

end
