(* ===== verification/ClientLifetime.thy ===== *)
theory ClientLifetime
  imports ServerModel
begin

text \<open>
  What a connection goes through from \<open>run\<close> to its end (server/internal/api/client.go): the
  first close is the one reported, a connection that ended has left the hub, and no surface key
  a client pressed is left down on Companion.  The locale says which relations between a
  connection and a later state of it every step keeps, given that the operations on a
  connection do.
\<close>

section \<open>Relations every step keeps\<close>

locale conn_rel =
  fixes R :: "conn \<Rightarrow> conn \<Rightarrow> bool"
  assumes refl: "R c c"
    and trans: "R a b \<Longrightarrow> R b c \<Longrightarrow> R a c"
    and enqueue: "R c (conn_enqueue f c)"
    and close: "R c (conn_close code reason g c)"
    and send: "R c (c\<lparr>cn_send := q\<rparr>)"
begin

lemma surface: "R c (enqueueSurfaceKey k s f c)" "R c (enqueueSurfaceLayout s f c)"
  unfolding enqueueSurfaceKey_def enqueueSurfaceLayout_def by (rule send)+

lemma sendInitial: "R c (sendInitial m c)"
proof -
  have "R c (fold replay_key ks c)" for c ks
  proof (induction ks arbitrary: c)
    case (Cons e ks)
    obtain k f where "e = (k, f)" by (cases e)
    then show ?case using trans [OF surface(1) Cons.IH] by simp
  qed (simp add: refl)
  from trans [OF surface(2) this] show ?thesis by (simp add: sendInitial_def)
qed

lemma for_clients: "(\<And>c. R c (f c)) \<Longrightarrow> R (hub_conns h j) (hub_conns (for_clients f h) j)"
  by (simp add: for_clients_def refl)

lemma broadcastDelta: "R (hub_conns h j) (hub_conns (broadcastDelta r p h) j)"
  unfolding broadcastDelta_def by (rule for_clients) (auto simp: refl enqueue split: option.split)

lemma deliver: "R (hub_conns h j) (hub_conns (deliver b h) j)"
  by (cases b) (auto simp: broadcastSurfaceKey_def broadcastSurfaceLayout_def intro: for_clients surface)

lemma closeAll: "R (hub_conns h j) (hub_conns (closeAll reason h) j)"
  unfolding closeAll_def by (rule for_clients [OF close])

lemma applyState:
  assumes "server_ok s" "mutator_ok f"
  shows "R (hub_conns (sv_hub s) j) (hub_conns (sv_hub (applyState f s)) j)"
proof -
  have ok: "store_ok (sv_store s)" "so_observer (sv_store s) = Some delta_observer"
    using assms(1) by (auto simp: server_ok_def)
  have "sv_hub (applyState f s) = sv_hub s \<or> (\<exists>r p. sv_hub (applyState f s) = broadcastDelta r p (sv_hub s))"
    using ok(1) assms(2)
    by (cases rule: Update_cases [of "sv_store s" f "sv_hub s"]) (use ok(2) in \<open>auto simp: applyState_def delta_observer_def\<close>)
  then show ?thesis by (auto simp: refl broadcastDelta)
qed

lemma on_server_conn: "(\<And>c. R c (f c)) \<Longrightarrow> R (hub_conns (sv_hub s) j) (hub_conns (sv_hub (on_server_conn i f s)) j)"
  by (simp add: on_server_conn_def on_conn_def refl)

text \<open>A section of another client's goroutine.\<close>

lemma exec_other:
  assumes "server_ok s" "todo_ok m (sec # rest)" "j \<noteq> i"
  shows "R (hub_conns (sv_hub s) j) (hub_conns (sv_hub (exec accepts i sec s)) j)"
proof -
  have one: "hub_conns (sv_hub (on_server_conn i f t)) j = hub_conns (sv_hub t) j" for f t
    using assms(3) by (simp add: on_server_conn_def on_conn_def)
  have keys: "sv_hub (fold (\<lambda>key s. fst (surface_press a i key False s)) ks t) = sv_hub t" for a ks t
    by (induction ks arbitrary: t) (simp_all add: surface_press_hub)
  show ?thesis
  proof (cases sec)
    case (Apply f)
    with assms(2) applyState [OF assms(1)] show ?thesis by simp
  next
    case (TakeSnapshot a)
    with assms(3) show ?thesis
      by (simp add: sendSnapshot_def SnapshotInto_def hub_add_def on_conn_def Let_def refl)
  next
    case (SurfacePress key pressed)
    then show ?thesis
      by (auto simp: do_surface_press_def surface_press_def Let_def one refl split: option.split)
  next
    case ReleaseHeld
    then show ?thesis by (simp add: releaseHeldSurfaceKeys_def Let_def keys one refl)
  qed (auto simp: one refl hub_remove_def split: option.split)
qed

end

text \<open>A relation that also tolerates what a connection's own goroutine does to it.\<close>

locale own_rel = conn_rel +
  assumes topics: "R c (set_topics sub ts c)"
    and hold: "R c (c\<lparr>cn_heldSurfaceKeys := X\<rparr>)"
begin

lemma exec_any:
  assumes "server_ok s" "todo_ok m (sec # rest)"
  shows "R (hub_conns (sv_hub s) j) (hub_conns (sv_hub (exec accepts i sec s)) j)"
proof (cases "j = i")
  case False
  then show ?thesis by (rule exec_other [OF assms])
next
  case True
  have keys: "sv_hub (fold (\<lambda>key s. fst (surface_press a i key False s)) ks t) = sv_hub t" for a ks t
    by (induction ks arbitrary: t) (simp_all add: surface_press_hub)
  have track: "R c (trackSurfaceHold k p c)" for k p c unfolding trackSurfaceHold_def by (rule hold)
  show ?thesis
  proof (cases sec)
    case (Enqueue f)
    then show ?thesis using on_server_conn [OF enqueue] by simp
  next
    case (CloseConn code reason g)
    then show ?thesis using on_server_conn [OF close] by simp
  next
    case (Apply f)
    with assms(2) applyState [OF assms(1)] show ?thesis by simp
  next
    case HubRemove
    then show ?thesis by (simp add: hub_remove_def refl)
  next
    case (SetTopics sub ts)
    then show ?thesis using on_server_conn [OF topics] by simp
  next
    case (TakeSnapshot a)
    with True show ?thesis
      by (simp add: sendSnapshot_def SnapshotInto_def hub_add_def on_conn_def Let_def enqueue)
  next
    case ReplaySurface
    then show ?thesis using on_server_conn [OF sendInitial] by (auto simp: refl split: option.split)
  next
    case (SurfacePress key pressed)
    have hubs: "sv_hub (fst (surface_press accepts i key pressed t)) = sv_hub t" for t by (rule surface_press_hub)
    let ?s1 = "if pressed then on_server_conn i (trackSurfaceHold key True) s else s"
    have h1: "R (hub_conns (sv_hub s) j) (hub_conns (sv_hub ?s1) j)"
      using on_server_conn [OF track] by (simp add: refl)
    obtain s2 ok where p2: "surface_press accepts i key pressed ?s1 = (s2, ok)" by force
    have h2: "R (hub_conns (sv_hub s) j) (hub_conns (sv_hub s2) j)" using h1 hubs [of ?s1] by (simp only: p2 fst_conv)
    have "R (hub_conns (sv_hub s) j) (hub_conns (sv_hub (do_surface_press accepts i key pressed s)) j)"
      using h2 p2 trans [OF h2 on_server_conn [OF enqueue]] trans [OF h2 on_server_conn [OF track]]
      by (cases pressed) (auto simp: do_surface_press_def Let_def refl split: option.split)
    with SurfacePress show ?thesis by simp
  next
    case ReleaseHeld
    have "R (hub_conns (sv_hub s) j) (hub_conns (sv_hub (on_server_conn i (\<lambda>c. c\<lparr>cn_heldSurfaceKeys := {}\<rparr>) s)) j)"
      by (rule on_server_conn [OF hold])
    with ReleaseHeld show ?thesis by (simp add: releaseHeldSurfaceKeys_def Let_def keys refl)
  qed
qed

lemma step_any:
  assumes "srv_step w w'" "w_state_inv w"
  shows "R (w_conn w j) (w_conn w' j)"
  using assms(1)
proof cases
  case (runs i sec rest accepts)
  have "server_ok (wd_server w)" "todo_ok (i \<in> w_members w) (sec # rest)"
    using assms(2) runs(2) unfolding state_inv_def by metis+
  with runs show ?thesis using exec_any by (simp add: advance_def Let_def)
next
  case (writes i q f)
  then show ?thesis using on_server_conn [OF send] by (simp add: with_conn_def)
next
  case (write_fails i q f)
  then show ?thesis using on_server_conn [OF trans [OF send close]] by (simp add: with_conn_def)
next
  case (fails i reason)
  then show ?thesis using on_server_conn [OF close] by (simp add: with_conn_def)
next
  case (polls f)
  have "server_ok (wd_server w)" using assms(2) by (simp add: state_inv_def)
  with polls show ?thesis by (simp add: applyState)
qed (auto simp: refl deliver closeAll)

end

text \<open>The state of a closed connection, and the part of it only its own goroutine changes.\<close>

definition stays_closed :: "conn \<Rightarrow> conn \<Rightarrow> bool" where
  "stays_closed c c' \<longleftrightarrow> (cn_closing c \<longrightarrow> cn_closing c' \<and> closeInfo c' = closeInfo c)"

definition same_own :: "conn \<Rightarrow> conn \<Rightarrow> bool" where
  "same_own c c' \<longleftrightarrow> cn_heldSurfaceKeys c' = cn_heldSurfaceKeys c \<and> cn_topics c' = cn_topics c \<and>
     (cn_closing c \<longrightarrow> cn_closing c')"

lemma closeInfo_simps [simp]:
  "closeInfo (c\<lparr>cn_send := q\<rparr>) = closeInfo c" "closeInfo (c\<lparr>cn_heldSurfaceKeys := X\<rparr>) = closeInfo c"
  "closeInfo (set_topics sub ts c) = closeInfo c" "cn_closing (set_topics sub ts c) = cn_closing c"
  "cn_closing c \<Longrightarrow> conn_close code reason g c = c"
  by (simp_all add: closeInfo_def set_topics_def conn_close_def)

interpretation closed: own_rel stays_closed
  by unfold_locales (auto simp: stays_closed_def conn_enqueue_def Let_def split: prod.split)

interpretation others: conn_rel same_own
  by unfold_locales (auto simp: same_own_def conn_enqueue_def Let_def split: prod.split)


section \<open>Surface keys held down\<close>

text \<open>Whether Companion, having performed the accepted presses of a log, has a key down.\<close>

definition companion_down :: "(nat \<times> int \<times> bool \<times> bool) list \<Rightarrow> int \<Rightarrow> bool" where
  "companion_down presses k = foldl (\<lambda>d (_, k', p, ok). if k' = k \<and> ok then p else d) False presses"

lemma companion_down_press [simp]:
  "companion_down (presses @ [(i, k', p, ok)]) k = (if k' = k \<and> ok then p else companion_down presses k)"
  by (simp add: companion_down_def)

lemma companion_down_releases:
  "companion_down (presses @ map (\<lambda>k. (i, k, False, accepts k)) ks) k \<longleftrightarrow>
     companion_down presses k \<and> \<not> (k \<in> set ks \<and> accepts k)"
  by (induction ks rule: rev_induct) (auto simp: append.assoc [symmetric] simp del: append_assoc)

definition holds_accounted :: "server \<Rightarrow> bool" where
  "holds_accounted s \<longleftrightarrow>
     (\<forall>k. companion_down (sv_presses s) k \<longrightarrow>
        (\<exists>i. k \<in> cn_heldSurfaceKeys (hub_conns (sv_hub s) i) \<or> (i, k, False, False) \<in> set (sv_presses s)))"

definition holds_bounded :: "server \<Rightarrow> bool" where
  "holds_bounded s \<longleftrightarrow>
     (\<forall>i. cn_heldSurfaceKeys (hub_conns (sv_hub s) i) \<subseteq> {k. \<exists>m. sv_surface s = Some m \<and> inBounds m k})"

lemma in_bounds_finite: "finite {k. inBounds m k}"
proof -
  have "{k. inBounds m k} \<subseteq> {0..<keyCount m}" by (auto simp: inBounds_def)
  then show ?thesis by (rule finite_subset) simp
qed

lemma press_holds:
  assumes "sv_surface s = Some m" "inBounds m k"
  shows "sv_presses (do_surface_press accepts i k p s) = sv_presses s @ [(i, k, p, accepts k)]"
    "cn_heldSurfaceKeys (hub_conns (sv_hub (do_surface_press accepts i k p s)) i) =
       (let held = cn_heldSurfaceKeys (hub_conns (sv_hub s) i)
        in if p then insert k held else if accepts k then held - {k} else held)"
  using assms
  by (auto simp: do_surface_press_def surface_press_def on_server_conn_def on_conn_def trackSurfaceHold_def Let_def)

lemma fold_releases:
  assumes "sv_surface s = Some m"
  shows "sv_presses (fold (\<lambda>key s. fst (surface_press accepts i key False s)) ks s) =
    sv_presses s @ map (\<lambda>k. (i, k, False, accepts k)) (filter (inBounds m) ks)"
  using assms
proof (induction ks arbitrary: s)
  case (Cons k ks)
  have "sv_surface (fst (surface_press accepts i k False s)) = Some m"
    using Cons.prems by (simp add: surface_press_hub)
  from Cons.IH [OF this] Cons.prems show ?case by (simp add: surface_press_def)
qed simp

lemma release_holds:
  assumes "sv_surface s = Some m"
  shows "sv_presses (releaseHeldSurfaceKeys accepts i s) = sv_presses s @
      map (\<lambda>k. (i, k, False, accepts k))
        (filter (inBounds m) (sorted_list_of_set (cn_heldSurfaceKeys (hub_conns (sv_hub s) i))))"
    "cn_heldSurfaceKeys (hub_conns (sv_hub (releaseHeldSurfaceKeys accepts i s)) i) = {}"
proof -
  have hub: "sv_hub (fold (\<lambda>key s. fst (surface_press a i key False s)) ks t) = sv_hub t" for a ks t
    by (induction ks arbitrary: t) (simp_all add: surface_press_hub)
  have "sv_surface (on_server_conn i (\<lambda>c. c\<lparr>cn_heldSurfaceKeys := {}\<rparr>) s) = Some m"
    using assms by (simp add: on_server_conn_def)
  from fold_releases [OF this] assms show
    "sv_presses (releaseHeldSurfaceKeys accepts i s) = sv_presses s @
      map (\<lambda>k. (i, k, False, accepts k))
        (filter (inBounds m) (sorted_list_of_set (cn_heldSurfaceKeys (hub_conns (sv_hub s) i))))"
    by (simp add: releaseHeldSurfaceKeys_def Let_def on_server_conn_def)
  show "cn_heldSurfaceKeys (hub_conns (sv_hub (releaseHeldSurfaceKeys accepts i s)) i) = {}"
    using assms by (simp add: releaseHeldSurfaceKeys_def Let_def hub on_server_conn_def on_conn_def)
qed

text \<open>Sections that press nothing.\<close>

fun presses_keys :: "locked \<Rightarrow> bool" where
  "presses_keys (SurfacePress k p) = True"
| "presses_keys ReleaseHeld = True"
| "presses_keys _ = False"

lemma replay_held: "cn_heldSurfaceKeys (fold replay_key ks c) = cn_heldSurfaceKeys c"
proof (induction ks arbitrary: c)
  case (Cons e ks)
  then show ?case by (cases e) simp
qed simp

lemma exec_surface: "sv_surface (exec accepts i sec s) = sv_surface s"
  by (cases sec)
     (simp_all add: on_server_conn_def applyState_def sendSnapshot_def surface_press_same split: prod.split option.split)

lemma exec_no_press:
  assumes "\<not> presses_keys sec"
  shows "sv_presses (exec accepts i sec s) = sv_presses s"
    "server_ok s \<Longrightarrow> todo_ok m (sec # rest) \<Longrightarrow>
      cn_heldSurfaceKeys (hub_conns (sv_hub (exec accepts i sec s)) j) = cn_heldSurfaceKeys (hub_conns (sv_hub s) j)"
proof -
  show "sv_presses (exec accepts i sec s) = sv_presses s"
    using assms by (cases sec) (simp_all add: on_server_conn_def applyState_def sendSnapshot_def split: prod.split option.split)
  assume ok: "server_ok s" "todo_ok m (sec # rest)"
  show "cn_heldSurfaceKeys (hub_conns (sv_hub (exec accepts i sec s)) j) = cn_heldSurfaceKeys (hub_conns (sv_hub s) j)"
  proof (cases "j = i")
    case False
    with others.exec_other [OF ok] show ?thesis by (simp add: same_own_def)
  next
    case True
    then show ?thesis
    proof (cases sec)
      case (Apply f)
      with ok others.applyState [OF ok(1)] show ?thesis by (simp add: same_own_def)
    qed (use assms in \<open>auto simp: on_server_conn_def on_conn_def hub_remove_def set_topics_def sendSnapshot_def
          SnapshotInto_def hub_add_def Let_def sendInitial_def replay_held split: option.split\<close>)
  qed
qed


text \<open>A section keeps the held keys in bounds and accounts for every key that is down.\<close>

lemma exec_holds:
  assumes "server_ok s" "todo_ok m (sec # rest)" "holds_bounded s" "holds_accounted s"
  shows "holds_bounded (exec accepts i sec s) \<and> holds_accounted (exec accepts i sec s)"
proof (cases "presses_keys sec")
  case False
  note np = exec_no_press [OF False]
  show ?thesis using assms(3,4)
    by (simp add: holds_bounded_def holds_accounted_def np(1) np(2) [OF assms(1,2)] exec_surface)
next
  case True
  let ?s = "exec accepts i sec s"
  let ?held = "\<lambda>t j. cn_heldSurfaceKeys (hub_conns (sv_hub t) j)"
  have rest: "?held ?s j = ?held s j" if "j \<noteq> i" for j
    using others.exec_other [OF assms(1,2) that] by (simp add: same_own_def)
  consider (none) "?s = s" | (press) k p m where "sec = SurfacePress k p" "sv_surface s = Some m" "inBounds m k"
    | (release) m where "sec = ReleaseHeld" "sv_surface s = Some m"
  proof (cases "sv_surface s")
    case None
    with True none show thesis by (cases sec) (simp_all add: do_surface_press_def releaseHeldSurfaceKeys_def)
  next
    case (Some m)
    show thesis
    proof (cases sec)
      case (SurfacePress k p)
      with Some none press show thesis by (cases "inBounds m k") (simp_all add: do_surface_press_def)
    qed (use Some True release in auto)
  qed
  then show ?thesis
  proof cases
    case none
    with assms show ?thesis by simp
  next
    case (press k p m)
    note ph = press_holds [OF press(2,3), of accepts i p]
    have held: "?held ?s i = (if p then insert k (?held s i) else if accepts k then ?held s i - {k} else ?held s i)"
        and log: "sv_presses ?s = sv_presses s @ [(i, k, p, accepts k)]"
      using ph by (simp_all add: press(1) Let_def)
    have "?held ?s j \<subseteq> {k. \<exists>m. sv_surface s = Some m \<and> inBounds m k}" for j
    proof (cases "j = i")
      case True
      have "?held ?s i \<subseteq> insert k (?held s i)" unfolding held by auto
      with True assms(3) press(2,3) show ?thesis by (auto simp: holds_bounded_def)
    next
      case False
      with rest assms(3) show ?thesis by (simp add: holds_bounded_def)
    qed
    moreover have "\<exists>j. k' \<in> ?held ?s j \<or> (j, k', False, False) \<in> set (sv_presses ?s)"
      if d: "companion_down (sv_presses ?s) k'" for k'
    proof (cases "k' = k \<and> p")
      case True
      then show ?thesis using held by (intro exI [of _ i]) simp
    next
      case False
      with d log have old: "companion_down (sv_presses s) k'" and ne: "\<not> (k' = k \<and> accepts k)"
        by (auto split: if_splits)
      from old assms(4) obtain j where "k' \<in> ?held s j \<or> (j, k', False, False) \<in> set (sv_presses s)"
        by (auto simp: holds_accounted_def)
      with held rest ne log show ?thesis by (cases "j = i") (auto split: if_splits intro!: exI [of _ j])
    qed
    ultimately show ?thesis by (auto simp: holds_bounded_def holds_accounted_def exec_surface)
  next
    case (release m)
    let ?ks = "filter (inBounds m) (sorted_list_of_set (?held s i))"
    have log: "sv_presses ?s = sv_presses s @ map (\<lambda>k. (i, k, False, accepts k)) ?ks" and held: "?held ?s i = {}"
      using release_holds [OF release(2)] by (simp_all add: release(1))
    have sub: "?held s i \<subseteq> {k. inBounds m k}" using assms(3) release(2) by (auto simp: holds_bounded_def)
    then have ks: "set ?ks = ?held s i" using finite_subset [OF sub in_bounds_finite] by auto
    have "\<exists>j. k \<in> ?held ?s j \<or> (j, k, False, False) \<in> set (sv_presses ?s)"
      if d: "companion_down (sv_presses ?s) k" for k
    proof -
      from d have old: "companion_down (sv_presses s) k" and ne: "\<not> (k \<in> ?held s i \<and> accepts k)"
        unfolding log companion_down_releases ks by auto
      from old assms(4) obtain j where j: "k \<in> ?held s j \<or> (j, k, False, False) \<in> set (sv_presses s)"
        by (auto simp: holds_accounted_def)
      show ?thesis
      proof (cases "j = i \<and> k \<in> ?held s i")
        case True
        with ne have "\<not> accepts k" "k \<in> set ?ks" using ks by auto
        then have "(i, k, False, False) \<in> set (sv_presses ?s)" unfolding log by force
        then show ?thesis by blast
      next
        case False
        with j rest [of j] log show ?thesis by (cases "j = i") auto
      qed
    qed
    moreover have "?held ?s j \<subseteq> {k. \<exists>m. sv_surface s = Some m \<and> inBounds m k}" for j
      using held rest assms(3) by (cases "j = i") (auto simp: holds_bounded_def)
    ultimately show ?thesis by (auto simp: holds_bounded_def holds_accounted_def exec_surface)
  qed
qed

lemma event_bounds:
  assumes "surface_event ev m = (m', b)" "event_ok ev m"
  shows "inBounds m' k = inBounds m k"
  using assms
  by (cases ev) (auto simp: onKey_def onLayout_def onClear_def Let_def event_ok_def inBounds_def keyCount_def split: if_splits)

lemma holds_step:
  assumes "srv_step w w'" "w_state_inv w" "holds_bounded (wd_server w)" "holds_accounted (wd_server w)"
  shows "holds_bounded (wd_server w') \<and> holds_accounted (wd_server w')"
proof -
  have same: ?thesis
    if "\<And>i. cn_heldSurfaceKeys (w_conn w' i) = cn_heldSurfaceKeys (w_conn w i)"
      "sv_presses (wd_server w') = sv_presses (wd_server w)"
      "\<And>k. (\<exists>m. sv_surface (wd_server w') = Some m \<and> inBounds m k) = (\<exists>m. sv_surface (wd_server w) = Some m \<and> inBounds m k)"
    using assms(3,4) that by (simp add: holds_bounded_def holds_accounted_def)
  have closes: "cn_heldSurfaceKeys (hub_conns (closeAll reason h) i) = cn_heldSurfaceKeys (hub_conns h i)"
    "cn_heldSurfaceKeys (hub_conns (deliver b h) i) = cn_heldSurfaceKeys (hub_conns h i)" for reason b h i
    using others.closeAll [of h i reason] others.deliver [of h i b] by (simp_all add: same_own_def)
  show ?thesis
    using assms(1)
  proof cases
    case (runs i sec rest accepts)
    have "server_ok (wd_server w)" "todo_ok (i \<in> w_members w) (sec # rest)"
      using assms(2) runs(2) unfolding state_inv_def by metis+
    from exec_holds [OF this assms(3,4)] runs(1) show ?thesis by (simp add: advance_def Let_def)
  next
    case (polls f)
    have ok: "server_ok (wd_server w)" using assms(2) by (simp add: state_inv_def)
    show ?thesis
      using others.applyState [OF ok polls(2)] apply_quiet(1) [OF ok polls(2)] polls(1)
      by (intro same) (auto simp: same_own_def applyState_def split: prod.split)
  next
    case (event m ev m' b)
    then show ?thesis by (intro same) (auto simp: event_bounds)
  qed (rule same; simp add: with_conn_def on_server_conn_def on_conn_def closes)+
qed

lemma holds_reachable:
  assumes "srv_reachable (NewServer cfg v sid sat) w" "Config_validate parse cfg = None"
  shows "holds_bounded (wd_server w) \<and> holds_accounted (wd_server w)"
  using assms(1)
proof (induction rule: srv_reachable.induct)
  case srv_start
  show ?case
    by (simp add: start_world_def NewServer_def newHub_def newClientConn_def holds_bounded_def holds_accounted_def companion_down_def)
next
  case (srv_next w w')
  have "w_state_inv w" using reachable_invs [OF srv_next.hyps(1) assms(2)] by simp
  with holds_step srv_next show ?case by blast
qed

section \<open>The end of a connection\<close>

fun conn_life :: "cphase \<Rightarrow> locked list \<Rightarrow> bool \<Rightarrow> conn \<Rightarrow> bool" where
  "conn_life Absent todo member c = (todo = [] \<and> \<not> member \<and> cn_heldSurfaceKeys c = {})"
| "conn_life Serving todo member c = True"
| "conn_life Ending todo member c =
     (todo = run_end \<or> cn_closing c \<and> (todo = [ReleaseHeld, HubRemove] \<or>
        cn_heldSurfaceKeys c = {} \<and> (todo = [HubRemove] \<or> todo = [] \<and> \<not> member)))"

definition w_life :: "world \<Rightarrow> bool" where
  "w_life w \<longleftrightarrow> (\<forall>i. conn_life (wd_phase w i) (wd_todo w i) (i \<in> w_members w) (w_conn w i)) \<and>
     (\<forall>i \<ge> wd_next w. wd_phase w i = Absent)"

lemma conn_life_other: "same_own c c' \<Longrightarrow> conn_life ph todo member c \<Longrightarrow> conn_life ph todo member c'"
  by (cases ph) (auto simp: same_own_def)

lemma exec_members:
  assumes "server_ok s" "todo_ok m (sec # rest)" "j \<noteq> i"
  shows "j \<in> hub_clients (sv_hub (exec accepts i sec s)) \<longleftrightarrow> j \<in> hub_clients (sv_hub s)"
proof (cases sec)
  case (Apply f)
  with assms(1,2) show ?thesis by (simp add: apply_quiet(2))
qed (use assms(3) in \<open>auto simp: on_server_conn_def on_conn_def hub_remove_def hub_add_def sendSnapshot_def
      SnapshotInto_def Let_def release_clients split: option.split\<close>)

lemma run_end_step:
  assumes "conn_life Ending (sec # rest) (i \<in> hub_clients (sv_hub s)) (hub_conns (sv_hub s) i)"
    and "holds_bounded s"
  shows "conn_life Ending rest (i \<in> hub_clients (sv_hub (exec accepts i sec s))) (hub_conns (sv_hub (exec accepts i sec s)) i)"
proof -
  let ?c = "hub_conns (sv_hub s) i"
  consider (close) "sec = CloseConn StatusNormalClosure ''connection closed'' False" "rest = [ReleaseHeld, HubRemove]"
    | (release) "sec = ReleaseHeld" "rest = [HubRemove]" "cn_closing ?c"
    | (remove) "sec = HubRemove" "rest = []" "cn_closing ?c" "cn_heldSurfaceKeys ?c = {}"
    using assms(1) by (auto simp: run_end_def)
  then show ?thesis
  proof cases
    case close
    then show ?thesis by (simp add: on_server_conn_def on_conn_def)
  next
    case release
    have closing: "cn_closing (hub_conns (sv_hub (releaseHeldSurfaceKeys accepts i s)) i)"
    proof -
      have "sv_hub (fold (\<lambda>key s. fst (surface_press accepts i key False s)) ks t) = sv_hub t" for ks t
        by (induction ks arbitrary: t) (simp_all add: surface_press_hub)
      with release(3) show ?thesis by (simp add: releaseHeldSurfaceKeys_def Let_def on_server_conn_def on_conn_def)
    qed
    moreover have "cn_heldSurfaceKeys (hub_conns (sv_hub (releaseHeldSurfaceKeys accepts i s)) i) = {}"
    proof (cases "sv_surface s")
      case None
      with assms(2) show ?thesis by (auto simp: holds_bounded_def releaseHeldSurfaceKeys_def)
    next
      case (Some m)
      then show ?thesis by (rule release_holds(2))
    qed
    ultimately show ?thesis using release by simp
  next
    case remove
    then show ?thesis by (simp add: hub_remove_def)
  qed
qed


lemma life_step:
  assumes step: "srv_step w w'" and inv: "w_state_inv w" and bounded: "holds_bounded (wd_server w)" and life: "w_life w"
  shows "w_life w'"
proof -
  let ?life = "\<lambda>w i. conn_life (wd_phase w i) (wd_todo w i) (i \<in> w_members w) (w_conn w i)"
  have old: "?life w i" for i using life by (simp add: w_life_def)
  have absent: "wd_next w \<le> i \<Longrightarrow> wd_phase w i = Absent" for i using life by (simp add: w_life_def)
  have same: ?thesis
    if "wd_phase w' = wd_phase w" "wd_todo w' = wd_todo w" "w_members w' = w_members w" "wd_next w' = wd_next w"
      "\<And>i. same_own (w_conn w i) (w_conn w' i)"
    using that old absent by (auto simp: w_life_def intro: conn_life_other)
  have conns: "same_own (hub_conns h i) (hub_conns (closeAll reason h) i)" "same_own (hub_conns h i) (hub_conns (deliver b h) i)"
    for reason b h i by (rule others.closeAll others.deliver)+
  have mem: "hub_clients (closeAll reason h) = hub_clients h" "hub_clients (deliver b h) = hub_clients h" for reason b h
    by (simp add: closeAll_def for_clients_def, cases b) (simp_all add: broadcastSurfaceKey_def broadcastSurfaceLayout_def for_clients_def)
  have one: "same_own (w_conn w j) (hub_conns (sv_hub (on_server_conn i f (wd_server w))) j)" if "\<And>c. same_own c (f c)" for i f j
    using that by (rule others.on_server_conn)
  have same_mem: "hub_clients (sv_hub (on_server_conn i f s)) = hub_clients (sv_hub s)" for i f s
    by (simp add: on_server_conn_def on_conn_def)
  show ?thesis
    using step
  proof cases
    case (connects i)
    then show ?thesis using old absent by (auto simp: w_life_def)
  next
    case (runs i sec rest accepts)
    have ok: "server_ok (wd_server w)" "todo_ok (i \<in> w_members w) (sec # rest)"
      using inv runs(2) unfolding state_inv_def by metis+
    have w': "wd_phase w' = wd_phase w" "wd_todo w' = (wd_todo w)(i := rest)" "wd_next w' = wd_next w"
        "wd_server w' = exec accepts i sec (wd_server w)"
      using runs(1) by (simp_all add: advance_def Let_def)
    have "?life w' j" for j
    proof (cases "j = i")
      case False
      have o: "same_own (w_conn w j) (w_conn w' j)" using others.exec_other [OF ok False] by (simp add: w')
      have "(j \<in> w_members w') = (j \<in> w_members w)" using exec_members [OF ok False] by (simp add: w')
      with conn_life_other [OF o old [of j]] False show ?thesis by (simp add: w')
    next
      case True
      have "wd_phase w i \<noteq> Absent" using old [of i] runs(2) by auto
      then show ?thesis
        using True old [of i] runs(2) run_end_step [OF _ bounded, of sec rest i accepts]
        by (cases "wd_phase w i") (simp_all add: w')
    qed
    with absent show ?thesis by (simp add: w_life_def w')
  next
    case (receives i press_ok data ps secs)
    then show ?thesis using old absent by (auto simp: w_life_def)
  next
    case (read_ends i)
    have "\<not> wd_next w \<le> i" using absent [of i] read_ends(2) by auto
    with read_ends old absent show ?thesis by (auto simp: w_life_def)
  next
    case (polls f)
    have ok: "server_ok (wd_server w)" using inv by (simp add: state_inv_def)
    show ?thesis
      using polls(1) others.applyState [OF ok polls(2)] apply_quiet(2) [OF ok polls(2)] by (intro same) simp_all
  next
    case (writes i q f)
    then show ?thesis using one [OF others.send] same_mem by (intro same) (simp_all add: with_conn_def)
  next
    case (write_fails i q f)
    then show ?thesis using one [OF others.trans [OF others.send others.close]] same_mem
      by (intro same) (simp_all add: with_conn_def)
  next
    case (fails i reason)
    then show ?thesis using one [OF others.close] same_mem by (intro same) (simp_all add: with_conn_def)
  next
    case stops
    then show ?thesis by (intro same) (simp_all add: conns mem)
  next
    case (event m ev m' b)
    then show ?thesis by (intro same) (simp_all add: others.refl)
  next
    case (broadcasts b)
    then show ?thesis by (intro same) (simp_all add: conns mem)
  qed
qed

lemma life_reachable:
  assumes "srv_reachable (NewServer cfg v sid sat) w" "Config_validate parse cfg = None"
  shows "w_life w"
  using assms(1)
proof (induction rule: srv_reachable.induct)
  case srv_start
  show ?case by (simp add: start_world_def NewServer_def newHub_def newClientConn_def w_life_def)
next
  case (srv_next w w')
  have "w_state_inv w" "holds_bounded (wd_server w)"
    using reachable_invs [OF srv_next.hyps(1) assms(2)] holds_reachable [OF srv_next.hyps(1) assms(2)] by auto
  with life_step srv_next show ?case by blast
qed

section \<open>Properties of connections\<close>

text \<open>
  C12: No surface key is left down: if Companion, having performed the presses the satellite
  accepted, has a key down, then either a connection that is still being served or torn down
  holds that key and will release it, or a release was handed to the satellite and refused.
\<close>

theorem no_key_left_down:
  assumes "Config_validate parse cfg = None" "srv_reachable (NewServer cfg v sid sat) w"
    and "companion_down (sv_presses (wd_server w)) k"
  shows "(\<exists>i. k \<in> cn_heldSurfaceKeys (w_conn w i) \<and> (wd_phase w i = Serving \<or> ReleaseHeld \<in> set (wd_todo w i))) \<or>
    (\<exists>i. (i, k, False, False) \<in> set (sv_presses (wd_server w)))"
proof -
  have "holds_accounted (wd_server w)" and life: "w_life w"
    using holds_reachable [OF assms(2,1)] life_reachable [OF assms(2,1)] by auto
  with assms(3) obtain i where i: "k \<in> cn_heldSurfaceKeys (w_conn w i) \<or> (i, k, False, False) \<in> set (sv_presses (wd_server w))"
    by (auto simp: holds_accounted_def)
  have "conn_life (wd_phase w i) (wd_todo w i) (i \<in> w_members w) (w_conn w i)" using life by (simp add: w_life_def)
  with i show ?thesis by (cases "wd_phase w i") (auto simp: run_end_def)
qed

text \<open>A run in which the client presses key 3 and does not release it.\<close>

definition press_data :: "rjson option" where
  "press_data = Some (RObj [(''type'', RStr ''surface-press''), (''key'', RNum ''3''), (''pressed'', RBool True)])"

lemma press_data_handled: "handle cfg True press_ok press_data = ([], [SurfacePress 3 True])"
proof -
  have "decode_envelope press_data = Some ''surface-press''" by code_simp
  moreover have "decode_surface_press press_data = Some \<lparr>spf_key = Some 3, spf_pressed = Some True\<rparr>" by code_simp
  ultimately show ?thesis by (simp add: handle_def handleSurfacePress_def)
qed

definition demo_pressed :: world where
  "demo_pressed = advance (\<lambda>_. True) 0 (SurfacePress 3 True) []
     (demo_joined\<lparr>wd_todo := (wd_todo demo_joined)(0 := [SurfacePress 3 True])\<rparr>)"

lemma demo_pressed_reachable: "srv_reachable demo_server demo_pressed"
proof -
  have "wd_phase (run_todo 0 secs w) = wd_phase w \<and> (wd_todo w 0 = secs \<longrightarrow> wd_todo (run_todo 0 secs w) 0 = [])" for secs w
    by (induction secs arbitrary: w) (simp_all add: advance_def Let_def)
  then have idle: "wd_phase demo_joined 0 = Serving" "wd_todo demo_joined 0 = []"
    by (simp_all add: demo_joined_def Let_def)
  have "\<not> cn_closing (w_conn demo_joined 0)" "sv_surface (wd_server demo_joined) = Some (mgr (wd_server demo_joined))"
    by code_simp+
  from receives [OF idle this(1), of "\<lambda>_. True" press_data] this(2)
  have "srv_step demo_joined (demo_joined\<lparr>wd_todo := (wd_todo demo_joined)(0 := [SurfacePress 3 True])\<rparr>)"
    by (simp add: press_data_handled)
  from srv_next [OF demo_joined_reachable this] show ?thesis
    unfolding demo_pressed_def by (rule srv_next) (rule runs, simp)
qed

lemma no_key_left_down_witness:
  "companion_down (sv_presses (wd_server demo_pressed)) 3 \<and>
   ((\<exists>i. 3 \<in> cn_heldSurfaceKeys (w_conn demo_pressed i) \<and>
        (wd_phase demo_pressed i = Serving \<or> ReleaseHeld \<in> set (wd_todo demo_pressed i))) \<or>
    (\<exists>i. (i, 3, False, False) \<in> set (sv_presses (wd_server demo_pressed))))"
proof -
  have "companion_down (sv_presses (wd_server demo_pressed)) 3" by code_simp
  with no_key_left_down [OF demo_config_valid demo_pressed_reachable [unfolded demo_server_def] this] show ?thesis by blast
qed


text \<open>
  A connection that has run to its end is closed, has left the hub, and holds no surface key,
  whatever reached it while it ended.
\<close>

lemma connection_ends:
  assumes "Config_validate parse cfg = None" "srv_reachable (NewServer cfg v sid sat) w"
    and "wd_phase w i = Ending" "wd_todo w i = []"
  shows "cn_closing (w_conn w i) \<and> i \<notin> w_members w \<and> cn_heldSurfaceKeys (w_conn w i) = {}"
proof -
  have "conn_life (wd_phase w i) (wd_todo w i) (i \<in> w_members w) (w_conn w i)"
    using life_reachable [OF assms(2,1)] by (simp add: w_life_def)
  with assms(3,4) show ?thesis by (simp add: run_end_def)
qed

definition demo_ended :: world where
  "demo_ended = run_todo 0 run_end
     (demo_pressed\<lparr>wd_todo := (wd_todo demo_pressed)(0 := run_end), wd_phase := (wd_phase demo_pressed)(0 := Ending)\<rparr>)"

lemma run_todo_idle: "wd_phase (run_todo i secs w) = wd_phase w" "wd_todo w i = secs \<Longrightarrow> wd_todo (run_todo i secs w) i = []"
proof -
  have "wd_phase (run_todo i secs w) = wd_phase w \<and> (wd_todo w i = secs \<longrightarrow> wd_todo (run_todo i secs w) i = [])"
    by (induction secs arbitrary: w) (simp_all add: advance_def Let_def)
  then show "wd_phase (run_todo i secs w) = wd_phase w" "wd_todo w i = secs \<Longrightarrow> wd_todo (run_todo i secs w) i = []" by auto
qed

lemma demo_ended_reachable: "srv_reachable demo_server demo_ended"
proof -
  have "wd_phase demo_pressed 0 = Serving" "wd_todo demo_pressed 0 = []"
    by (simp_all add: demo_pressed_def demo_joined_def advance_def Let_def run_todo_idle)
  from read_ends [OF this] show ?thesis
    unfolding demo_ended_def by (intro run_todo_reachable) (auto intro: srv_next [OF demo_pressed_reachable])
qed

lemma connection_ends_witness:
  "wd_phase demo_ended 0 = Ending \<and> cn_closing (w_conn demo_ended 0) \<and> 0 \<notin> w_members demo_ended \<and>
   cn_heldSurfaceKeys (w_conn demo_ended 0) = {} \<and> (0, 3, False, True) \<in> set (sv_presses (wd_server demo_ended))"
proof -
  have "wd_phase demo_ended 0 = Ending" "wd_todo demo_ended 0 = []"
    by (simp_all add: demo_ended_def run_todo_idle)
  moreover have "(0, 3, False, True) \<in> set (sv_presses (wd_server demo_ended))" by code_simp
  ultimately show ?thesis
    using connection_ends [OF demo_config_valid demo_ended_reachable [unfolded demo_server_def], of 0] by blast
qed

text \<open>
  The first close wins: whatever happens after a connection began closing, it stays closing
  with the code, reason and manner of that first close.
\<close>

lemma first_close_wins:
  assumes "Config_validate parse cfg = None" "srv_reachable (NewServer cfg v sid sat) w"
    and "srv_step\<^sup>*\<^sup>* w w'" "cn_closing (w_conn w i)"
  shows "cn_closing (w_conn w' i) \<and> closeInfo (w_conn w' i) = closeInfo (w_conn w i)"
proof -
  have "srv_reachable (NewServer cfg v sid sat) w' \<and> stays_closed (w_conn w i) (w_conn w' i)"
    using assms(3)
  proof (induction rule: rtranclp_induct)
    case base
    show ?case using assms(2) closed.refl by blast
  next
    case (step y z)
    have "w_state_inv y" using step.IH reachable_invs [OF _ assms(1)] by blast
    from closed.step_any [OF step.hyps(2) this] step show ?case by (meson closed.trans srv_next)
  qed
  with assms(4) show ?thesis by (simp add: stays_closed_def)
qed

lemma first_close_wins_witness:
  "\<exists>w w'. srv_step\<^sup>*\<^sup>* w w' \<and> closeInfo (w_conn w 0) = (StatusGoingAway, ''keepalive failed'', False) \<and>
     closeInfo (w_conn w' 0) = (StatusGoingAway, ''keepalive failed'', False)"
proof -
  let ?w = "with_conn 0 (conn_close StatusGoingAway ''keepalive failed'' False) demo_joined"
  have reach: "srv_reachable demo_server ?w" by (rule srv_next [OF demo_joined_reachable fails])
  have closing: "cn_closing (w_conn ?w 0)" by (simp add: with_conn_def on_server_conn_def on_conn_def)
  have info: "closeInfo (w_conn ?w 0) = (StatusGoingAway, ''keepalive failed'', False)" by code_simp
  obtain w' where "srv_step ?w w'" using stops [of ?w] by blast
  then have "srv_step\<^sup>*\<^sup>* ?w w'" by simp
  with first_close_wins [OF demo_config_valid reach [unfolded demo_server_def] this closing] info show ?thesis by metis
qed

text \<open>
  The keys a client can hold are those of the grid: its held set never outgrows the surface,
  and is empty when there is none.
\<close>

lemma held_keys_bounded:
  assumes "Config_validate parse cfg = None" "srv_reachable (NewServer cfg v sid sat) w"
  shows "card (cn_heldSurfaceKeys (w_conn w i)) \<le>
    (case sv_surface (wd_server w) of None \<Rightarrow> 0 | Some m \<Rightarrow> nat (keyCount m))"
proof -
  have b: "cn_heldSurfaceKeys (w_conn w i) \<subseteq> {k. \<exists>m. sv_surface (wd_server w) = Some m \<and> inBounds m k}"
    using holds_reachable [OF assms(2,1)] by (simp add: holds_bounded_def)
  show ?thesis
  proof (cases "sv_surface (wd_server w)")
    case None
    with b show ?thesis by simp
  next
    case (Some m)
    with b have "cn_heldSurfaceKeys (w_conn w i) \<subseteq> {0..<keyCount m}" by (auto simp: inBounds_def)
    from card_mono [OF _ this] Some show ?thesis by simp
  qed
qed

lemma held_keys_bounded_witness: "card (cn_heldSurfaceKeys (w_conn demo_pressed 0)) \<le> 32"
proof -
  have "sv_surface (wd_server demo_pressed) = Some (mgr (wd_server demo_pressed))" "keyCount (mgr (wd_server demo_pressed)) = 32"
    by code_simp+
  with held_keys_bounded [OF demo_config_valid demo_pressed_reachable [unfolded demo_server_def], of 0] show ?thesis by simp
qed

end
