(* ===== verification/Handlers.thy ===== *)
theory Handlers
  imports ServerModel
begin

text \<open>
  What one inbound frame does (\<open>clientConn.handle\<close> and its handlers in
  server/internal/api/client.go): which answer it gets, when it ends the connection, and what a
  subscription change leaves behind.
\<close>

section \<open>Answers\<close>

text \<open>The ids of the acks and naks among the frames a handler enqueues, in order.\<close>

fun answered :: "locked list \<Rightarrow> string list" where
  "answered [] = []"
| "answered (Enqueue (AckFrame i) # r) = i # answered r"
| "answered (Enqueue (NakFrame i e m) # r) = i # answered r"
| "answered (_ # r) = answered r"

text \<open>The id of a well-formed command.\<close>

definition command_id :: "rjson option \<Rightarrow> string list" where
  "command_id data =
     (case decode_cmd data of
        Some f \<Rightarrow> if decode_envelope data = Some ''cmd'' \<and> cf_id f \<noteq> '''' \<and> cf_target f \<noteq> '''' then [cf_id f] else []
      | None \<Rightarrow> [])"

lemma answered_append [simp]: "answered (xs @ ys) = answered xs @ answered ys"
  by (induction xs rule: answered.induct) simp_all

lemma answered_handlers [simp]:
  "answered (protocol_error msg) = []" "answered (handleSubscription surf data sub) = []"
  "answered (handleSurfacePress surf data) = []" "answered (handlePing data) = []"
  by (auto simp: protocol_error_def handleSubscription_def handleSurfacePress_def handlePing_def
      split: option.splits bool.splits)

lemma answered_handle: "answered (snd (handle cfg surf press_ok data)) = command_id data"
  by (auto simp: handle_def handleCmd_def command_id_def split: option.splits prod.splits sum.splits)

text \<open>What the handlers of a stream of frames queue, each run with the press outcome it met.\<close>

definition handled :: "config \<Rightarrow> bool \<Rightarrow> ((location \<Rightarrow> bool) \<times> rjson option) list \<Rightarrow> locked list" where
  "handled cfg surf inputs = concat (map (\<lambda>(press_ok, data). snd (handle cfg surf press_ok data)) inputs)"

lemma handled_simps [simp]:
  "handled cfg surf [] = []"
  "handled cfg surf ((press_ok, data) # r) = snd (handle cfg surf press_ok data) @ handled cfg surf r"
  by (simp_all add: handled_def)

text \<open>Every state change directly follows the ack of its command (\<open>acked\<close>: one just was).\<close>

fun acks_first :: "bool \<Rightarrow> locked list \<Rightarrow> bool" where
  "acks_first acked [] = True"
| "acks_first acked (Apply f # r) = (acked \<and> acks_first False r)"
| "acks_first acked (Enqueue (AckFrame i) # r) = acks_first True r"
| "acks_first acked (_ # r) = acks_first False r"

lemma acks_first_mono: "acks_first False ys \<Longrightarrow> acks_first acked ys"
  by (cases "(False, ys)" rule: acks_first.cases) simp_all

lemma acks_first_append: "acks_first acked xs \<Longrightarrow> acks_first False ys \<Longrightarrow> acks_first acked (xs @ ys)"
  by (induction acked xs rule: acks_first.induct) (simp_all add: acks_first_mono)

lemma acks_first_handlers:
  "acks_first False (protocol_error msg)" "acks_first False (handleSubscription surf data sub)"
  "acks_first False (handleSurfacePress surf data)" "acks_first False (handlePing data)"
  by (auto simp: protocol_error_def handleSubscription_def handleSurfacePress_def handlePing_def
      split: option.splits bool.splits)

lemma acks_first_handleCmd: "acks_first False (snd (handleCmd cfg press_ok data))"
  by (simp add: handleCmd_def acks_first_handlers split: option.split prod.split sum.split)

lemma acks_first_handle: "acks_first False (snd (handle cfg surf press_ok data))"
  by (simp add: handle_def acks_first_handlers acks_first_handleCmd acks_first_append split: option.split)

text \<open>No handler but the one of a malformed frame closes the connection.\<close>

definition closes :: "locked list \<Rightarrow> bool" where
  "closes secs \<longleftrightarrow> list_ex (\<lambda>sec. case sec of CloseConn _ _ _ \<Rightarrow> True | _ \<Rightarrow> False) secs"

lemma closes_simps [simp]:
  "\<not> closes []" "closes (sec # r) \<longleftrightarrow> (case sec of CloseConn _ _ _ \<Rightarrow> True | _ \<Rightarrow> False) \<or> closes r"
  "closes (xs @ ys) \<longleftrightarrow> closes xs \<or> closes ys"
  by (simp_all add: closes_def)

lemma closes_iff: "closes secs \<longleftrightarrow> (\<exists>code reason g. CloseConn code reason g \<in> set secs)"
  by (induction secs) (auto split: locked.splits)

lemma handlers_stay_open [simp]:
  "\<not> closes (protocol_error msg)" "\<not> closes (handleSubscription surf data sub)"
  "\<not> closes (handleSurfacePress surf data)" "\<not> closes (handlePing data)"
  by (auto simp: protocol_error_def handleSubscription_def handleSurfacePress_def handlePing_def
      split: option.split bool.split)

lemma handleCmd_stays_open [simp]: "\<not> closes (snd (handleCmd cfg press_ok data))"
  by (simp add: handleCmd_def split: option.split prod.split sum.split)

lemma handle_closes: "closes (snd (handle cfg surf press_ok data)) \<longleftrightarrow> decode_envelope data = None"
  by (simp add: handle_def split: option.split)

section \<open>Properties of the handlers\<close>

text \<open>
  C20: Over any stream of inbound frames, every well-formed command is answered by exactly one
  ack or nak carrying its id, in the order the commands came, and nothing else is answered; and
  a command changes state only directly after its ack.
\<close>

theorem commands_answered_once:
  "answered (handled cfg surf inputs) = concat (map (command_id \<circ> snd) inputs) \<and>
   acks_first False (handled cfg surf inputs)"
  by (induction inputs) (auto simp: answered_handle acks_first_append [OF acks_first_handle])

text \<open>
  C37: Only a malformed frame makes a handler close the connection.  On an open connection with
  room in its queue the error frame is queued first and the close comes after it: at no point of
  the handler is the connection closing without the error frame as the last one queued, and it
  ends closing gracefully with code 1007.  Without room the connection ends closing with 1008,
  as for any frame that does not fit.
\<close>

theorem malformed_frame_closes:
  assumes "decode_envelope data = None" "\<not> cn_closing (hub_conns (sv_hub s) i)"
    and "\<And>n. c n = hub_conns (sv_hub (fold (exec accepts i) (take n (snd (handle cfg surf press_ok data))) s)) i"
  shows "(if length (sq_state (cn_send (hub_conns (sv_hub s) i))) < sendBuffer
      then (\<forall>n. cn_closing (c n) \<longrightarrow>
          sq_state (cn_send (c n)) = sq_state (cn_send (hub_conns (sv_hub s) i)) @ [ErrorFrame codeProtocol ''malformed JSON frame''] \<and>
          closeInfo (c n) = (1007, ''malformed frame'', True)) \<and>
        cn_closing (c (length (snd (handle cfg surf press_ok data))))
      else closeInfo (c (length (snd (handle cfg surf press_ok data)))) = (1008, ''client send buffer full'', False)) \<and>
    (\<exists>code reason g. CloseConn code reason g \<in> set (snd (handle cfg surf press_ok data'))) =
      (decode_envelope data' = None)"
proof -
  let ?c = "hub_conns (sv_hub s) i" and ?err = "ErrorFrame codeProtocol ''malformed JSON frame''"
  have secs: "snd (handle cfg surf press_ok data) = [Enqueue ?err, CloseConn 1007 ''malformed frame'' True]"
    using assms(1) by (simp add: handle_def protocol_error_def StatusInvalidFramePayloadData_def)
  have c: "c 0 = ?c" "c 1 = conn_enqueue ?err ?c"
      "c (Suc (Suc n)) = conn_close 1007 ''malformed frame'' True (conn_enqueue ?err ?c)" for n
    by (simp_all add: assms(3) secs on_server_conn_def on_conn_def)
  have "(\<exists>code reason g. CloseConn code reason g \<in> set (snd (handle cfg surf press_ok data'))) = (decode_envelope data' = None)"
    using handle_closes unfolding closes_iff .
  moreover have "closeInfo (c 2) = (1008, ''client send buffer full'', False)" if "\<not> length (sq_state (cn_send ?c)) < sendBuffer"
    using that c(3) [of 0] assms(2)
    by (simp add: numeral_2_eq_2 conn_enqueue_def pushOther_def conn_close_def closeInfo_def StatusPolicyViolation_def)
  moreover have "cn_closing (c (Suc (Suc n)))" for n by (simp add: c)
  moreover have "sq_state (cn_send (c n)) = sq_state (cn_send ?c) @ [?err] \<and> closeInfo (c n) = (1007, ''malformed frame'', True)"
    if "length (sq_state (cn_send ?c)) < sendBuffer" "cn_closing (c n)" for n
  proof -
    consider "n = 0" | "n = 1" | m where "n = Suc (Suc m)" by (metis One_nat_def not0_implies_Suc)
    then show ?thesis
      by cases (use that assms(2) c in \<open>simp_all add: conn_enqueue_def pushOther_def conn_close_def closeInfo_def\<close>)
  qed
  ultimately show ?thesis by (simp add: secs numeral_2_eq_2)
qed

lemma malformed_frame_closes_witness:
  "let secs = snd (handle demo_config True (\<lambda>_. True) None);
       c = (\<lambda>n. w_conn (demo_joined\<lparr>wd_server := fold (exec (\<lambda>_. True) 0) (take n secs) (wd_server demo_joined)\<rparr>) 0)
   in length secs = 2 \<and> cn_closing (c 2) \<and> closeInfo (c 2) = (1007, ''malformed frame'', True) \<and>
     sq_state (cn_send (c 2)) = sq_state (w_queue demo_joined 0) @ [ErrorFrame codeProtocol ''malformed JSON frame'']"
proof -
  have d: "decode_envelope None = None" "\<not> cn_closing (w_conn demo_joined 0)"
      "length (sq_state (w_queue demo_joined 0)) < sendBuffer"
    by code_simp+
  define secs where "secs = snd (handle demo_config True (\<lambda>_. True) None)"
  define c where "c n = w_conn (demo_joined\<lparr>wd_server := fold (exec (\<lambda>_. True) 0) (take n secs) (wd_server demo_joined)\<rparr>) 0" for n
  have c: "c n = hub_conns (sv_hub (fold (exec (\<lambda>_. True) 0) (take n secs) (wd_server demo_joined))) 0" for n
    by (simp add: c_def)
  have "length secs = 2" unfolding secs_def by code_simp
  with malformed_frame_closes [OF d(1,2) c [unfolded secs_def], of None] d(3)
  have "cn_closing (c 2)" "closeInfo (c 2) = (1007, ''malformed frame'', True)"
    "sq_state (cn_send (c 2)) = sq_state (w_queue demo_joined 0) @ [ErrorFrame codeProtocol ''malformed JSON frame'']"
    unfolding secs_def [symmetric] by simp_all
  with \<open>length secs = 2\<close> show ?thesis unfolding Let_def secs_def [symmetric] c_def [symmetric] by blast
qed

text \<open>A replay leaves everything but the surface lane alone.\<close>

lemma surface_push_state:
  fixes q :: "'d send_queue"
  shows "sq_state (pushSurfaceKey k n d q) = sq_state q" "sq_state (pushSurfaceLayout n d q) = sq_state q"
proof -
  show "sq_state (pushSurfaceKey k n d q) = sq_state q"
    by (simp add: pushSurfaceKey_def list_push_back_def Let_def split: option.split)
  have "sq_state (drop_keys n es q) = sq_state q" for es and q :: "'d send_queue"
    unfolding drop_keys_def
    by (induction es arbitrary: q) (auto simp: drop_key_def list_remove_def)
  then show "sq_state (pushSurfaceLayout n d q) = sq_state q"
    by (simp add: pushSurfaceLayout_def pushSurfaceLayout_in_def list_push_back_def list_remove_def Let_def split: option.split)
qed

lemma sendInitial_kept:
  "cn_topics (sendInitial m c) = cn_topics c" "cn_closing (sendInitial m c) = cn_closing c"
  "sq_state (cn_send (sendInitial m c)) = sq_state (cn_send c)"
proof -
  have "cn_topics (fold replay_key ks d) = cn_topics d \<and> cn_closing (fold replay_key ks d) = cn_closing d \<and>
      sq_state (cn_send (fold replay_key ks d)) = sq_state (cn_send d)" for ks d
  proof (induction ks arbitrary: d)
    case (Cons e ks)
    then show ?case by (cases e) (simp add: enqueueSurfaceKey_def surface_push_state)
  qed simp
  then show "cn_topics (sendInitial m c) = cn_topics c" "cn_closing (sendInitial m c) = cn_closing c"
      "sq_state (cn_send (sendInitial m c)) = sq_state (cn_send c)"
    by (simp_all add: sendInitial_def enqueueSurfaceLayout_def surface_push_state)
qed

text \<open>
  C28: A subscription change is all or nothing.  If every topic is known, the client ends in the
  hub with exactly the named topics switched, and, unless its queue overflowed, the last state
  frame it is sent is the snapshot for the new topics; otherwise the one thing that happens is an
  error naming the first unknown topic.  Other clients are not touched.
\<close>

theorem subscription_all_or_nothing:
  assumes "decode_subscribe data = Some f" "handleSubscription (sv_surface s \<noteq> None) data sub = secs"
    and "fold (exec accepts i) secs s = s'" "hub_conns (sv_hub s) i = c" "hub_conns (sv_hub s') i = c'" "j \<noteq> i"
  shows "(if list_all validTopic (sub_topics f)
     then i \<in> hub_clients (sv_hub s') \<and>
       cn_topics c' = (\<lambda>t. if t \<in> set (sub_topics f) then sub else cn_topics c t) \<and>
       (cn_closing c' \<or> sq_state (cn_send c') = sq_state (cn_send c) @
          [StateFrame (so_rev (sv_store s)) (FilterTopics (so_cur (sv_store s)) (cn_topics c'))])
     else \<exists>t. find (Not \<circ> validTopic) (sub_topics f) = Some t \<and>
       secs = [Enqueue (ErrorFrame codeUnknownTopic (''unknown topic: '' @ t))]) \<and>
    hub_conns (sv_hub s') j = hub_conns (sv_hub s) j"
proof (cases "list_all validTopic (sub_topics f)")
  case True
  then have "find (\<lambda>t. \<not> validTopic t) (sub_topics f) = None" by (auto simp: find_None_iff list_all_iff)
  with assms(1,2) have secs: "secs = [HubRemove, SetTopics sub (sub_topics f), TakeSnapshot True] @
      (if sv_surface s \<noteq> None then [ReplaySurface] else [])"
    by (auto simp: handleSubscription_def)
  define T where "T = (\<lambda>t. if t \<in> set (sub_topics f) then sub else cn_topics c t)"
  have T: "set_topics sub (sub_topics f) c = c\<lparr>cn_topics := T\<rparr>" by (simp add: set_topics_def T_def)
  define s1 where "s1 = sendSnapshot i True (on_server_conn i (set_topics sub (sub_topics f)) (s\<lparr>sv_hub := hub_remove i (sv_hub s)\<rparr>))"
  let ?c1 = "conn_enqueue (StateFrame (so_rev (sv_store s)) (FilterTopics (so_cur (sv_store s)) T)) (c\<lparr>cn_topics := T\<rparr>)"
  have s1: "i \<in> hub_clients (sv_hub s1)" "hub_conns (sv_hub s1) i = ?c1" "hub_conns (sv_hub s1) j = hub_conns (sv_hub s) j"
      "sv_surface s1 = sv_surface s"
    using assms(4,6)
    by (simp_all add: s1_def sendSnapshot_def SnapshotInto_def Snapshot_def on_server_conn_def on_conn_def hub_remove_def hub_add_def
        T Let_def)
  have s': "s' = (case sv_surface s of None \<Rightarrow> s1 | Some m \<Rightarrow> on_server_conn i (sendInitial m) s1)"
    using assms(3) s1(4) by (auto simp: secs s1_def split: option.split)
  have c1: "cn_closing ?c1 \<or> sq_state (cn_send ?c1) = sq_state (cn_send c) @
      [StateFrame (so_rev (sv_store s)) (FilterTopics (so_cur (sv_store s)) (cn_topics ?c1))]"
    by (simp add: conn_enqueue_def pushOther_def conn_close_def Let_def)
  have "i \<in> hub_clients (sv_hub s') \<and> hub_conns (sv_hub s') j = hub_conns (sv_hub s) j \<and>
      cn_topics c' = cn_topics ?c1 \<and> cn_closing c' = cn_closing ?c1 \<and> sq_state (cn_send c') = sq_state (cn_send ?c1)"
    using s1 assms(5,6) unfolding s' by (auto simp: on_server_conn_def on_conn_def sendInitial_kept split: option.split)
  with c1 True show ?thesis unfolding T_def [symmetric] by simp
next
  case False
  then obtain t where "find (\<lambda>t. \<not> validTopic t) (sub_topics f) = Some t"
    by (cases "find (\<lambda>t. \<not> validTopic t) (sub_topics f)") (auto simp: find_None_iff list_all_iff)
  with assms False show ?thesis
    by (auto simp: handleSubscription_def on_server_conn_def on_conn_def comp_def)
qed


definition camera_only :: "rjson option" where
  "camera_only = Some (RObj [(''type'', RStr ''unsubscribe''), (''topics'', RArr [RStr ''obs'', RStr ''slides''])])"

definition unknown_too :: "rjson option" where
  "unknown_too = Some (RObj [(''type'', RStr ''subscribe''), (''topics'', RArr [RStr ''obs'', RStr ''nope''])])"

lemma subscription_all_or_nothing_witness:
  "let s = wd_server demo_joined;
       surf = (sv_surface s \<noteq> None);
       s' = fold (exec (\<lambda>_. True) 0) (handleSubscription surf camera_only False) s
   in decode_subscribe camera_only = Some \<lparr>sub_topics = [''obs'', ''slides'']\<rparr> \<and>
     0 \<in> hub_clients (sv_hub s') \<and> cn_topics (hub_conns (sv_hub s') 0) ''camera'' \<and>
     \<not> cn_topics (hub_conns (sv_hub s') 0) ''obs'' \<and> hub_conns (sv_hub s') 1 = hub_conns (sv_hub s) 1 \<and>
     handleSubscription surf unknown_too True = [Enqueue (ErrorFrame codeUnknownTopic ''unknown topic: nope'')]"
proof -
  define surf where "surf = (sv_surface (wd_server demo_joined) \<noteq> None)"
  define s' where "s' = fold (exec (\<lambda>_. True) 0) (handleSubscription surf camera_only False) (wd_server demo_joined)"
  have d: "decode_subscribe camera_only = Some \<lparr>sub_topics = [''obs'', ''slides'']\<rparr>"
      "decode_subscribe unknown_too = Some \<lparr>sub_topics = [''obs'', ''nope'']\<rparr>" by code_simp+
  from subscription_all_or_nothing [OF d(1) refl s'_def [symmetric, unfolded surf_def] refl refl, where j = 1]
  have "0 \<in> hub_clients (sv_hub s')"
      "cn_topics (hub_conns (sv_hub s') 0) = (\<lambda>t. if t \<in> {''obs'', ''slides''} then False else cn_topics (w_conn demo_joined 0) t)"
      "hub_conns (sv_hub s') 1 = hub_conns (sv_hub (wd_server demo_joined)) 1"
    by (simp_all add: validTopic_def Topics_def)
  moreover have "handleSubscription surf unknown_too True = [Enqueue (ErrorFrame codeUnknownTopic ''unknown topic: nope'')]"
    using subscription_all_or_nothing [OF d(2) refl refl refl refl, where s = "wd_server demo_joined" and i = 0 and j = 1 and sub = True]
    unfolding surf_def [symmetric] by (simp add: validTopic_def Topics_def)
  moreover have "cn_topics (w_conn demo_joined 0) ''camera''" by code_simp
  ultimately show ?thesis using d(1) unfolding Let_def surf_def [symmetric] s'_def [symmetric] by simp
qed

end
