(* ===== verification/StateTypes.thy ===== *)
theory StateTypes
  imports ServerModel
begin

text \<open>
  The types of docs/protocol.md section 4: the shape of the object a client holds, and that the
  published state of every reachable server has it, as have the frames that carry a snapshot.
\<close>

section \<open>Types of JSON values\<close>

text \<open>The fields of a record: name, whether it is always there, and its type.\<close>

datatype ty = TBool | TNum | TStr | TArr ty | TMap ty | TRec "(string \<times> bool \<times> ty) list"

fun has_type :: "json \<Rightarrow> ty \<Rightarrow> bool" where
  "has_type (JBool _) TBool = True"
| "has_type (JNum _) TNum = True"
| "has_type (JStr _) TStr = True"
| "has_type (JArr xs) (TArr t) = (\<forall>x \<in> set xs. has_type x t)"
| "has_type (JObj m) (TMap t) = (\<forall>e \<in> set m. has_type (snd e) t)"
| "has_type (JObj m) (TRec fs) =
     ((\<forall>e \<in> set m. \<exists>f \<in> set fs. fst f = fst e \<and> has_type (snd e) (snd (snd f))) \<and>
      (\<forall>f \<in> set fs. fst (snd f) \<longrightarrow> fst f \<in> fst ` set m))"
| "has_type _ _ = False"

definition camera_type :: ty where
  "camera_type = TRec [(''preset'', True, TStr), (''pan'', True, TNum), (''tilt'', True, TNum), (''zoom'', True, TNum)]"

definition channel_type :: ty where
  "channel_type = TRec [(''mute'', True, TBool), (''level_db'', True, TNum), (''gain_db'', True, TNum)]"

definition dca_type :: ty where
  "dca_type = TRec [(''mute'', True, TBool), (''level_db'', True, TNum)]"

definition audio_type :: ty where
  "audio_type = TRec [(''channels'', False, TMap channel_type), (''dca'', False, TMap dca_type)]"

definition obs_type :: ty where
  "obs_type = TRec [(''scene'', True, TStr), (''streaming'', True, TBool), (''recording'', True, TBool), (''uptime_seconds'', False, TNum)]"

definition slides_type :: ty where
  "slides_type = TRec [(''current'', True, TNum), (''total'', True, TNum), (''title'', False, TStr), (''pending_actions'', True, TArr TStr)]"

definition chat_type :: ty where
  "chat_type = TRec [(''provider'', True, TStr), (''status'', True, TStr)]"

definition stream_type :: ty where
  "stream_type = TRec [(''platform'', False, TStr), (''viewers'', False, TNum), (''chat'', False, chat_type)]"

definition state_type :: ty where
  "state_type = TRec [(''audio'', False, audio_type), (''camera'', False, TMap camera_type), (''obs'', False, obs_type),
     (''slides'', False, slides_type), (''stream'', False, stream_type)]"

section \<open>The encoders are well typed\<close>

lemma set_obj_of: "set (obj_of fs) \<subseteq> {(k, v). (k, Some v) \<in> set fs}"
proof (induction fs)
  case (Cons p fs)
  then show ?case by (cases p) (auto simp: obj_of.simps set_gm_put obj_of_wf split: option.splits)
qed (simp add: obj_of.simps)

lemma obj_of_has: "(k, Some v) \<in> set fs \<Longrightarrow> k \<in> fst ` set (obj_of fs)"
proof (induction fs)
  case (Cons p fs)
  then show ?case by (cases p) (force simp: obj_of.simps set_gm_put obj_of_wf split: option.splits)
qed simp

text \<open>An object has a record type if each field it may have does and the required ones are there.\<close>

lemma obj_of_typed:
  assumes "\<forall>p \<in> set fs. \<forall>v. snd p = Some v \<longrightarrow> (\<exists>f \<in> set ts. fst f = fst p \<and> has_type v (snd (snd f)))"
    and "\<forall>f \<in> set ts. fst (snd f) \<longrightarrow> (\<exists>v. (fst f, Some v) \<in> set fs)"
  shows "has_type (JObj (obj_of fs)) (TRec ts)"
  using assms set_obj_of [of fs] obj_of_has [of _ _ fs] by fastforce

lemma json_map_typed:
  assumes "\<And>x j. enc x = Some j \<Longrightarrow> has_type j t" "ptr_map_ok m" "json_map enc m = Some js"
  shows "has_type (JObj js) (TMap t)"
  using assms(2,3)
proof (induction m arbitrary: js)
  case (Cons e m)
  obtain k v where e: "e = (k, v)" by (cases e)
  from Cons.prems(1) obtain x where "v = Some x" and m: "ptr_map_ok m" by (auto simp: ptr_map_ok_def e gm_wf_Cons)
  with Cons.prems(2) obtain j js' where "enc x = Some j" "json_map enc m = Some js'" "js = (k, j) # js'"
    by (auto simp: e split: option.splits)
  with Cons.IH [OF m] assms(1) show ?case by simp
qed simp

lemma json_float_typed: "json_float f = Some j \<Longrightarrow> has_type j TNum"
  by (cases f) auto

lemma scalar_typed:
  "has_type (JStr s) TStr" "has_type (JBool b) TBool" "has_type (json_int n) TNum" "has_type (JArr (map JStr xs)) (TArr TStr)"
  by (simp_all add: json_int_def)

text \<open>The shape of a record whose fields are all there.\<close>

lemma obj_of_all_typed:
  assumes "list_all2 (\<lambda>(k, v) (n, r, t). k = n \<and> (\<exists>j. v = Some j \<and> has_type j t)) fs ts"
  shows "has_type (JObj (obj_of fs)) (TRec ts)"
proof (rule obj_of_typed)
  show "\<forall>p \<in> set fs. \<forall>v. snd p = Some v \<longrightarrow> (\<exists>f \<in> set ts. fst f = fst p \<and> has_type v (snd (snd f)))"
    using assms by (induction fs ts rule: list_all2_induct) auto
  show "\<forall>f \<in> set ts. fst (snd f) \<longrightarrow> (\<exists>v. (fst f, Some v) \<in> set fs)"
    using assms by (induction fs ts rule: list_all2_induct) auto
qed

lemma json_camera_typed: "json_camera c = Some j \<Longrightarrow> has_type j camera_type"
  unfolding camera_type_def json_camera_def
  by (auto simp del: has_type.simps simp: json_float_typed scalar_typed intro!: obj_of_all_typed split: option.splits)

lemma json_channel_typed: "json_channel c = Some j \<Longrightarrow> has_type j channel_type"
  unfolding channel_type_def json_channel_def
  by (auto simp del: has_type.simps simp: json_float_typed scalar_typed intro!: obj_of_all_typed split: option.splits)

lemma json_dca_typed: "json_dca d = Some j \<Longrightarrow> has_type j dca_type"
  unfolding dca_type_def json_dca_def
  by (auto simp del: has_type.simps simp: json_float_typed scalar_typed intro!: obj_of_all_typed split: option.splits)

lemma json_obs_typed: "has_type (json_obs b) obs_type"
  unfolding json_obs_def obs_type_def
  by (rule obj_of_typed) (auto simp: scalar_typed omit_if_Some simp del: has_type.simps)

lemma json_chat_typed: "has_type (json_chat c) chat_type"
  unfolding json_chat_def chat_type_def
  by (rule obj_of_typed) (auto simp: scalar_typed omit_if_Some simp del: has_type.simps)

lemma json_stream_typed: "has_type (json_stream s) stream_type"
  unfolding json_stream_def stream_type_def
  by (rule obj_of_typed) (auto simp: scalar_typed json_chat_typed omit_if_Some simp del: has_type.simps)

lemma json_slides_typed: "sl_pending_actions s \<noteq> None \<Longrightarrow> has_type (json_slides s) slides_type"
  unfolding json_slides_def slides_type_def
  by (rule obj_of_typed) (auto simp: scalar_typed omit_if_Some simp del: has_type.simps split: option.splits)

lemma json_audio_typed:
  assumes "ptr_map_ok (au_channels a)" "ptr_map_ok (au_dca a)" "json_audio a = Some j"
  shows "has_type j audio_type"
proof -
  obtain cs ds where e: "json_map json_channel (au_channels a) = Some cs" "json_map json_dca (au_dca a) = Some ds"
    "j = JObj (obj_of [(''channels'', omit_if (cs = []) (JObj cs)), (''dca'', omit_if (ds = []) (JObj ds))])"
    using assms(3) by (auto simp: json_audio_def split: option.splits)
  have "has_type (JObj cs) (TMap channel_type)" "has_type (JObj ds) (TMap dca_type)"
    by (rule json_map_typed [OF _ assms(1) e(1)], erule json_channel_typed,
        rule json_map_typed [OF _ assms(2) e(2)], erule json_dca_typed)
  then show ?thesis
    unfolding e(3) audio_type_def by (intro obj_of_typed) (auto simp: omit_if_Some simp del: has_type.simps)
qed

lemma toMap_typed:
  assumes "state_ok s" "normalized s" "toMap s = Some m"
  shows "has_type (JObj m) state_type"
proof -
  obtain audio cams where e:
    "(case st_audio s of None \<Rightarrow> Some None | Some a \<Rightarrow> map_option Some (json_audio a)) = Some audio"
    "json_map json_camera (st_camera s) = Some cams"
    "m = obj_of [(''audio'', audio), (''camera'', omit_if (cams = []) (JObj cams)),
                 (''obs'', map_option json_obs (st_obs s)), (''slides'', map_option json_slides (st_slides s)),
                 (''stream'', map_option json_stream (st_stream s))]"
    using assms(3) by (auto simp: toMap_def split: option.splits)
  have cams: "has_type (JObj cams) (TMap camera_type)"
    using json_map_typed [OF json_camera_typed _ e(2)] assms(1) by (simp add: state_ok_def)
  have audio: "has_type j audio_type" if "audio = Some j" for j
    using that e(1) assms(1) json_audio_typed by (auto simp: state_ok_def split: option.splits)
  have slides: "has_type (json_slides sl) slides_type" if "st_slides s = Some sl" for sl
    using assms(2) that by (auto simp: normalized_def intro!: json_slides_typed)
  show ?thesis
    unfolding e(3) state_type_def
    by (rule obj_of_typed) (auto simp: omit_if_Some cams audio slides json_obs_typed json_stream_typed simp del: has_type.simps)
qed

section \<open>Every reachable server is well typed\<close>

definition store_typed :: "'w store \<Rightarrow> bool" where
  "store_typed s \<longleftrightarrow> has_type (JObj (so_cur s)) state_type"

lemma Update_typed:
  assumes "store_ok s" "mutator_ok f" "store_typed s"
  shows "store_typed (fst (Update f s w))"
  using assms(1,2)
proof (cases rule: Update_cases [of s f w])
  case (changed s' nxt patch)
  have "state_ok (normalize (f (so_st s)))" using assms(1,2) by (auto simp: store_ok_def mutator_ok_def intro: normalize_ok)
  from toMap_typed [OF this normalize_normalized changed(2)] changed show ?thesis by (simp add: store_typed_def)
qed (use assms(3) in \<open>auto simp: store_typed_def\<close>)

lemma exec_typed:
  assumes "server_ok s" "todo_ok m (sec # rest)" "store_typed (sv_store s)"
  shows "store_typed (sv_store (exec accepts i sec s))"
proof -
  have sq: "sq_ok (cn_send (hub_conns (sv_hub s) j))" for j using assms(1) by (simp add: server_ok_def)
  show ?thesis
  proof (cases sec)
    case (Apply f)
    with assms Update_typed [of "sv_store s" f "sv_hub s"] show ?thesis
      by (auto simp: applyState_def server_ok_def split: prod.splits)
  next
    case (SurfacePress key pressed)
    with harmless_surface_press [OF sq, of accepts i key pressed] assms(3) show ?thesis by (simp add: harmless_server_def)
  next
    case ReleaseHeld
    with harmless_release [OF sq, of accepts i] assms(3) show ?thesis by (simp add: harmless_server_def)
  qed (use assms(3) in \<open>simp_all add: on_server_conn_def sendSnapshot_def split: option.splits\<close>)
qed

lemma step_typed:
  assumes "srv_step w w'" "w_state_inv w" "store_typed (sv_store (wd_server w))"
  shows "store_typed (sv_store (wd_server w'))"
  using assms(1)
proof cases
  case (runs i sec rest accepts)
  have "server_ok (wd_server w)" "todo_ok (i \<in> w_members w) (sec # rest)"
    using assms(2) runs(2) by (auto simp: state_inv_def) (metis runs(2))
  from exec_typed [OF this assms(3), of accepts i] show ?thesis by (simp add: runs(1) advance_def Let_def)
next
  case (polls f)
  have "store_ok (sv_store (wd_server w))" using assms(2) by (simp add: state_inv_def server_ok_def)
  from Update_typed [OF this polls(2) assms(3), of "sv_hub (wd_server w)"] show ?thesis
    by (auto simp: polls(1) applyState_def split: prod.splits)
qed (use assms(3) in \<open>simp_all add: with_conn_def on_server_conn_def\<close>)

lemma reachable_typed:
  assumes "srv_reachable (NewServer cfg v sid sat) w" "Config_validate parse cfg = None"
  shows "store_typed (sv_store (wd_server w))"
  using assms(1)
proof (induction rule: srv_reachable.induct)
  case srv_start
  show ?case by (simp add: start_world_def NewServer_def SetObserver_def NewStore_def store_typed_def state_type_def)
next
  case (srv_next w w')
  with reachable_invs [OF _ assms(2)] step_typed show ?case by blast
qed

lemma scoped_typed: "has_type (JObj m) state_type \<Longrightarrow> has_type (JObj (scoped topics m)) state_type"
  by (auto simp: state_type_def scoped_eq)

lemma snapshot_frame_fields:
  assumes "gm_wf m" "set (gm_keys m) \<subseteq> set Topics"
  shows "gm_get (frame_json (StateFrame r (FilterTopics m topics))) ''type'' = Some (JStr ''state'')"
    "gm_get (frame_json (StateFrame r (FilterTopics m topics))) ''rev'' = Some (jint r)"
    "k \<in> set Topics \<Longrightarrow> gm_get (frame_json (StateFrame r (FilterTopics m topics))) k = (if topics k then gm_get m k else None)"
proof -
  have out: "gm_wf [(''rev'', jint r), (''type'', JStr ''state'')]" by code_simp
  have get: "gm_get (frame_json (StateFrame r (FilterTopics m topics))) k =
      (case (if topics k then gm_get m k else None) of Some v \<Rightarrow> Some v | None \<Rightarrow> gm_get [(''rev'', jint r), (''type'', JStr ''state'')] k)" for k
    using get_flatten [OF out scoped_wf [OF assms(1), of topics], of k] get_scoped [OF assms(1), of topics k] by simp
  have "gm_get m k = None" if "k \<in> {''type'', ''rev''}" for k
    using assms(2) that by (auto simp: map_of_eq_None_iff Topics_def)
  then show "gm_get (frame_json (StateFrame r (FilterTopics m topics))) ''type'' = Some (JStr ''state'')"
      "gm_get (frame_json (StateFrame r (FilterTopics m topics))) ''rev'' = Some (jint r)"
    by (simp_all add: get del: frame_json.simps)
  show "k \<in> set Topics \<Longrightarrow> gm_get (frame_json (StateFrame r (FilterTopics m topics))) k = (if topics k then gm_get m k else None)"
    by (auto simp: get Topics_def simp del: frame_json.simps split: option.split)
qed

section \<open>Property\<close>

text \<open>
  C17: The types of the protocol hold in every reachable state: the published object has the
  documented shape, so does what any client in the hub makes of its snapshot and the deltas it
  merged, whatever its topics; and in the frame that carries a snapshot no topic displaces the
  frame's type or its revision.
\<close>

theorem client_state_typed:
  assumes "Config_validate parse cfg = None" "srv_reachable (NewServer cfg v sid sat) w"
    and "st = sv_store (wd_server w)"
  shows "has_type (JObj (so_cur st)) state_type \<and>
    (\<forall>i \<in> w_members w. \<not> cn_closing (w_conn w i) \<longrightarrow>
       has_type (state_view (wd_got w i @ sq_state (w_queue w i))) state_type) \<and>
    (\<forall>topics. gm_get (frame_json (StateFrame (so_rev st) (FilterTopics (so_cur st) topics))) ''type'' = Some (JStr ''state'') \<and>
       gm_get (frame_json (StateFrame (so_rev st) (FilterTopics (so_cur st) topics))) ''rev'' = Some (jint (so_rev st)) \<and>
       (\<forall>k \<in> set Topics. gm_get (frame_json (StateFrame (so_rev st) (FilterTopics (so_cur st) topics))) k =
          (if topics k then gm_get (so_cur st) k else None)))"
proof -
  have t: "has_type (JObj (so_cur st)) state_type"
    using reachable_typed [OF assms(2,1)] by (simp add: store_typed_def assms(3))
  have inv: "w_state_inv w" using reachable_invs [OF assms(2,1)] by blast
  then have "store_ok st" by (simp add: state_inv_def server_ok_def assms(3))
  then have m: "gm_wf (so_cur st)" "set (gm_keys (so_cur st)) \<subseteq> set Topics" by (simp_all add: store_ok_def)
  have view: "has_type (state_view (wd_got w i @ sq_state (w_queue w i))) state_type"
    if "i \<in> w_members w" "\<not> cn_closing (w_conn w i)" for i
  proof -
    have "state_view (wd_got w i @ sq_state (w_queue w i)) = JObj (scoped (cn_topics (w_conn w i)) (so_cur st))"
      using inv that by (auto simp: state_inv_def state_synced_def snapshot_object_def Snapshot_def assms(3) Let_def)
    with scoped_typed [OF t] show ?thesis by simp
  qed
  show ?thesis using t view snapshot_frame_fields [OF m] by blast
qed

lemma client_state_typed_witness:
  "has_type (state_view (wd_got demo_polled 0 @ sq_state (w_queue demo_polled 0))) state_type \<and>
   gm_get (so_cur (sv_store (wd_server demo_polled))) ''camera'' \<noteq> None"
proof -
  have m: "0 \<in> w_members demo_polled" "\<not> cn_closing (w_conn demo_polled 0)"
      "gm_get (so_cur (sv_store (wd_server demo_polled))) ''camera'' \<noteq> None"
    by code_simp+
  show ?thesis
    using client_state_typed [OF demo_config_valid demo_polled_reachable [unfolded demo_server_def] refl] m by blast
qed

end
