(* ===== verification/WriteLoop.thy ===== *)
theory WriteLoop
  imports SendQueue
begin

text \<open>
  The write loop of a connection (\<open>writeLoop\<close>, \<open>writeFrame\<close> and \<open>flushRemaining\<close> of
  server/internal/api/client.go) against producers on other goroutines.  A push takes the
  queue's lock for its change and signals \<open>wake\<close> only after releasing it, so the two are
  separate steps here and anything may happen in between; \<open>lp_pokes\<close> counts the producers
  that are in between.  A write that fails closes the connection.
\<close>

section \<open>The loop and its producers\<close>

datatype 'd push_call = PushState 'd | PushKey int int 'd | PushLayout int 'd

fun run_push :: "'d push_call \<Rightarrow> 'd send_queue \<Rightarrow> 'd send_queue" where
  "run_push (PushState d) q = fst (pushOther d q)"
| "run_push (PushKey k n d) q = pushSurfaceKey k n d q"
| "run_push (PushLayout n d) q = pushSurfaceLayout n d q"

text \<open>The part of a call that holds the lock, and whether it then signals.\<close>

definition push_locked :: "'d push_call \<Rightarrow> 'd send_queue \<Rightarrow> 'd send_queue" where
  "push_locked p q = (run_push p q)\<lparr>sq_wake := sq_wake q\<rparr>"

definition push_signals :: "'d push_call \<Rightarrow> 'd send_queue \<Rightarrow> bool" where
  "push_signals p q = sq_wake (run_push p (q\<lparr>sq_wake := False\<rparr>))"

text \<open>\<open>Popping\<close> is the top of the loop, \<open>Selecting\<close> its \<open>select\<close>.\<close>

datatype writer = Popping | Selecting | Flushing | Stopped

record 'd write_loop =
  lp_queue :: "'d send_queue"
  lp_pokes :: nat
  lp_writer :: writer
  lp_done :: bool
  lp_written :: "'d list"

inductive writer_step :: "'d write_loop \<Rightarrow> 'd write_loop \<Rightarrow> bool" where
  pop_writes: "lp_writer l \<in> {Popping, Flushing} \<Longrightarrow> pop (lp_queue l) = (q, Some d) \<Longrightarrow>
    writer_step l (l\<lparr>lp_queue := q, lp_written := lp_written l @ [d]\<rparr>)"
| pop_fails: "lp_writer l \<in> {Popping, Flushing} \<Longrightarrow> pop (lp_queue l) = (q, Some d) \<Longrightarrow>
    writer_step l (l\<lparr>lp_queue := q, lp_writer := Stopped, lp_done := True\<rparr>)"
| pop_nothing: "lp_writer l = Popping \<Longrightarrow> pop (lp_queue l) = (q, None) \<Longrightarrow>
    writer_step l (l\<lparr>lp_queue := q, lp_writer := Selecting\<rparr>)"
| flushed: "lp_writer l = Flushing \<Longrightarrow> pop (lp_queue l) = (q, None) \<Longrightarrow>
    writer_step l (l\<lparr>lp_queue := q, lp_writer := Stopped\<rparr>)"
| woken: "lp_writer l = Selecting \<Longrightarrow> sq_wake (lp_queue l) \<Longrightarrow>
    writer_step l (l\<lparr>lp_queue := (lp_queue l)\<lparr>sq_wake := False\<rparr>, lp_writer := Popping\<rparr>)"
| done_seen: "lp_writer l = Selecting \<Longrightarrow> lp_done l \<Longrightarrow> writer_step l (l\<lparr>lp_writer := Flushing\<rparr>)"

inductive loop_step :: "'d write_loop \<Rightarrow> 'd write_loop \<Rightarrow> bool" where
  pushes: "loop_step l (l\<lparr>lp_queue := push_locked p (lp_queue l),
     lp_pokes := lp_pokes l + (if push_signals p (lp_queue l) then 1 else 0)\<rparr>)"
| pokes: "lp_pokes l = Suc n \<Longrightarrow> loop_step l (l\<lparr>lp_queue := poke (lp_queue l), lp_pokes := n\<rparr>)"
| closes: "loop_step l (l\<lparr>lp_done := True\<rparr>)"
| writer: "writer_step l l' \<Longrightarrow> loop_step l l'"

definition new_loop :: "'d write_loop" where
  "new_loop = \<lparr>lp_queue = newSendQueue, lp_pokes = 0, lp_writer = Popping, lp_done = False, lp_written = []\<rparr>"

inductive loop_reachable :: "'d write_loop \<Rightarrow> bool" where
  loop_start: "loop_reachable new_loop"
| loop_next: "loop_reachable l \<Longrightarrow> loop_step l l' \<Longrightarrow> loop_reachable l'"

inductive_cases writer_stepE: "writer_step l l'"

section \<open>No signal is lost\<close>

lemma pop_counts:
  "pop q = (q', Some d) \<Longrightarrow> depth q = Suc (depth q')"
  "pop q = (q', None) \<Longrightarrow> q' = q \<and> depth q = 0"
  by (auto simp: pop_def depth_def Let_def list_remove_def split: list.splits if_splits)

lemma pop_some: "depth q > 0 \<Longrightarrow> \<exists>q' d. pop q = (q', Some d)"
  by (cases "pop q"; cases "snd (pop q)") (auto dest: pop_counts)

text \<open>A call that does not signal leaves the queue's contents as they were.\<close>

lemma push_quiet:
  assumes "\<not> push_signals p q" "depth (push_locked p q) > 0"
  shows "depth q > 0"
  using assms
  by (cases p)
     (auto simp: push_signals_def push_locked_def pushOther_def pushSurfaceKey_def pushSurfaceLayout_def
        pushSurfaceLayout_in_def depth_def poke_def Let_def elem_value_def sendBuffer_def split: option.splits if_splits prod.splits)

definition wake_owed :: "'d write_loop \<Rightarrow> bool" where
  "wake_owed l \<longleftrightarrow> (lp_writer l = Selecting \<and> depth (lp_queue l) > 0 \<longrightarrow> sq_wake (lp_queue l) \<or> lp_pokes l > 0) \<and>
     (lp_writer l = Stopped \<or> lp_writer l = Flushing \<longrightarrow> lp_done l)"

lemma wake_owed_step: "loop_step l l' \<Longrightarrow> wake_owed l \<Longrightarrow> wake_owed l'"
proof (induction rule: loop_step.induct)
  case (pushes l p)
  then show ?case using push_quiet [of p "lp_queue l"] by (auto simp: wake_owed_def push_locked_def)
next
  case (writer l l')
  then show ?case by (cases rule: writer_step.cases) (auto simp: wake_owed_def dest: pop_counts)
qed (auto simp: wake_owed_def depth_def poke_def)

lemma wake_owed_reachable: "loop_reachable l \<Longrightarrow> wake_owed l"
  by (induction rule: loop_reachable.induct) (auto simp: new_loop_def wake_owed_def dest: wake_owed_step)

fun writer_rank :: "writer \<Rightarrow> nat" where
  "writer_rank Stopped = 0"
| "writer_rank Flushing = 1"
| "writer_rank Selecting = 2"
| "writer_rank Popping = 3"

definition writer_work :: "'d write_loop \<Rightarrow> nat" where
  "writer_work l = 4 * depth (lp_queue l) + (if sq_wake (lp_queue l) then 2 else 0) + writer_rank (lp_writer l)"


lemma pop_wake: "pop q = (q', x) \<Longrightarrow> sq_wake q' = sq_wake q"
  by (auto simp: pop_def Let_def list_remove_def split: list.splits if_splits)

lemma writer_works: "writer_step l l' \<Longrightarrow> writer_work l' < writer_work l"
  by (induction rule: writer_step.induct)
     (auto simp: writer_work_def depth_def dest!: pop_counts(1) pop_counts(2) dest: pop_wake split: if_splits)

lemma writer_stuck:
  assumes "wake_owed l" "lp_pokes l = 0" "\<not> (\<exists>l'. writer_step l l')"
  shows "lp_writer l = Stopped \<and> lp_done l \<or> lp_writer l = Selecting \<and> depth (lp_queue l) = 0 \<and> \<not> lp_done l"
proof (cases "lp_writer l")
  case Selecting
  with assms(3) have "\<not> sq_wake (lp_queue l)" "\<not> lp_done l" by (auto dest: woken done_seen)
  with Selecting assms(1,2) show ?thesis by (auto simp: wake_owed_def)
next
  case Stopped
  with assms(1) show ?thesis by (simp add: wake_owed_def)
next
  case Popping
  obtain q x where "pop (lp_queue l) = (q, x)" by fastforce
  with Popping assms(3) pop_writes [of l q] pop_nothing [of l q] show ?thesis by (cases x) auto
next
  case Flushing
  obtain q x where "pop (lp_queue l) = (q, x)" by fastforce
  with Flushing assms(3) pop_writes [of l q] flushed [of l q] show ?thesis by (cases x) auto
qed

text \<open>
  C25: The write loop loses no signal and always comes to rest: however producers' pushes and
  signals, closes and the writer's own steps have interleaved, from there the writer alone takes
  at most \<open>writer_work\<close> steps, and when it can take no more and no producer is about to
  signal, it has either stopped on a closed connection or waits with an empty queue.
\<close>

theorem write_loop_drains:
  assumes "loop_reachable l" "(writer_step ^^ n) l l'"
  shows "n \<le> writer_work l \<and>
    (lp_pokes l' = 0 \<and> \<not> (\<exists>l''. writer_step l' l'') \<longrightarrow>
       lp_writer l' = Stopped \<and> lp_done l' \<or> lp_writer l' = Selecting \<and> depth (lp_queue l') = 0 \<and> \<not> lp_done l')"
proof -
  have "loop_reachable l' \<and> n + writer_work l' \<le> writer_work l"
    using assms(2)
  proof (induction n arbitrary: l')
    case 0
    with assms(1) show ?case by simp
  next
    case (Suc n)
    then obtain m where "(writer_step ^^ n) l m" and step: "writer_step m l'" by auto
    with Suc.IH have m: "loop_reachable m" "n + writer_work m \<le> writer_work l" by auto
    from m(1) writer [OF step] have "loop_reachable l'" by (rule loop_next)
    with writer_works [OF step] m(2) show ?case by simp
  qed
  with writer_stuck [OF wake_owed_reachable] show ?thesis by auto
qed

text \<open>A frame is pushed just before the loop waits, and its signal comes once it does.\<close>

definition demo_loop :: "nat write_loop" where
  "demo_loop = new_loop\<lparr>lp_writer := Selecting, lp_queue := poke (push_locked (PushState 7) newSendQueue)\<rparr>"

lemma demo_loop_reachable: "loop_reachable demo_loop"
proof -
  let ?l1 = "(new_loop :: nat write_loop)\<lparr>lp_writer := Selecting\<rparr>"
  let ?l2 = "?l1\<lparr>lp_queue := push_locked (PushState 7) newSendQueue, lp_pokes := 1\<rparr>"
  have "writer_step new_loop (new_loop\<lparr>lp_queue := newSendQueue, lp_writer := Selecting\<rparr> :: nat write_loop)"
    by (rule pop_nothing) (simp_all add: new_loop_def pop_def newSendQueue_def)
  then have "writer_step (new_loop :: nat write_loop) ?l1" by (simp add: new_loop_def)
  from loop_next [OF loop_start writer [OF this]] have "loop_reachable ?l1" .
  moreover have "loop_step ?l1 ?l2"
    using pushes [of ?l1 "PushState 7"]
    by (simp add: new_loop_def push_signals_def pushOther_def newSendQueue_def sendBuffer_def poke_def)
  ultimately have "loop_reachable ?l2" by (rule loop_next)
  moreover have "loop_step ?l2 demo_loop"
    using pokes [of ?l2 0] by (simp add: demo_loop_def new_loop_def)
  ultimately show ?thesis by (rule loop_next)
qed

lemma write_loop_drains_witness:
  "\<exists>l'. (writer_step ^^ 3) demo_loop l' \<and> lp_written l' = [7] \<and> 3 \<le> writer_work demo_loop \<and>
     lp_writer l' = Selecting \<and> depth (lp_queue l') = 0"
proof -
  let ?q = "newSendQueue\<lparr>sq_state := [7 :: nat]\<rparr>"
  have q: "lp_queue demo_loop = ?q\<lparr>sq_wake := True\<rparr>" "lp_writer demo_loop = Selecting"
    by (simp_all add: demo_loop_def push_locked_def pushOther_def poke_def newSendQueue_def sendBuffer_def)
  let ?a = "demo_loop\<lparr>lp_queue := ?q, lp_writer := Popping\<rparr>"
  let ?b = "?a\<lparr>lp_queue := newSendQueue, lp_written := [7]\<rparr>"
  let ?c = "?b\<lparr>lp_writer := Selecting\<rparr>"
  have 1: "writer_step demo_loop ?a" using woken [of demo_loop] by (simp add: q newSendQueue_def)
  have 2: "writer_step ?a ?b"
    using pop_writes [of ?a newSendQueue 7] by (simp add: pop_def newSendQueue_def demo_loop_def new_loop_def)
  have 3: "writer_step ?b ?c"
    using pop_nothing [of ?b newSendQueue] by (simp add: pop_def newSendQueue_def demo_loop_def new_loop_def)
  have "(writer_step ^^ 3) demo_loop ?c" using 1 2 3 by (auto simp: numeral_3_eq_3 relcompp_apply)
  with write_loop_drains [OF demo_loop_reachable this] show ?thesis
    by (intro exI [of _ ?c]) (auto simp: depth_def newSendQueue_def)
qed

end
