(* ===== verification/ConnLifecycle.thy ===== *)
theory ConnLifecycle
  imports WriteLoop Connection
begin

text \<open>
  The goroutines of one connection (\<open>run\<close>, \<open>readLoop\<close>, \<open>pingLoop\<close>, \<open>close\<close> and \<open>gracefulClose\<close> of
  server/internal/api/client.go, with the write loop of \<open>WriteLoop\<close>) and who of them touches the
  socket when.  \<open>run\<close> reads on its own goroutine; beside it are the writer, the pinger and the
  bridge from the server's context; the hub pushes frames and may close from any goroutine.  A
  close that is not graceful calls \<open>CloseNow\<close> after it has released the connection's lock, so
  the two are separate steps here and \<open>lc_closeNow\<close> says one is owed.
\<close>

section \<open>The goroutines\<close>

text \<open>\<open>Checking\<close>: a frame has been handled and the loop looks at \<open>done\<close>; \<open>Waiting\<close>: \<open>wg.Wait\<close>;
  then the handshake of a graceful close and the deferred calls.\<close>

datatype run_pc =
    Joining | Replaying | Reading | Handling | Checking | Leaving | Waiting | Shaking
  | Releasing | Removing | Cancelling | Returned

datatype ping_pc = PingWaiting | Pinging | PingEnded

datatype bridge_pc = Bridging | BridgeCancels | BridgeEnded

text \<open>
  \<open>lc_open\<close>: the socket has not been closed on this side.  \<open>lc_handshake\<close>: the code and reason
  \<open>conn.Close\<close> was called with.  \<open>lc_released\<close>: the keys the deferred release found held.
\<close>

record lifecycle =
  lc_conn :: conn
  lc_run :: run_pc
  lc_writer :: writer
  lc_ping :: ping_pc
  lc_bridge :: bridge_pc
  lc_pokes :: nat
  lc_written :: "frame list"
  lc_open :: bool
  lc_closeNow :: bool
  lc_parentDone :: bool
  lc_dispatchDone :: bool
  lc_handshake :: "(int \<times> string) option"
  lc_released :: "int set"
  lc_removed :: bool

definition new_lifecycle :: lifecycle where
  "new_lifecycle =
     \<lparr>lc_conn = newClientConn, lc_run = Joining, lc_writer = Popping, lc_ping = PingWaiting, lc_bridge = Bridging,
      lc_pokes = 0, lc_written = [], lc_open = True, lc_closeNow = False, lc_parentDone = False, lc_dispatchDone = False,
      lc_handshake = None, lc_released = {}, lc_removed = False\<rparr>"

definition lc_closing :: "lifecycle \<Rightarrow> bool" where
  "lc_closing c \<longleftrightarrow> cn_closing (lc_conn c)"

text \<open>\<open>run\<close> starts the other goroutines once it has joined the hub.\<close>

definition lc_started :: "lifecycle \<Rightarrow> bool" where
  "lc_started c \<longleftrightarrow> lc_run c \<noteq> Joining"

definition lc_close :: "int \<Rightarrow> string \<Rightarrow> bool \<Rightarrow> lifecycle \<Rightarrow> lifecycle" where
  "lc_close code reason graceful c =
     c\<lparr>lc_conn := conn_close code reason graceful (lc_conn c),
       lc_closeNow := (lc_closeNow c \<or> \<not> lc_closing c \<and> \<not> graceful)\<rparr>"

text \<open>The write loop's view of the connection.\<close>

definition loop_of :: "lifecycle \<Rightarrow> frame write_loop" where
  "loop_of c = \<lparr>lp_queue = cn_send (lc_conn c), lp_pokes = lc_pokes c, lp_writer = lc_writer c,
     lp_done = lc_closing c, lp_written = lc_written c\<rparr>"

definition with_queue :: "frame send_queue \<Rightarrow> lifecycle \<Rightarrow> lifecycle" where
  "with_queue q c = c\<lparr>lc_conn := (lc_conn c)\<lparr>cn_send := q\<rparr>\<rparr>"

text \<open>A step of the writer; a failed write closes.\<close>

definition after_writer :: "frame write_loop \<Rightarrow> lifecycle \<Rightarrow> lifecycle" where
  "after_writer l c =
     (let c1 = (with_queue (lp_queue l) c)\<lparr>lc_writer := lp_writer l, lc_written := lp_written l\<rparr>
      in if lp_done l then lc_close StatusAbnormalClosure ''write failed'' False c1 else c1)"

text \<open>
  Steps the connection's own goroutines take without waiting for anyone: what blocks in a call
  on the socket fails once the socket is closed, and a write or a ping also fails at its own
  deadline.
\<close>

inductive own_step :: "lifecycle \<Rightarrow> lifecycle \<Rightarrow> bool" where
  joins: "lc_run c = Joining \<Longrightarrow> own_step c (c\<lparr>lc_run := Replaying\<rparr>)"
| replays: "lc_run c = Replaying \<Longrightarrow> own_step c (c\<lparr>lc_run := Reading\<rparr>)"
| read_fails: "lc_run c = Reading \<Longrightarrow> \<not> lc_open c \<Longrightarrow> own_step c (c\<lparr>lc_run := Leaving\<rparr>)"
| handles: "lc_run c = Handling \<Longrightarrow> own_step c (c\<lparr>lc_run := Checking\<rparr>)"
| handles_malformed: "lc_run c = Handling \<Longrightarrow>
    own_step c ((lc_close StatusInvalidFramePayloadData ''malformed frame'' True c)\<lparr>lc_run := Checking\<rparr>)"
| checks: "lc_run c = Checking \<Longrightarrow> own_step c (c\<lparr>lc_run := (if lc_closing c then Leaving else Reading)\<rparr>)"
| leaves: "lc_run c = Leaving \<Longrightarrow>
    own_step c ((lc_close StatusNormalClosure ''connection closed'' False c)\<lparr>lc_run := Waiting\<rparr>)"
| waited_abrupt: "lc_run c = Waiting \<Longrightarrow> lc_writer c = Stopped \<Longrightarrow> lc_ping c = PingEnded \<Longrightarrow>
    closeInfo (lc_conn c) = (code, reason, False) \<Longrightarrow> own_step c (c\<lparr>lc_run := Releasing, lc_open := False\<rparr>)"
| waited_graceful: "lc_run c = Waiting \<Longrightarrow> lc_writer c = Stopped \<Longrightarrow> lc_ping c = PingEnded \<Longrightarrow>
    closeInfo (lc_conn c) = (code, reason, True) \<Longrightarrow> own_step c (c\<lparr>lc_run := Shaking, lc_handshake := Some (code, reason)\<rparr>)"
| shaken: "lc_run c = Shaking \<Longrightarrow> own_step c (c\<lparr>lc_run := Releasing, lc_open := False\<rparr>)"
| releases: "lc_run c = Releasing \<Longrightarrow>
    own_step c (c\<lparr>lc_run := Removing, lc_released := cn_heldSurfaceKeys (lc_conn c),
      lc_conn := (lc_conn c)\<lparr>cn_heldSurfaceKeys := {}\<rparr>\<rparr>)"
| removes: "lc_run c = Removing \<Longrightarrow> own_step c (c\<lparr>lc_run := Cancelling, lc_removed := True\<rparr>)"
| cancels: "lc_run c = Cancelling \<Longrightarrow> own_step c (c\<lparr>lc_run := Returned, lc_dispatchDone := True\<rparr>)"
| writes: "lc_started c \<Longrightarrow> writer_step (loop_of c) l \<Longrightarrow> (lp_written l \<noteq> lc_written c \<Longrightarrow> lc_open c) \<Longrightarrow>
    own_step c (after_writer l c)"
| ping_done: "lc_started c \<Longrightarrow> lc_ping c = PingWaiting \<Longrightarrow> lc_closing c \<Longrightarrow> own_step c (c\<lparr>lc_ping := PingEnded\<rparr>)"
| pongs: "lc_started c \<Longrightarrow> lc_ping c = Pinging \<Longrightarrow> lc_open c \<Longrightarrow> own_step c (c\<lparr>lc_ping := PingWaiting\<rparr>)"
| ping_fails: "lc_started c \<Longrightarrow> lc_ping c = Pinging \<Longrightarrow>
    own_step c ((lc_close StatusGoingAway ''keepalive failed'' False c)\<lparr>lc_ping := PingEnded\<rparr>)"
| bridge_parent: "lc_started c \<Longrightarrow> lc_bridge c = Bridging \<Longrightarrow> lc_parentDone c \<Longrightarrow>
    own_step c ((lc_close StatusGoingAway ''server shutting down'' False c)\<lparr>lc_bridge := BridgeCancels\<rparr>)"
| bridge_done: "lc_started c \<Longrightarrow> lc_bridge c = Bridging \<Longrightarrow> lc_closing c \<Longrightarrow> own_step c (c\<lparr>lc_bridge := BridgeCancels\<rparr>)"
| bridge_cancels: "lc_bridge c = BridgeCancels \<Longrightarrow> own_step c (c\<lparr>lc_bridge := BridgeEnded, lc_dispatchDone := True\<rparr>)"
| closes_now: "lc_closeNow c \<Longrightarrow> own_step c (c\<lparr>lc_closeNow := False, lc_open := False\<rparr>)"

text \<open>
  What the rest of the server, the peer and the clock do.  A read may fail at any time; binary
  frames are skipped without a look at \<open>done\<close>; the ticker may fire even when \<open>done\<close> is closed.
\<close>

inductive env_step :: "lifecycle \<Rightarrow> lifecycle \<Rightarrow> bool" where
  pushes: "env_step c ((with_queue (push_locked p (cn_send (lc_conn c))) c)
     \<lparr>lc_pokes := lc_pokes c + (if push_signals p (cn_send (lc_conn c)) then 1 else 0)\<rparr>)"
| pokes: "lc_pokes c = Suc n \<Longrightarrow> env_step c ((with_queue (poke (cn_send (lc_conn c))) c)\<lparr>lc_pokes := n\<rparr>)"
| overflows: "sendBuffer \<le> length (sq_state (cn_send (lc_conn c))) \<Longrightarrow>
    env_step c (lc_close StatusPolicyViolation ''client send buffer full'' False c)"
| closed_by_hub: "env_step c (lc_close StatusGoingAway reason False c)"
| reads: "lc_run c = Reading \<Longrightarrow> lc_open c \<Longrightarrow> env_step c (c\<lparr>lc_run := Handling\<rparr>)"
| reads_binary: "lc_run c = Reading \<Longrightarrow> lc_open c \<Longrightarrow> env_step c c"
| peer_leaves: "lc_run c = Reading \<Longrightarrow> env_step c (c\<lparr>lc_run := Leaving\<rparr>)"
| holds: "lc_run c = Handling \<Longrightarrow> env_step c (c\<lparr>lc_conn := trackSurfaceHold key pressed (lc_conn c)\<rparr>)"
| ticks: "lc_started c \<Longrightarrow> lc_ping c = PingWaiting \<Longrightarrow> env_step c (c\<lparr>lc_ping := Pinging\<rparr>)"
| shutdown: "env_step c (c\<lparr>lc_parentDone := True\<rparr>)"

inductive lc_reachable :: "lifecycle \<Rightarrow> bool" where
  lc_start: "lc_reachable new_lifecycle"
| lc_own: "lc_reachable c \<Longrightarrow> own_step c c' \<Longrightarrow> lc_reachable c'"
| lc_env: "lc_reachable c \<Longrightarrow> env_step c c' \<Longrightarrow> lc_reachable c'"


section \<open>Invariant\<close>

fun run_rank :: "run_pc \<Rightarrow> nat" where
  "run_rank Returned = 0" | "run_rank Cancelling = 1" | "run_rank Removing = 2" | "run_rank Releasing = 3"
| "run_rank Shaking = 4" | "run_rank Waiting = 5" | "run_rank Leaving = 6" | "run_rank Reading = 7"
| "run_rank Checking = 8" | "run_rank Handling = 9" | "run_rank Replaying = 10" | "run_rank Joining = 11"

text \<open>The loops have exited and \<open>run\<close> is past its wait.\<close>

definition alone :: "lifecycle \<Rightarrow> bool" where
  "alone c \<longleftrightarrow> run_rank (lc_run c) < 5"

definition malformed_close :: "int \<times> string" where
  "malformed_close = (1007, ''malformed frame'')"

definition lc_ok :: "lifecycle \<Rightarrow> bool" where
  "lc_ok c \<longleftrightarrow>
     (lc_closing c \<and> lc_open c \<longrightarrow> lc_closeNow c \<or> cn_graceful (lc_conn c)) \<and>
     (cn_graceful (lc_conn c) \<longrightarrow> lc_closing c \<and> \<not> lc_closeNow c \<and> (lc_run c = Checking \<or> run_rank (lc_run c) < 7) \<and>
        (cn_closeCode (lc_conn c), cn_closeReason (lc_conn c)) = malformed_close) \<and>
     (lc_closeNow c \<or> run_rank (lc_run c) < 6 \<or> lc_bridge c \<noteq> Bridging \<or> lc_writer c \<in> {Flushing, Stopped} \<or>
        lc_ping c = PingEnded \<longrightarrow> lc_closing c) \<and>
     (alone c \<longrightarrow> lc_writer c = Stopped \<and> lc_ping c = PingEnded) \<and>
     (lc_run c = Shaking \<longrightarrow> cn_graceful (lc_conn c)) \<and>
     (run_rank (lc_run c) < 4 \<longrightarrow> \<not> lc_open c) \<and>
     (run_rank (lc_run c) < 3 \<longrightarrow> cn_heldSurfaceKeys (lc_conn c) = {}) \<and>
     (run_rank (lc_run c) < 2 \<longrightarrow> lc_removed c) \<and>
     (lc_bridge c = BridgeEnded \<longrightarrow> lc_dispatchDone c)"

lemmas lc_defs = lc_close_def lc_closing_def lc_started_def loop_of_def with_queue_def after_writer_def
  closeInfo_def conn_close_def malformed_close_def StatusInvalidFramePayloadData_def alone_def

lemma lc_ok_new: "lc_ok new_lifecycle"
  by (simp add: lc_ok_def new_lifecycle_def newClientConn_def lc_defs)

lemma lc_close_simps [simp]:
  "lc_run (lc_close code reason g c) = lc_run c" "lc_writer (lc_close code reason g c) = lc_writer c"
  "lc_ping (lc_close code reason g c) = lc_ping c" "lc_bridge (lc_close code reason g c) = lc_bridge c"
  "lc_open (lc_close code reason g c) = lc_open c" "lc_handshake (lc_close code reason g c) = lc_handshake c"
  "lc_removed (lc_close code reason g c) = lc_removed c" "lc_dispatchDone (lc_close code reason g c) = lc_dispatchDone c"
  "lc_parentDone (lc_close code reason g c) = lc_parentDone c" "lc_pokes (lc_close code reason g c) = lc_pokes c"
  "lc_written (lc_close code reason g c) = lc_written c"
  "cn_heldSurfaceKeys (lc_conn (lc_close code reason g c)) = cn_heldSurfaceKeys (lc_conn c)"
  "cn_send (lc_conn (lc_close code reason g c)) = cn_send (lc_conn c)"
  "cn_closing (lc_conn (lc_close code reason g c))"
  by (simp_all add: lc_close_def)

lemma lc_close_id: "cn_closing (lc_conn c) \<Longrightarrow> lc_close code reason g c = c"
  by (simp add: lc_close_def conn_close_def lc_closing_def)

lemma lc_close_first:
  assumes "\<not> cn_closing (lc_conn c)"
  shows "lc_closeNow (lc_close code reason g c) = (lc_closeNow c \<or> \<not> g)"
    "cn_graceful (lc_conn (lc_close code reason g c)) = g" "cn_closeCode (lc_conn (lc_close code reason g c)) = code"
    "cn_closeReason (lc_conn (lc_close code reason g c)) = reason"
  using assms by (simp_all add: lc_close_def lc_closing_def conn_close_def)

text \<open>An abrupt close from anywhere keeps the invariant, whoever makes it.\<close>

lemma lc_ok_abrupt: "lc_ok c \<Longrightarrow> lc_ok (lc_close code reason False c)"
  by (cases "cn_closing (lc_conn c)")
    (simp_all add: lc_close_id lc_ok_def lc_closing_def alone_def lc_close_first, auto)

lemma lc_ok_queue [simp]: "lc_ok (with_queue q c) = lc_ok c"
  by (simp add: lc_ok_def lc_closing_def alone_def with_queue_def)

lemma lc_ok_written [simp]: "lc_ok (c\<lparr>lc_written := fs\<rparr>) = lc_ok c"
  by (simp add: lc_ok_def lc_closing_def alone_def)

lemma lc_ok_pokes [simp]: "lc_ok (c\<lparr>lc_pokes := n\<rparr>) = lc_ok c"
  by (simp add: lc_ok_def lc_closing_def alone_def)

lemma lc_ok_writer:
  assumes "lc_ok c" "lc_writer c \<noteq> Stopped" "w \<in> {Flushing, Stopped} \<longrightarrow> lc_closing c"
  shows "lc_ok (c\<lparr>lc_writer := w\<rparr>)"
proof -
  have "\<not> alone c" using assms(1,2) unfolding lc_ok_def by blast
  with assms(1,3) show ?thesis unfolding lc_ok_def lc_closing_def alone_def by (simp, blast)
qed

lemma lc_ok_after_writer:
  assumes "lc_ok c" "writer_step (loop_of c) l"
  shows "lc_ok (after_writer l c)"
proof -
  have "lc_writer c \<in> {Flushing, Stopped} \<longrightarrow> lc_closing c" using assms(1) unfolding lc_ok_def by blast
  with assms(2) have w: "lc_writer c \<noteq> Stopped" "lp_writer l \<in> {Flushing, Stopped} \<longrightarrow> lp_done l"
    by (auto elim!: writer_stepE simp: loop_of_def)
  let ?c = "with_queue (lp_queue l) (if lp_done l then lc_close StatusAbnormalClosure ''write failed'' False c else c)"
  have c: "lc_ok ?c" "lc_writer ?c \<noteq> Stopped" "lp_done l \<longrightarrow> lc_closing ?c"
    using assms(1) w(1) by (simp_all add: lc_ok_abrupt lc_closing_def) (simp_all add: with_queue_def)
  have "after_writer l c = ?c\<lparr>lc_writer := lp_writer l, lc_written := lp_written l\<rparr>"
    by (simp add: after_writer_def with_queue_def lc_close_def lc_closing_def conn_close_def Let_def)
  moreover have "lc_ok (?c\<lparr>lc_writer := lp_writer l\<rparr>)" using lc_ok_writer [OF c(1,2)] w(2) c(3) by blast
  ultimately show ?thesis by simp
qed

text \<open>The steps that move \<open>run\<close>, the pinger or the bridge and change nothing else of the close.\<close>

lemmas lc_flat = lc_ok_def lc_closing_def alone_def closeInfo_def malformed_close_def

lemma lc_ok_own: "own_step c c' \<Longrightarrow> lc_ok c \<Longrightarrow> lc_ok c'"
proof (induction rule: own_step.induct)
  case (handles_malformed c)
  then show ?case
    by (cases "cn_closing (lc_conn c)")
      (simp_all add: lc_close_id lc_flat lc_close_first StatusInvalidFramePayloadData_def, blast)
next
  case (leaves c)
  from lc_ok_abrupt [OF leaves(2)] leaves(1) show ?case by (simp add: lc_flat)
next
  case (writes c l)
  then show ?case by (blast intro: lc_ok_after_writer)
next
  case (ping_fails c)
  from lc_ok_abrupt [OF ping_fails(3)] show ?case by (simp add: lc_flat)
next
  case (bridge_parent c)
  from lc_ok_abrupt [OF bridge_parent(4)] show ?case by (simp add: lc_flat)
qed (simp_all add: lc_flat, blast+)

lemma lc_ok_env: "env_step c c' \<Longrightarrow> lc_ok c \<Longrightarrow> lc_ok c'"
  by (induction rule: env_step.induct) (simp_all add: lc_ok_abrupt, (simp_all add: lc_flat trackSurfaceHold_def, blast+)?)

lemma lc_ok_reachable: "lc_reachable c \<Longrightarrow> lc_ok c"
  by (induction rule: lc_reachable.induct) (auto simp: lc_ok_new dest: lc_ok_own lc_ok_env)

text \<open>The handshake is made if and only if the close was graceful, once everything else has ended.\<close>

definition shaken_hands :: "lifecycle \<Rightarrow> bool" where
  "shaken_hands c \<longleftrightarrow> lc_handshake c = (if alone c \<and> cn_graceful (lc_conn c) then Some malformed_close else None)"

lemma graceful_closed:
  assumes "lc_ok c"
  shows "cn_graceful (lc_conn c) \<Longrightarrow> cn_closing (lc_conn c)"
    "cn_graceful (lc_conn c) \<Longrightarrow> (cn_closeCode (lc_conn c), cn_closeReason (lc_conn c)) = malformed_close"
    "alone c \<Longrightarrow> cn_closing (lc_conn c)" "alone c \<Longrightarrow> lc_writer c = Stopped"
  using assms by (auto simp: lc_ok_def lc_closing_def alone_def)

lemma writer_running: "writer_step (loop_of c) l \<Longrightarrow> lc_writer c \<noteq> Stopped"
  by (auto simp: loop_of_def elim!: writer_stepE)

lemma lc_close_graceful:
  "cn_graceful (lc_conn (lc_close code reason False c)) = (cn_closing (lc_conn c) \<and> cn_graceful (lc_conn c))"
  by (cases "cn_closing (lc_conn c)") (simp_all add: lc_close_id lc_close_first)

lemma shaken_hands_frame:
  assumes "shaken_hands c" "lc_ok c" "lc_handshake c' = lc_handshake c" "alone c' = alone c"
    and "alone c \<Longrightarrow> cn_graceful (lc_conn c') = cn_graceful (lc_conn c)"
  shows "shaken_hands c'"
  using assms by (simp add: shaken_hands_def)

lemma shaken_hands_own: "own_step c c' \<Longrightarrow> lc_ok c \<Longrightarrow> shaken_hands c \<Longrightarrow> shaken_hands c'"
proof (induction rule: own_step.induct)
  case (waited_graceful c code reason)
  then show ?case using graceful_closed(2) [of c] by (simp add: shaken_hands_def alone_def closeInfo_def)
next
  case (writes c l)
  have "\<not> alone c" using writer_running [OF writes(2)] graceful_closed(4) [OF writes(4)] by blast
  then show ?case using writes by (simp add: shaken_hands_def alone_def after_writer_def with_queue_def Let_def)
next
  case (leaves c)
  then show ?case by (simp add: shaken_hands_def alone_def)
next
  case (ping_fails c)
  show ?case
    by (rule shaken_hands_frame [OF ping_fails(4,3)])
      (use graceful_closed(3) [OF ping_fails(3)] in \<open>auto simp: alone_def lc_close_graceful\<close>)
next
  case (bridge_parent c)
  show ?case
    by (rule shaken_hands_frame [OF bridge_parent(5,4)])
      (use graceful_closed(3) [OF bridge_parent(4)] in \<open>auto simp: alone_def lc_close_graceful\<close>)
qed (simp_all add: shaken_hands_def alone_def closeInfo_def)

lemma shaken_hands_env: "env_step c c' \<Longrightarrow> lc_ok c \<Longrightarrow> shaken_hands c \<Longrightarrow> shaken_hands c'"
proof (induction rule: env_step.induct)
  case (overflows c)
  show ?case
    by (rule shaken_hands_frame [OF overflows(3,2)])
      (use graceful_closed(3) [OF overflows(2)] in \<open>auto simp: alone_def lc_close_graceful\<close>)
next
  case (closed_by_hub c reason)
  show ?case
    by (rule shaken_hands_frame [OF closed_by_hub(2,1)])
      (use graceful_closed(3) [OF closed_by_hub(1)] in \<open>auto simp: alone_def lc_close_graceful\<close>)
qed (simp_all add: shaken_hands_def alone_def with_queue_def trackSurfaceHold_def)

lemma shaken_hands_reachable: "lc_reachable c \<Longrightarrow> shaken_hands c"
proof (induction rule: lc_reachable.induct)
  case lc_start
  show ?case by (simp add: shaken_hands_def alone_def new_lifecycle_def)
qed (auto intro: shaken_hands_own shaken_hands_env lc_ok_reachable)


section \<open>Progress\<close>

fun ping_rank :: "ping_pc \<Rightarrow> nat" where
  "ping_rank PingEnded = 0" | "ping_rank PingWaiting = 1" | "ping_rank Pinging = 2"

fun bridge_rank :: "bridge_pc \<Rightarrow> nat" where
  "bridge_rank BridgeEnded = 0" | "bridge_rank BridgeCancels = 1" | "bridge_rank Bridging = 2"

definition lc_work :: "lifecycle \<Rightarrow> nat" where
  "lc_work c = run_rank (lc_run c) + writer_work (loop_of c) + ping_rank (lc_ping c) + bridge_rank (lc_bridge c) +
     (if lc_closeNow c then 1 else 0) + (if lc_closing c then 0 else 2)"

lemma writer_work_eq:
  "writer_work (loop_of c) = 4 * depth (cn_send (lc_conn c)) + (if sq_wake (cn_send (lc_conn c)) then 2 else 0) + writer_rank (lc_writer c)"
  by (simp add: writer_work_def loop_of_def)

lemma writer_step_frame: "writer_step l l' \<Longrightarrow> lp_pokes l' = lp_pokes l \<and> (lp_done l \<longrightarrow> lp_done l')"
  by (induction rule: writer_step.induct) simp_all

lemma loop_of_after_writer: "writer_step (loop_of c) l \<Longrightarrow> loop_of (after_writer l c) = l"
  using writer_step_frame [of "loop_of c" l] by (cases l) (auto simp: loop_of_def after_writer_def with_queue_def lc_close_def lc_closing_def Let_def)

text \<open>An abrupt close pays for the \<open>CloseNow\<close> it owes.\<close>

lemma lc_close_pays:
  "(if lc_closeNow (lc_close code reason g c) then 1 else 0) + (if lc_closing (lc_close code reason g c) then 0 else 2)
     \<le> (if lc_closeNow c then 1 else 0) + (if lc_closing c then 0 else (2 :: nat))"
  by (simp add: lc_close_def lc_closing_def)

lemma own_works: "own_step c c' \<Longrightarrow> lc_work c' < lc_work c"
proof (induction rule: own_step.induct)
  case (writes c l)
  have "writer_work l < writer_work (loop_of c)" using writes(2) by (rule writer_works)
  moreover have "(if lc_closeNow (after_writer l c) then 1 else 0) + (if lc_closing (after_writer l c) then 0 else 2)
     \<le> (if lc_closeNow c then 1 else 0) + (if lc_closing c then 0 else (2 :: nat))"
    using writer_step_frame [OF writes(2)]
    by (auto simp: after_writer_def with_queue_def lc_close_def lc_closing_def loop_of_def Let_def)
  moreover have "lc_run (after_writer l c) = lc_run c" "lc_ping (after_writer l c) = lc_ping c" "lc_bridge (after_writer l c) = lc_bridge c"
    by (simp_all add: after_writer_def with_queue_def Let_def)
  ultimately show ?case unfolding lc_work_def loop_of_after_writer [OF writes(2)] by (simp only: add_less_le_mono)
next
  case (leaves c)
  then show ?case using lc_close_pays [of StatusNormalClosure "''connection closed''" False c]
    by (simp add: lc_work_def writer_work_eq lc_closing_def)
next
  case (handles_malformed c)
  then show ?case using lc_close_pays [of StatusInvalidFramePayloadData "''malformed frame''" True c]
    by (simp add: lc_work_def writer_work_eq lc_closing_def)
next
  case (ping_fails c)
  then show ?case using lc_close_pays [of StatusGoingAway "''keepalive failed''" False c]
    by (simp add: lc_work_def writer_work_eq lc_closing_def)
next
  case (bridge_parent c)
  then show ?case using lc_close_pays [of StatusGoingAway "''server shutting down''" False c]
    by (simp add: lc_work_def writer_work_eq lc_closing_def)
qed (simp_all add: lc_work_def writer_work_eq lc_closing_def)

text \<open>Seen from the queue, a connection is a write loop with producers.\<close>

lemma loop_of_frame [simp]:
  "loop_of (c\<lparr>lc_run := x1\<rparr>) = loop_of c" "loop_of (c\<lparr>lc_ping := x2\<rparr>) = loop_of c" "loop_of (c\<lparr>lc_bridge := x3\<rparr>) = loop_of c"
  "loop_of (c\<lparr>lc_open := x4\<rparr>) = loop_of c" "loop_of (c\<lparr>lc_closeNow := x5\<rparr>) = loop_of c" "loop_of (c\<lparr>lc_handshake := x6\<rparr>) = loop_of c"
  "loop_of (c\<lparr>lc_released := x7\<rparr>) = loop_of c" "loop_of (c\<lparr>lc_removed := x8\<rparr>) = loop_of c"
  "loop_of (c\<lparr>lc_dispatchDone := x9\<rparr>) = loop_of c" "loop_of (c\<lparr>lc_parentDone := x10\<rparr>) = loop_of c"
  "loop_of (c\<lparr>lc_conn := (lc_conn c)\<lparr>cn_heldSurfaceKeys := x11\<rparr>\<rparr>) = loop_of c"
  "loop_of (c\<lparr>lc_conn := trackSurfaceHold x12 x13 (lc_conn c)\<rparr>) = loop_of c"
  by (simp_all add: loop_of_def lc_closing_def trackSurfaceHold_def)

lemma close_loop: "loop_step (loop_of c) (loop_of (lc_close code reason g c))"
  using loop_step.closes [of "loop_of c"] by (simp add: loop_of_def lc_closing_def)

lemma own_loop: "own_step c c' \<Longrightarrow> loop_of c' = loop_of c \<or> loop_step (loop_of c) (loop_of c')"
proof (induction rule: own_step.induct)
  case (writes c l)
  from loop_step.writer [OF writes(2)] show ?case by (simp add: loop_of_after_writer [OF writes(2)])
next
  case (releases c)
  have "loop_of (c\<lparr>lc_run := Removing, lc_released := cn_heldSurfaceKeys (lc_conn c), lc_conn := (lc_conn c)\<lparr>cn_heldSurfaceKeys := {}\<rparr>\<rparr>) = loop_of c"
    by (simp add: loop_of_def lc_closing_def)
  then show ?case ..
qed (simp_all add: close_loop)

lemma env_loop: "env_step c c' \<Longrightarrow> loop_of c' = loop_of c \<or> loop_step (loop_of c) (loop_of c')"
proof (induction rule: env_step.induct)
  case (pushes c p)
  then show ?case using loop_step.pushes [of "loop_of c" p] by (simp add: loop_of_def with_queue_def lc_closing_def)
next
  case (pokes c n)
  then show ?case using loop_step.pokes [of "loop_of c" n] by (simp add: loop_of_def with_queue_def lc_closing_def)
qed (simp_all add: close_loop)

lemma loop_of_reachable: "lc_reachable c \<Longrightarrow> loop_reachable (loop_of c)"
proof (induction rule: lc_reachable.induct)
  case lc_start
  have "loop_of new_lifecycle = new_loop"
    by (simp add: loop_of_def new_lifecycle_def new_loop_def newClientConn_def lc_closing_def)
  then show ?case using loop_start by simp
next
  case (lc_own c c')
  then show ?case using own_loop [OF lc_own(2)] loop_next by auto
next
  case (lc_env c c')
  then show ?case using env_loop [OF lc_env(2)] loop_next by auto
qed


text \<open>Nothing of the connection is left: what a return of \<open>run\<close> leaves behind.\<close>

definition all_ended :: "lifecycle \<Rightarrow> bool" where
  "all_ended c \<longleftrightarrow> lc_run c = Returned \<and> lc_writer c = Stopped \<and> lc_ping c = PingEnded \<and> lc_bridge c = BridgeEnded \<and>
     \<not> lc_open c \<and> \<not> lc_closeNow c \<and> lc_removed c \<and> lc_dispatchDone c \<and> cn_heldSurfaceKeys (lc_conn c) = {}"

text \<open>Every goroutine waits for something to happen.\<close>

definition all_waiting :: "lifecycle \<Rightarrow> bool" where
  "all_waiting c \<longleftrightarrow> lc_run c = Reading \<and> lc_open c \<and> lc_ping c = PingWaiting \<and> lc_bridge c = Bridging \<and>
     (lc_pokes c = 0 \<longrightarrow> lc_writer c = Selecting \<and> depth (cn_send (lc_conn c)) = 0)"

text \<open>A writer that is not stopped and cannot step waits for a signal on an open connection.\<close>

lemma writer_blocked:
  assumes "\<And>c'. \<not> own_step c c'" "lc_started c"
  shows "lc_writer c = Stopped \<or> lc_writer c = Selecting \<and> \<not> lc_closing c \<and> \<not> sq_wake (cn_send (lc_conn c))"
proof -
  have silent: "writer_step (loop_of c) l \<Longrightarrow> lp_written l \<noteq> lc_written c" for l
    using writes [OF assms(2), of l] assms(1) by blast
  obtain q x where pop: "pop (cn_send (lc_conn c)) = (q, x)" by fastforce
  have "lc_writer c \<noteq> Popping"
    using pop silent pop_fails [of "loop_of c" q] pop_nothing [of "loop_of c" q] by (cases x) (fastforce simp: loop_of_def)+
  moreover have "lc_writer c \<noteq> Flushing"
    using pop silent pop_fails [of "loop_of c" q] flushed [of "loop_of c" q] by (cases x) (fastforce simp: loop_of_def)+
  moreover have "lc_writer c = Selecting \<Longrightarrow> \<not> lc_closing c \<and> \<not> sq_wake (cn_send (lc_conn c))"
    using silent [OF woken] silent [OF done_seen] by (auto simp: loop_of_def)
  ultimately show ?thesis by (cases "lc_writer c") auto
qed

lemma at_rest:
  assumes "lc_ok c" and stuck: "\<And>c'. \<not> own_step c c'"
  shows "lc_started c" "lc_run c \<in> {Reading, Waiting, Returned}" "\<not> lc_closeNow c" "lc_run c = Reading \<Longrightarrow> lc_open c"
    "lc_ping c \<noteq> Pinging" "lc_closing c \<Longrightarrow> lc_ping c = PingEnded" "lc_bridge c \<noteq> BridgeCancels"
    "lc_closing c \<or> lc_parentDone c \<Longrightarrow> lc_bridge c = BridgeEnded"
    "lc_run c = Waiting \<Longrightarrow> lc_writer c = Stopped \<Longrightarrow> lc_ping c \<noteq> PingEnded"
proof -
  have "lc_run c \<noteq> Joining" using joins stuck by blast
  then show started: "lc_started c" by (simp add: lc_started_def)
  show "lc_run c \<in> {Reading, Waiting, Returned}"
    using joins [of c] replays [of c] handles [of c] checks [of c] leaves [of c] shaken [of c] releases [of c] removes [of c] cancels [of c] stuck
    by (cases "lc_run c") blast+
  show "\<not> lc_closeNow c" using closes_now stuck by blast
  show "lc_run c = Reading \<Longrightarrow> lc_open c" using read_fails stuck by blast
  show np: "lc_ping c \<noteq> Pinging" using ping_fails [OF started] stuck by blast
  show "lc_closing c \<Longrightarrow> lc_ping c = PingEnded" using ping_done [OF started] np stuck by (cases "lc_ping c") auto
  show nb: "lc_bridge c \<noteq> BridgeCancels" using bridge_cancels stuck by blast
  show "lc_closing c \<or> lc_parentDone c \<Longrightarrow> lc_bridge c = BridgeEnded"
    using bridge_done [OF started] bridge_parent [OF started] nb stuck by (cases "lc_bridge c") auto
  show "lc_run c = Waiting \<Longrightarrow> lc_writer c = Stopped \<Longrightarrow> lc_ping c \<noteq> PingEnded"
  proof
    assume w: "lc_run c = Waiting" "lc_writer c = Stopped" "lc_ping c = PingEnded"
    obtain code reason g where "closeInfo (lc_conn c) = (code, reason, g)" by (cases "closeInfo (lc_conn c)") auto
    with w waited_abrupt [of c code reason] waited_graceful [of c code reason] stuck show False by (cases g) auto
  qed
qed

lemma rest_closed:
  assumes ok: "lc_ok c" and stuck: "\<And>c'. \<not> own_step c c'" and over: "lc_closing c \<or> lc_parentDone c"
  shows "all_ended c"
proof -
  note rest = at_rest [OF ok stuck]
  have b: "lc_bridge c = BridgeEnded" by (rule rest(8) [OF over])
  then have "lc_bridge c \<noteq> Bridging" by simp
  then have closing: "lc_closing c" using ok unfolding lc_ok_def by blast
  then have w: "lc_writer c = Stopped" and p: "lc_ping c = PingEnded" using writer_blocked [OF stuck rest(1)] rest(6) by blast+
  have "lc_run c \<noteq> Reading"
  proof
    assume r: "lc_run c = Reading"
    then have "cn_graceful (lc_conn c)" using rest(3,4) closing ok unfolding lc_ok_def by blast
    then have "lc_run c = Checking \<or> run_rank (lc_run c) < 7" using ok unfolding lc_ok_def by blast
    with r show False by simp
  qed
  with rest(2,9) w p have r: "lc_run c = Returned" by blast
  then have "run_rank (lc_run c) < 2" by simp
  with ok have "\<not> lc_open c \<and> cn_heldSurfaceKeys (lc_conn c) = {} \<and> lc_removed c \<and> lc_dispatchDone c"
    using b unfolding lc_ok_def by auto
  with rest(3) b w p r show ?thesis by (simp add: all_ended_def)
qed

lemma rest_open:
  assumes ok: "lc_ok c" and stuck: "\<And>c'. \<not> own_step c c'" and going: "\<not> lc_closing c" and owed: "wake_owed (loop_of c)"
  shows "\<not> lc_parentDone c" "all_waiting c"
proof -
  note rest = at_rest [OF ok stuck]
  have b: "lc_bridge c = Bridging" and r6: "\<not> run_rank (lc_run c) < 6" and w: "lc_writer c \<noteq> Stopped"
    and p: "lc_ping c \<noteq> PingEnded"
    using ok going unfolding lc_ok_def by blast+
  with rest(8) show "\<not> lc_parentDone c" by auto
  have r: "lc_run c = Reading" using r6 rest(2) by auto
  have s: "lc_writer c = Selecting" "\<not> sq_wake (cn_send (lc_conn c))" using writer_blocked [OF stuck rest(1)] w by blast+
  then have "lc_pokes c = 0 \<Longrightarrow> depth (cn_send (lc_conn c)) = 0" using owed by (simp add: wake_owed_def loop_of_def)
  with b r s p rest(4,5) show "all_waiting c" by (cases "lc_ping c") (simp_all add: all_waiting_def)
qed


lemma own_run:
  assumes "lc_reachable c" "(own_step ^^ n) c c'"
  shows "lc_reachable c' \<and> n + lc_work c' \<le> lc_work c"
  using assms(2)
proof (induction n arbitrary: c')
  case 0
  with assms(1) show ?case by simp
next
  case (Suc n)
  then obtain m where "(own_step ^^ n) c m" and step: "own_step m c'" by auto
  with Suc.IH have "lc_reachable m" "n + lc_work m \<le> lc_work c" by auto
  with lc_own [OF _ step] own_works [OF step] show ?case by simp
qed

lemma own_settles: "\<exists>n c'. (own_step ^^ n) c c' \<and> \<not> (\<exists>c''. own_step c' c'')"
proof (induction "lc_work c" arbitrary: c rule: less_induct)
  case less
  show ?case
  proof (cases "\<exists>c1. own_step c c1")
    case True
    then obtain c1 where step: "own_step c c1" ..
    from less [OF own_works [OF step]] obtain n c' where n: "(own_step ^^ n) c1 c'" and r: "\<not> (\<exists>c''. own_step c' c'')" by blast
    from relpowp_Suc_I2 [OF step n] r show ?thesis by blast
  next
    case False
    then have "(own_step ^^ 0) c c \<and> \<not> (\<exists>c''. own_step c c'')" by simp
    then show ?thesis by blast
  qed
qed

text \<open>The first close wins, and a shutdown is not taken back.\<close>

lemma own_keeps:
  "own_step c c' \<Longrightarrow> lc_closing c \<Longrightarrow> lc_closing c' \<and> closeInfo (lc_conn c') = closeInfo (lc_conn c)"
  "own_step c c' \<Longrightarrow> lc_parentDone c' = lc_parentDone c"
  by (induction rule: own_step.induct)
    (auto simp: lc_closing_def lc_close_id closeInfo_def after_writer_def with_queue_def Let_def)

lemma own_run_keeps:
  "(own_step ^^ n) c c' \<Longrightarrow> lc_closing c \<Longrightarrow> lc_closing c' \<and> closeInfo (lc_conn c') = closeInfo (lc_conn c)"
  "(own_step ^^ n) c c' \<Longrightarrow> lc_parentDone c' = lc_parentDone c"
  by (induction n arbitrary: c') (auto dest: own_keeps)

section \<open>Properties of a connection's goroutines\<close>

text \<open>
  C14: However its goroutines, the hub, the peer and the clock have interleaved, a connection
  left to itself comes to rest within \<open>lc_work\<close> steps.  Once it is closing or the server is
  shutting down, it rests only when \<open>run\<close> has returned, no goroutine is left, the socket is
  closed, its keys are released, it has left the hub and its commands are cancelled; before
  that, only when every goroutine waits and every queued frame is written.
\<close>

theorem connection_terminates:
  assumes "lc_reachable c" "(own_step ^^ n) c c'"
  shows "n \<le> lc_work c \<and>
    (\<not> (\<exists>c''. own_step c' c'') \<longrightarrow> (if lc_closing c' \<or> lc_parentDone c' then all_ended c' else all_waiting c'))"
proof -
  from own_run [OF assms] have r: "lc_reachable c'" "n \<le> lc_work c" by auto
  then show ?thesis
    using rest_closed [OF lc_ok_reachable, of c'] rest_open [OF lc_ok_reachable, of c'] wake_owed_reachable [OF loop_of_reachable, of c']
    by auto
qed

lemma connection_terminates_witness:
  "\<exists>n c'. n \<le> lc_work (new_lifecycle\<lparr>lc_parentDone := True\<rparr>) \<and> (own_step ^^ n) (new_lifecycle\<lparr>lc_parentDone := True\<rparr>) c' \<and> all_ended c'"
proof -
  let ?c = "new_lifecycle\<lparr>lc_parentDone := True\<rparr>"
  have reach: "lc_reachable ?c" by (rule lc_env [OF lc_start shutdown])
  obtain n c' where n: "(own_step ^^ n) ?c c'" and rest: "\<not> (\<exists>c''. own_step c' c'')" using own_settles by blast
  have "lc_parentDone c'" using own_run_keeps(2) [OF n] by simp
  with connection_terminates [OF reach n] n rest show ?thesis by auto
qed

text \<open>
  C26: \<open>run\<close> makes the closing handshake alone: while it does, no goroutine reads, writes, pings
  or is about to close the socket.  It makes one if and only if the first close was that of a
  malformed frame, with code 1007; and no graceful close leaves the reader parked in a read.
\<close>

theorem handshake_alone:
  assumes "lc_reachable c"
  shows "(lc_run c = Shaking \<longrightarrow> lc_writer c = Stopped \<and> lc_ping c = PingEnded \<and> \<not> lc_closeNow c \<and>
       (\<forall>c'. own_step c c' \<or> env_step c c' \<longrightarrow> lc_written c' = lc_written c \<and> lc_ping c' = lc_ping c \<and> \<not> lc_closeNow c' \<and>
          (lc_open c' = lc_open c \<or> lc_run c' = Releasing))) \<and>
    (lc_run c = Returned \<longrightarrow> lc_handshake c = (if cn_graceful (lc_conn c) then Some (1007, ''malformed frame'') else None)) \<and>
    (lc_run c = Reading \<and> lc_closing c \<longrightarrow> lc_closeNow c \<or> \<not> lc_open c)"
proof (intro conjI impI allI)
  note ok = lc_ok_reachable [OF assms]
  show "lc_handshake c = (if cn_graceful (lc_conn c) then Some (1007, ''malformed frame'') else None)" if "lc_run c = Returned"
    using that shaken_hands_reachable [OF assms] by (simp add: shaken_hands_def alone_def malformed_close_def)
  show "lc_closeNow c \<or> \<not> lc_open c" if "lc_run c = Reading \<and> lc_closing c"
  proof -
    have "\<not> (lc_run c = Checking \<or> run_rank (lc_run c) < 7)" using that by simp
    then have "\<not> cn_graceful (lc_conn c)" using ok unfolding lc_ok_def by blast
    with that ok show ?thesis unfolding lc_ok_def by blast
  qed
  assume sh: "lc_run c = Shaking"
  then have a: "alone c" by (simp add: alone_def)
  show w: "lc_writer c = Stopped" and p: "lc_ping c = PingEnded" and n: "\<not> lc_closeNow c"
    using ok a sh unfolding lc_ok_def by blast+
  have cl: "cn_closing (lc_conn c)" by (rule graceful_closed(3) [OF ok a])
  fix c' assume "own_step c c' \<or> env_step c c'"
  then have "lc_written c' = lc_written c \<and> lc_ping c' = lc_ping c \<and> \<not> lc_closeNow c' \<and> (lc_open c' = lc_open c \<or> lc_run c' = Releasing)"
  proof
    assume "own_step c c'"
    then show ?thesis
      by (cases rule: own_step.cases) (use sh w p n cl writer_running in \<open>auto simp: lc_close_id\<close>)
  next
    assume "env_step c c'"
    then show ?thesis
      by (cases rule: env_step.cases) (use sh w p n cl in \<open>auto simp: lc_close_id with_queue_def\<close>)
  qed
  then show "lc_written c' = lc_written c" "lc_ping c' = lc_ping c" "\<not> lc_closeNow c'" "lc_open c' = lc_open c \<or> lc_run c' = Releasing"
    by blast+
qed

text \<open>A client sends a malformed frame.\<close>

lemma handshake_alone_witness:
  "\<exists>c'. lc_reachable c' \<and> lc_run c' = Returned \<and> lc_handshake c' = Some (1007, ''malformed frame'')"
proof -
  let ?c1 = "new_lifecycle\<lparr>lc_run := Replaying\<rparr>"
  let ?c2 = "new_lifecycle\<lparr>lc_run := Reading\<rparr>"
  let ?c3 = "new_lifecycle\<lparr>lc_run := Handling\<rparr>"
  let ?c4 = "(lc_close StatusInvalidFramePayloadData ''malformed frame'' True ?c3)\<lparr>lc_run := Checking\<rparr>"
  have "own_step new_lifecycle ?c1" by (rule joins) (simp add: new_lifecycle_def)
  from lc_own [OF lc_start this] have 1: "lc_reachable ?c1" .
  have "own_step ?c1 ?c2" using replays [of ?c1] by (simp add: new_lifecycle_def)
  from lc_own [OF 1 this] have 2: "lc_reachable ?c2" .
  have "env_step ?c2 ?c3" using reads [of ?c2] by (simp add: new_lifecycle_def)
  from lc_env [OF 2 this] have 3: "lc_reachable ?c3" .
  have "own_step ?c3 ?c4" by (rule handles_malformed) simp
  from lc_own [OF 3 this] have 4: "lc_reachable ?c4" .
  have graceful: "lc_closing ?c4" "closeInfo (lc_conn ?c4) = (1007, ''malformed frame'', True)"
    by (simp_all add: new_lifecycle_def newClientConn_def lc_defs)
  obtain n c' where n: "(own_step ^^ n) ?c4 c'" and rest: "\<And>c''. \<not> own_step c' c''" using own_settles by blast
  have c': "lc_reachable c'" "lc_closing c'" "cn_graceful (lc_conn c')"
    using own_run [OF 4 n] own_run_keeps(1) [OF n graceful(1)] graceful(2) by (auto simp: closeInfo_def)
  have "lc_run c' = Returned" using rest_closed [OF lc_ok_reachable [OF c'(1)] rest] c'(2) by (simp add: all_ended_def)
  with handshake_alone [OF c'(1)] c' show ?thesis by auto
qed

end
