(* ===== verification/Listener.thy ===== *)
theory Listener
  imports ConnLifecycle
begin

text \<open>
  The WebSocket handlers of server/internal/api/server.go (\<open>serveWS\<close>, \<open>serveMeters\<close>) and the wait
  for them at shutdown.  \<open>http.Server.Shutdown\<close> does not wait for connections that were
  upgraded, so the handlers count themselves in \<open>conns\<close> and \<open>serve\<close> waits for the count.  A
  \<open>/ws\<close> handler runs the goroutines of \<open>ConnLifecycle\<close>; steps of different handlers, of \<open>serve\<close>
  and of the peers interleave freely.
\<close>

section \<open>Handlers\<close>

datatype ws_kind = MainSocket | MeterSocket

text \<open>
  \<open>Upgraded\<close> lies between \<open>acceptWS\<close> and \<open>conns.Add\<close>.  After \<open>run\<close> has returned its bridge
  goroutine may still have a step to go, so \<open>ServedWS\<close> keeps the connection.
\<close>

datatype ws_handler =
    NoRequest
  | Accepting ws_kind
  | Upgraded ws_kind
  | ServingWS lifecycle
  | ServedWS lifecycle
  | ServingMeters
  | Ended

text \<open>Where \<open>serve\<close> is; \<open>ServeReturns\<close> says whether the count came down in time.\<close>

datatype stop_pc = Listening | ShuttingDown | ClosingAll | AwaitingConns | ServeReturns bool

record listener =
  ln_handlers :: "nat \<Rightarrow> ws_handler"
  ln_next :: nat
  ln_conns :: int
  ln_cancelled :: bool
  ln_stop :: stop_pc
  ln_cutOff :: bool

definition new_listener :: listener where
  "new_listener = \<lparr>ln_handlers = (\<lambda>_. NoRequest), ln_next = 0, ln_conns = 0, ln_cancelled = False,
     ln_stop = Listening, ln_cutOff = False\<rparr>"

definition set_handler :: "nat \<Rightarrow> ws_handler \<Rightarrow> listener \<Rightarrow> listener" where
  "set_handler i h l = l\<lparr>ln_handlers := (ln_handlers l)(i := h)\<rparr>"

text \<open>\<open>conns.Add\<close> and \<open>conns.Done\<close>.\<close>

definition add_conns :: "int \<Rightarrow> listener \<Rightarrow> listener" where
  "add_conns n l = l\<lparr>ln_conns := ln_conns l + n\<rparr>"

text \<open>The request's context descends from the server's, so cancelling one cancels the other.\<close>

fun cancel_handler :: "ws_handler \<Rightarrow> ws_handler" where
  "cancel_handler (ServingWS c) = ServingWS (c\<lparr>lc_parentDone := True\<rparr>)"
| "cancel_handler h = h"

text \<open>\<open>hub.closeAll\<close> reaches a connection from when it joined the hub until it left.\<close>

fun close_handler :: "ws_handler \<Rightarrow> ws_handler" where
  "close_handler (ServingWS c) =
     (if lc_started c \<and> \<not> lc_removed c then ServingWS (lc_close StatusGoingAway ''server shutting down'' False c) else ServingWS c)"
| "close_handler h = h"

section \<open>Steps\<close>

text \<open>Those nothing has to happen for, once the context is cancelled.\<close>

inductive ln_step :: "listener \<Rightarrow> listener \<Rightarrow> bool" where
  accept_fails: "ln_handlers l i = Accepting k \<Longrightarrow> ln_step l (set_handler i Ended l)"
| upgrades: "ln_handlers l i = Accepting k \<Longrightarrow> ln_step l (set_handler i (Upgraded k) l)"
| serves_ws: "ln_handlers l i = Upgraded MainSocket \<Longrightarrow>
    ln_step l (add_conns 1 (set_handler i (ServingWS (new_lifecycle\<lparr>lc_parentDone := ln_cancelled l\<rparr>)) l))"
| serves_meters: "ln_handlers l i = Upgraded MeterSocket \<Longrightarrow> ln_step l (add_conns 1 (set_handler i ServingMeters l))"
| runs: "ln_handlers l i = ServingWS c \<Longrightarrow> own_step c c' \<Longrightarrow> ln_step l (set_handler i (ServingWS c') l)"
| ws_returns: "ln_handlers l i = ServingWS c \<Longrightarrow> lc_run c = Returned \<Longrightarrow>
    ln_step l (add_conns (-1) (set_handler i (ServedWS c) l))"
| finishes: "ln_handlers l i = ServedWS c \<Longrightarrow> own_step c c' \<Longrightarrow> ln_step l (set_handler i (ServedWS c') l)"
| meters_cancelled: "ln_handlers l i = ServingMeters \<Longrightarrow> ln_cancelled l \<Longrightarrow> ln_step l (add_conns (-1) (set_handler i Ended l))"
| stop_begins: "ln_stop l = Listening \<Longrightarrow> ln_cancelled l \<Longrightarrow> ln_step l (l\<lparr>ln_stop := ShuttingDown\<rparr>)"
| shutdown_returns: "ln_stop l = ShuttingDown \<Longrightarrow> (\<forall>i k. ln_handlers l i \<noteq> Accepting k) \<Longrightarrow> ln_step l (l\<lparr>ln_stop := ClosingAll\<rparr>)"
| closes_all: "ln_stop l = ClosingAll \<Longrightarrow> ln_step l (l\<lparr>ln_stop := AwaitingConns, ln_handlers := close_handler \<circ> ln_handlers l\<rparr>)"
| conns_done: "ln_stop l = AwaitingConns \<Longrightarrow> ln_conns l = 0 \<Longrightarrow> ln_step l (l\<lparr>ln_stop := ServeReturns True\<rparr>)"

text \<open>
  Requests, peers, the hub, and the clock.  Once \<open>Shutdown\<close> has returned in time no request is
  left that could still begin.
\<close>

inductive ln_event :: "listener \<Rightarrow> listener \<Rightarrow> bool" where
  request: "ln_stop l \<in> {Listening, ShuttingDown} \<or> ln_cutOff l \<Longrightarrow>
    ln_event l ((set_handler (ln_next l) (Accepting k) l)\<lparr>ln_next := Suc (ln_next l)\<rparr>)"
| meters_peer: "ln_handlers l i = ServingMeters \<Longrightarrow> ln_event l (add_conns (-1) (set_handler i Ended l))"
| happens: "ln_handlers l i = ServingWS c \<Longrightarrow> env_step c c' \<Longrightarrow> lc_parentDone c' = lc_parentDone c \<Longrightarrow>
    ln_event l (set_handler i (ServingWS c') l)"
| late: "ln_handlers l i = ServedWS c \<Longrightarrow> env_step c c' \<Longrightarrow> lc_parentDone c' = lc_parentDone c \<Longrightarrow>
    ln_event l (set_handler i (ServedWS c') l)"
| cancelled: "ln_event l (l\<lparr>ln_cancelled := True, ln_handlers := cancel_handler \<circ> ln_handlers l\<rparr>)"
| shutdown_timeout: "ln_stop l = ShuttingDown \<Longrightarrow> ln_event l (l\<lparr>ln_stop := ClosingAll, ln_cutOff := True\<rparr>)"
| conns_timeout: "ln_stop l = AwaitingConns \<Longrightarrow> ln_event l (l\<lparr>ln_stop := ServeReturns False\<rparr>)"

inductive ln_reachable :: "listener \<Rightarrow> bool" where
  ln_start: "ln_reachable new_listener"
| ln_own: "ln_reachable l \<Longrightarrow> ln_step l l' \<Longrightarrow> ln_reachable l'"
| ln_env: "ln_reachable l \<Longrightarrow> ln_event l l' \<Longrightarrow> ln_reachable l'"

section \<open>The count\<close>

definition counted :: "ws_handler \<Rightarrow> bool" where
  "counted h \<longleftrightarrow> (case h of ServingWS _ \<Rightarrow> True | ServingMeters \<Rightarrow> True | _ \<Rightarrow> False)"

lemma counted_simps [simp]:
  "\<not> counted NoRequest" "\<not> counted (Accepting k)" "\<not> counted (Upgraded k)" "counted (ServingWS c)"
  "\<not> counted (ServedWS c)" "counted ServingMeters" "\<not> counted Ended"
  "counted (cancel_handler h) = counted h" "counted (close_handler h) = counted h"
  by (simp_all add: counted_def split: ws_handler.split)

text \<open>What holds of one handler.\<close>

fun handler_ok :: "bool \<Rightarrow> ws_handler \<Rightarrow> bool" where
  "handler_ok cancelled (ServingWS c) = (lc_reachable c \<and> lc_parentDone c = cancelled)"
| "handler_ok cancelled (ServedWS c) = (lc_reachable c \<and> lc_run c = Returned)"
| "handler_ok cancelled h = True"

definition ln_ok :: "listener \<Rightarrow> bool" where
  "ln_ok l \<longleftrightarrow> (\<forall>i \<ge> ln_next l. ln_handlers l i = NoRequest) \<and> (\<forall>i. handler_ok (ln_cancelled l) (ln_handlers l i)) \<and>
     ln_conns l = int (card {i. counted (ln_handlers l i)}) \<and> (ln_stop l = Listening \<or> ln_cancelled l)"


lemma returned_stays:
  "own_step c c' \<Longrightarrow> lc_run c = Returned \<Longrightarrow> lc_run c' = Returned"
  "env_step c c' \<Longrightarrow> lc_run c = Returned \<Longrightarrow> lc_run c' = Returned"
proof -
  show "own_step c c' \<Longrightarrow> lc_run c = Returned \<Longrightarrow> lc_run c' = Returned"
    by (induction rule: own_step.induct) (auto simp: after_writer_def with_queue_def Let_def)
  show "env_step c c' \<Longrightarrow> lc_run c = Returned \<Longrightarrow> lc_run c' = Returned"
    by (induction rule: env_step.induct) (auto simp: with_queue_def)
qed

lemma reachable_cancelled: "lc_reachable c \<Longrightarrow> lc_reachable (c\<lparr>lc_parentDone := b \<or> lc_parentDone c\<rparr>)"
  using lc_env [OF _ shutdown, of c] by (cases b) simp_all

lemma counted_set:
  assumes "finite {j. counted (h j)}"
  shows "int (card {j. counted ((h(i := x)) j)}) =
    int (card {j. counted (h j)}) + (if counted x then 1 else 0) - (if counted (h i) then 1 else 0)"
proof -
  define D where "D = {j. counted (h j)} - {i}"
  have "finite D" "i \<notin> D" using assms by (simp_all add: D_def)
  moreover have "{j. counted (h j)} = (if counted (h i) then insert i D else D)"
      "{j. counted ((h(i := x)) j)} = (if counted x then insert i D else D)" by (auto simp: D_def)
  ultimately show ?thesis by simp
qed

lemma ln_ok_finite: "ln_ok l \<Longrightarrow> finite {j. counted (ln_handlers l j)}"
proof (rule finite_subset [of _ "{..<ln_next l}"])
  assume ok: "ln_ok l"
  then have "ln_next l \<le> j \<Longrightarrow> \<not> counted (ln_handlers l j)" for j by (simp add: ln_ok_def)
  then show "{j. counted (ln_handlers l j)} \<subseteq> {..<ln_next l}" by (force simp: not_le [symmetric])
qed simp

text \<open>One handler changes and the count with it.\<close>

lemma ln_ok_set:
  assumes "ln_ok l" "ln_handlers l i \<noteq> NoRequest" "handler_ok (ln_cancelled l) h"
    and "n = (if counted h then 1 else 0) - (if counted (ln_handlers l i) then 1 else 0)"
  shows "ln_ok (add_conns n (set_handler i h l))"
proof -
  have "i < ln_next l" using assms(1,2) by (force simp: ln_ok_def not_le [symmetric])
  with assms(1,3,4) counted_set [OF ln_ok_finite [OF assms(1)], of i h] show ?thesis
    by (simp add: ln_ok_def add_conns_def set_handler_def)
qed

lemma add_no_conns [simp]: "add_conns 0 l = l"
  by (simp add: add_conns_def)

lemmas ln_ok_same = ln_ok_set [where n = 0, simplified]

lemma ln_ok_handlers:
  assumes "ln_ok l" "\<And>i. counted (f (ln_handlers l i)) = counted (ln_handlers l i)"
    and "\<And>i. handler_ok cancelled (f (ln_handlers l i))" "f NoRequest = NoRequest" "stop = Listening \<or> cancelled"
  shows "ln_ok (l\<lparr>ln_cancelled := cancelled, ln_handlers := f \<circ> ln_handlers l, ln_stop := stop\<rparr>)"
  using assms by (simp add: ln_ok_def)

lemma ln_ok_handler: "ln_ok l \<Longrightarrow> handler_ok (ln_cancelled l) (ln_handlers l i)"
  by (simp add: ln_ok_def)

lemma ln_ok_step: "ln_step l l' \<Longrightarrow> ln_ok l \<Longrightarrow> ln_ok l'"
proof (induction rule: ln_step.induct)
  case (accept_fails l i k)
  then show ?case by (intro ln_ok_same) simp_all
next
  case (upgrades l i k)
  then show ?case by (intro ln_ok_same) simp_all
next
  case (serves_ws l i)
  have "lc_reachable (new_lifecycle\<lparr>lc_parentDone := ln_cancelled l\<rparr>)"
    using reachable_cancelled [OF lc_start, of "ln_cancelled l"] by (simp add: new_lifecycle_def)
  with serves_ws show ?case by (intro ln_ok_set) simp_all
next
  case (serves_meters l i)
  then show ?case by (intro ln_ok_set) simp_all
next
  case (runs l i c c')
  then show ?case using ln_ok_handler [OF runs(3), of i] lc_own own_keeps(2) by (intro ln_ok_same) auto
next
  case (ws_returns l i c)
  then show ?case using ln_ok_handler [OF ws_returns(3), of i] by (intro ln_ok_set) auto
next
  case (finishes l i c c')
  then show ?case using ln_ok_handler [OF finishes(3), of i] lc_own returned_stays(1) by (intro ln_ok_same) auto
next
  case (meters_cancelled l i)
  then show ?case by (intro ln_ok_set) simp_all
next
  case (closes_all l)
  have "handler_ok (ln_cancelled l) (close_handler (ln_handlers l i))" for i
    using ln_ok_handler [OF closes_all(2), of i] lc_env [OF _ closed_by_hub] by (cases "ln_handlers l i") auto
  then show ?case using ln_ok_handlers [OF closes_all(2), of close_handler "ln_cancelled l" AwaitingConns] closes_all
    by (simp add: ln_ok_def)
qed (auto simp: ln_ok_def)

lemma ln_ok_event: "ln_event l l' \<Longrightarrow> ln_ok l \<Longrightarrow> ln_ok l'"
proof (induction rule: ln_event.induct)
  case (request l k)
  have "ln_handlers l (ln_next l) = NoRequest" using request(2) by (simp add: ln_ok_def)
  with request(2) counted_set [OF ln_ok_finite [OF request(2)], of "ln_next l" "Accepting k"] show ?case
    by (simp add: ln_ok_def set_handler_def)
next
  case (meters_peer l i)
  then show ?case by (intro ln_ok_set) simp_all
next
  case (happens l i c c')
  then show ?case using ln_ok_handler [OF happens(4), of i] lc_env by (intro ln_ok_same) auto
next
  case (late l i c c')
  then show ?case using ln_ok_handler [OF late(4), of i] lc_env returned_stays(2) by (intro ln_ok_same) auto
next
  case (cancelled l)
  have "handler_ok True (cancel_handler (ln_handlers l i))" for i
    using ln_ok_handler [OF cancelled, of i] lc_env [OF _ shutdown] by (cases "ln_handlers l i") auto
  then show ?case using ln_ok_handlers [OF cancelled, of cancel_handler True "ln_stop l"] by simp
qed (auto simp: ln_ok_def)

lemma ln_ok_reachable: "ln_reachable l \<Longrightarrow> ln_ok l"
proof (induction rule: ln_reachable.induct)
  case ln_start
  show ?case by (simp add: ln_ok_def new_listener_def)
qed (auto intro: ln_ok_step ln_ok_event)


text \<open>After a \<open>Shutdown\<close> that was not cut off no request is left before its upgrade.\<close>

definition drained_requests :: "listener \<Rightarrow> bool" where
  "drained_requests l \<longleftrightarrow> ln_stop l \<notin> {Listening, ShuttingDown} \<and> \<not> ln_cutOff l \<longrightarrow> (\<forall>i k. ln_handlers l i \<noteq> Accepting k)"

lemma handlers_accepting [simp]:
  "cancel_handler h = Accepting k \<longleftrightarrow> h = Accepting k" "close_handler h = Accepting k \<longleftrightarrow> h = Accepting k"
  by (cases h; simp)+

lemma drained_step: "ln_step l l' \<Longrightarrow> drained_requests l \<Longrightarrow> drained_requests l'"
  by (induction rule: ln_step.induct) (auto simp: drained_requests_def set_handler_def add_conns_def)

lemma drained_event: "ln_event l l' \<Longrightarrow> drained_requests l \<Longrightarrow> drained_requests l'"
  by (induction rule: ln_event.induct) (auto simp: drained_requests_def set_handler_def add_conns_def)

lemma drained_reachable: "ln_reachable l \<Longrightarrow> drained_requests l"
proof (induction rule: ln_reachable.induct)
  case ln_start
  show ?case by (simp add: drained_requests_def new_listener_def)
qed (auto intro: drained_step drained_event)

section \<open>Progress\<close>

fun handler_work :: "ws_handler \<Rightarrow> nat" where
  "handler_work (Accepting k) = lc_work new_lifecycle + 3"
| "handler_work (Upgraded k) = lc_work new_lifecycle + 2"
| "handler_work (ServingWS c) = lc_work c + 1"
| "handler_work (ServedWS c) = lc_work c"
| "handler_work ServingMeters = 1"
| "handler_work _ = 0"

fun stop_rank :: "stop_pc \<Rightarrow> nat" where
  "stop_rank Listening = 4" | "stop_rank ShuttingDown = 3" | "stop_rank ClosingAll = 2" | "stop_rank AwaitingConns = 1"
| "stop_rank (ServeReturns ok) = 0"

definition ln_work :: "listener \<Rightarrow> nat" where
  "ln_work l = (\<Sum>i<ln_next l. handler_work (ln_handlers l i)) + stop_rank (ln_stop l)"

lemma work_set_handler:
  assumes "ln_ok l" "ln_handlers l i \<noteq> NoRequest" "handler_work h < handler_work (ln_handlers l i)"
  shows "ln_work (add_conns n (set_handler i h l)) < ln_work l"
proof -
  have i: "i < ln_next l" using assms(1,2) by (force simp: ln_ok_def not_le [symmetric])
  have "(\<Sum>j<ln_next l. handler_work (((ln_handlers l)(i := h)) j)) < (\<Sum>j<ln_next l. handler_work (ln_handlers l j))"
    using i assms(3) by (intro sum_strict_mono_ex1) auto
  then show ?thesis by (simp add: ln_work_def set_handler_def add_conns_def)
qed

lemmas work_set_same = work_set_handler [where n = 0, simplified]

lemma lc_work_parent [simp]: "lc_work (c\<lparr>lc_parentDone := b\<rparr>) = lc_work c"
  by (simp add: lc_work_def lc_closing_def)

lemma close_handler_work: "handler_work (close_handler h) \<le> handler_work h"
proof (cases h)
  case (ServingWS c)
  have "lc_work (lc_close StatusGoingAway ''server shutting down'' False c) \<le> lc_work c"
    using lc_close_pays [of StatusGoingAway "''server shutting down''" False c] by (simp add: lc_work_def writer_work_eq)
  with ServingWS show ?thesis by simp
qed simp_all

lemma ln_works: "ln_step l l' \<Longrightarrow> ln_ok l \<Longrightarrow> ln_work l' < ln_work l"
proof (induction rule: ln_step.induct)
  case (closes_all l)
  have "(\<Sum>i<ln_next l. handler_work (close_handler (ln_handlers l i))) \<le> (\<Sum>i<ln_next l. handler_work (ln_handlers l i))"
    by (intro sum_mono close_handler_work)
  with closes_all(1) show ?case by (simp add: ln_work_def)
next
  case (stop_begins l)
  then show ?case by (simp add: ln_work_def)
next
  case (shutdown_returns l)
  then show ?case by (simp add: ln_work_def)
next
  case (conns_done l)
  then show ?case by (simp add: ln_work_def)
qed (intro work_set_handler work_set_same; simp add: own_works)+

lemma step_keeps_cancelled: "ln_step l l' \<Longrightarrow> ln_cancelled l' = ln_cancelled l"
  by (induction rule: ln_step.induct) (simp_all add: set_handler_def add_conns_def)

lemma ln_run:
  assumes "ln_reachable l" "(ln_step ^^ n) l l'"
  shows "ln_reachable l' \<and> n + ln_work l' \<le> ln_work l \<and> ln_cancelled l' = ln_cancelled l"
  using assms(2)
proof (induction n arbitrary: l')
  case 0
  with assms(1) show ?case by simp
next
  case (Suc n)
  then obtain m where "(ln_step ^^ n) l m" and step: "ln_step m l'" by auto
  with Suc.IH have m: "ln_reachable m" "n + ln_work m \<le> ln_work l" "ln_cancelled m = ln_cancelled l" by auto
  with ln_own [OF m(1) step] ln_works [OF step ln_ok_reachable [OF m(1)]] step_keeps_cancelled [OF step] show ?case by simp
qed

text \<open>What a handler may be left as when nothing is left to do.\<close>

definition handler_over :: "ws_handler \<Rightarrow> bool" where
  "handler_over h \<longleftrightarrow> (case h of NoRequest \<Rightarrow> True | Ended \<Rightarrow> True | ServedWS c \<Rightarrow> all_ended c | _ \<Rightarrow> False)"

lemma ln_rest:
  assumes ok: "ln_ok l" and c: "ln_cancelled l" and stuck: "\<And>l'. \<not> ln_step l l'"
  shows "handler_over (ln_handlers l i)" "ln_conns l = 0" "\<exists>ok. ln_stop l = ServeReturns ok"
proof -
  have over: "handler_over (ln_handlers l i)" for i
  proof (cases "ln_handlers l i")
    case (Accepting k)
    with accept_fails stuck show ?thesis by blast
  next
    case (Upgraded k)
    with serves_ws serves_meters stuck show ?thesis by (cases k) blast+
  next
    case (ServingWS c')
    with ok c have c': "lc_ok c'" "lc_parentDone c'"
      using ln_ok_handler [OF ok, of i] lc_ok_reachable by auto
    have "\<not> own_step c' c''" for c'' using runs [OF ServingWS] stuck by blast
    from rest_closed [OF c'(1) this] c'(2) have "lc_run c' = Returned" by (simp add: all_ended_def)
    with ws_returns [OF ServingWS] stuck show ?thesis by blast
  next
    case (ServedWS c')
    with ok have c': "lc_ok c'" "lc_run c' = Returned"
      using ln_ok_handler [OF ok, of i] lc_ok_reachable by auto
    then have "lc_closing c'" using graceful_closed(3) [OF c'(1)] by (simp add: lc_closing_def alone_def)
    moreover have "\<not> own_step c' c''" for c'' using finishes [OF ServedWS] stuck by blast
    ultimately have "all_ended c'" using rest_closed [OF c'(1)] by blast
    with ServedWS show ?thesis by (simp add: handler_over_def)
  next
    case ServingMeters
    with meters_cancelled c stuck show ?thesis by blast
  qed (simp_all add: handler_over_def)
  have "\<not> counted (ln_handlers l i)" and no: "ln_handlers l i \<noteq> Accepting k" for i k
    using over [of i] by (auto simp: handler_over_def counted_def split: ws_handler.splits)
  then show conns: "ln_conns l = 0" using ok by (simp add: ln_ok_def)
  show "\<exists>ok. ln_stop l = ServeReturns ok"
    using stop_begins [OF _ c] shutdown_returns [of l] closes_all [of l] conns_done [OF _ conns] no stuck by (cases "ln_stop l") blast+
  show "handler_over (ln_handlers l i)" by (rule over)
qed

section \<open>Properties of the shutdown\<close>

text \<open>
  C15: However requests, upgrades, handlers, peers and the stop have interleaved, once the
  server's context is cancelled everything ends within \<open>ln_work\<close> steps: no handler is left
  between its upgrade and its return, the count of connections is back at zero, every connection
  served has ended with its socket closed and its keys released, and \<open>serve\<close> is past its wait.
\<close>

theorem shutdown_completes:
  assumes "ln_reachable l" "ln_cancelled l" "(ln_step ^^ n) l l'"
  shows "n \<le> ln_work l \<and>
    (\<not> (\<exists>l''. ln_step l' l'') \<longrightarrow>
       ln_conns l' = 0 \<and> (\<exists>ok. ln_stop l' = ServeReturns ok) \<and> (\<forall>i. handler_over (ln_handlers l' i)))"
proof -
  from ln_run [OF assms(1,3)] assms(2) have r: "ln_reachable l'" "n \<le> ln_work l" "ln_cancelled l'" by auto
  then show ?thesis using ln_rest [OF ln_ok_reachable, of l'] by blast
qed

lemma ln_settles:
  assumes "ln_reachable l"
  shows "\<exists>n l'. (ln_step ^^ n) l l' \<and> \<not> (\<exists>l''. ln_step l' l'')"
  using assms
proof (induction "ln_work l" arbitrary: l rule: less_induct)
  case less
  show ?case
  proof (cases "\<exists>l1. ln_step l l1")
    case True
    then obtain l1 where step: "ln_step l l1" ..
    from less(1) [OF ln_works [OF step ln_ok_reachable [OF less(2)]] ln_own [OF less(2) step]]
    obtain n l' where n: "(ln_step ^^ n) l1 l'" and r: "\<not> (\<exists>l''. ln_step l' l'')" by blast
    from relpowp_Suc_I2 [OF step n] r show ?thesis by blast
  next
    case False
    then have "(ln_step ^^ 0) l l \<and> \<not> (\<exists>l''. ln_step l l'')" by simp
    then show ?thesis by blast
  qed
qed

text \<open>A client and a meter socket, and the server is told to stop.\<close>

definition two_requests :: listener where
  "two_requests = new_listener\<lparr>ln_handlers := (\<lambda>_. NoRequest)(0 := Accepting MainSocket, 1 := Accepting MeterSocket), ln_next := 2\<rparr>"

lemma two_requests_reachable: "ln_reachable two_requests"
proof -
  have "ln_reachable ((set_handler 0 (Accepting MainSocket) new_listener)\<lparr>ln_next := 1\<rparr>)" (is "ln_reachable ?l")
    using ln_env [OF ln_start request [of new_listener MainSocket]] by (simp add: new_listener_def set_handler_def)
  from ln_env [OF this request [of ?l MeterSocket]] show ?thesis
    by (simp add: new_listener_def set_handler_def two_requests_def numeral_2_eq_2)
qed

lemma shutdown_completes_witness:
  "\<exists>n l'. (ln_step ^^ n) (two_requests\<lparr>ln_cancelled := True\<rparr>) l' \<and> ln_conns l' = 0 \<and> (\<forall>i. handler_over (ln_handlers l' i))"
proof -
  have "cancel_handler \<circ> ln_handlers two_requests = ln_handlers two_requests" by (auto simp: two_requests_def)
  then have reach: "ln_reachable (two_requests\<lparr>ln_cancelled := True\<rparr>)"
    using ln_env [OF two_requests_reachable cancelled] by simp
  from ln_settles [OF this] obtain n l' where n: "(ln_step ^^ n) (two_requests\<lparr>ln_cancelled := True\<rparr>) l'"
      and rest: "\<not> (\<exists>l''. ln_step l' l'')" by blast
  with shutdown_completes [OF reach _ n] show ?thesis by auto
qed

text \<open>
  The count is the number of handlers between \<open>Add\<close> and \<open>Done\<close>, never negative; when
  \<open>serve\<close> stops waiting because it is down to zero, every connection that was being served has
  left \<open>run\<close> with its socket closed, its keys released and the hub left, and no request is
  still before its upgrade unless \<open>Shutdown\<close> was cut off.
\<close>

lemma wait_awaits_connections:
  assumes "ln_reachable l"
  shows "ln_conns l = int (card {i. counted (ln_handlers l i)}) \<and>
    (ln_conns l = 0 \<longrightarrow> (\<forall>i. case ln_handlers l i of
       ServingWS c \<Rightarrow> False | ServingMeters \<Rightarrow> False
     | ServedWS c \<Rightarrow> lc_run c = Returned \<and> \<not> lc_open c \<and> lc_removed c \<and> cn_heldSurfaceKeys (lc_conn c) = {}
     | Accepting k \<Rightarrow> ln_stop l = AwaitingConns \<longrightarrow> ln_cutOff l
     | _ \<Rightarrow> True))"
proof (intro conjI impI allI)
  note ok = ln_ok_reachable [OF assms]
  from ok show c: "ln_conns l = int (card {i. counted (ln_handlers l i)})" by (simp add: ln_ok_def)
  fix i assume "ln_conns l = 0"
  with c have "card {i. counted (ln_handlers l i)} = 0" by simp
  then have "\<not> counted (ln_handlers l i)" using ln_ok_finite [OF ok] by auto
  moreover have "lc_run c = Returned \<and> \<not> lc_open c \<and> lc_removed c \<and> cn_heldSurfaceKeys (lc_conn c) = {}"
    if "ln_handlers l i = ServedWS c" for c
  proof -
    have "lc_ok c" "lc_run c = Returned" using ln_ok_handler [OF ok, of i] that lc_ok_reachable by auto
    then show ?thesis unfolding lc_ok_def by auto
  qed
  moreover have "ln_stop l = AwaitingConns \<longrightarrow> ln_cutOff l" if "ln_handlers l i = Accepting k" for k
    using drained_reachable [OF assms] that by (auto simp: drained_requests_def)
  ultimately show "case ln_handlers l i of
       ServingWS c \<Rightarrow> False | ServingMeters \<Rightarrow> False
     | ServedWS c \<Rightarrow> lc_run c = Returned \<and> \<not> lc_open c \<and> lc_removed c \<and> cn_heldSurfaceKeys (lc_conn c) = {}
     | Accepting k \<Rightarrow> ln_stop l = AwaitingConns \<longrightarrow> ln_cutOff l
     | _ \<Rightarrow> True"
    by (cases "ln_handlers l i") simp_all
qed

lemma wait_awaits_connections_witness:
  "\<exists>l. ln_reachable l \<and> ln_handlers l 1 = ServingMeters \<and> ln_conns l = 1 \<and> card {i. counted (ln_handlers l i)} = 1"
proof -
  let ?l = "set_handler 1 (Upgraded MeterSocket) two_requests"
  have "ln_handlers two_requests 1 = Accepting MeterSocket" by (simp add: two_requests_def)
  from ln_own [OF two_requests_reachable upgrades [OF this]] have 1: "ln_reachable ?l" .
  have "ln_handlers ?l 1 = Upgraded MeterSocket" by (simp add: set_handler_def)
  from ln_own [OF 1 serves_meters [OF this]] have 2: "ln_reachable (add_conns 1 (set_handler 1 ServingMeters ?l))" (is "ln_reachable ?m") .
  have "ln_conns ?m = 1" by (simp add: add_conns_def set_handler_def two_requests_def new_listener_def)
  with wait_awaits_connections [OF 2] 2 show ?thesis
    by (intro exI [of _ ?m]) (simp add: add_conns_def set_handler_def)
qed

text \<open>
  What the wait does not cover: a handler that was upgraded but had not counted itself yet.
  \<open>Shutdown\<close> no longer waits for it, the count does not have it, and it starts to serve after
  \<open>serve\<close> stopped waiting.
\<close>

lemma late_upgrade_not_awaited:
  "\<exists>l c. ln_reachable l \<and> ln_stop l = ServeReturns True \<and> \<not> ln_cutOff l \<and> ln_handlers l 0 = ServingWS c \<and> ln_conns l = 1"
proof -
  let ?h = "\<lambda>x. (\<lambda>_ :: nat. NoRequest)(0 := x)"
  let ?l = "\<lambda>x n stop. \<lparr>ln_handlers = ?h x, ln_next = 1, ln_conns = n, ln_cancelled = True, ln_stop = stop, ln_cutOff = False\<rparr>"
  have f: "cancel_handler \<circ> ?h (Upgraded MainSocket) = ?h (Upgraded MainSocket)"
      "close_handler \<circ> ?h (Upgraded MainSocket) = ?h (Upgraded MainSocket)" by (auto simp: fun_eq_iff)
  have "ln_reachable ((set_handler 0 (Accepting MainSocket) new_listener)\<lparr>ln_next := 1\<rparr>)" (is "ln_reachable ?a")
    using ln_env [OF ln_start request [of new_listener MainSocket]] by (simp add: new_listener_def set_handler_def)
  moreover have "ln_step ?a (set_handler 0 (Upgraded MainSocket) ?a)" by (rule upgrades) (simp add: set_handler_def)
  ultimately have 1: "ln_reachable (set_handler 0 (Upgraded MainSocket) ?a)" by (rule ln_own)
  from ln_env [OF 1 cancelled] have 2: "ln_reachable (?l (Upgraded MainSocket) 0 Listening)"
    by (simp add: set_handler_def new_listener_def f)
  from ln_own [OF 2 stop_begins] have 3: "ln_reachable (?l (Upgraded MainSocket) 0 ShuttingDown)" by simp
  from ln_own [OF 3 shutdown_returns] have 4: "ln_reachable (?l (Upgraded MainSocket) 0 ClosingAll)" by simp
  from ln_own [OF 4 closes_all] have 5: "ln_reachable (?l (Upgraded MainSocket) 0 AwaitingConns)" by (simp add: f)
  from ln_own [OF 5 conns_done] have 6: "ln_reachable (?l (Upgraded MainSocket) 0 (ServeReturns True))" by simp
  from ln_own [OF 6 serves_ws [of _ 0]]
  have "ln_reachable (?l (ServingWS (new_lifecycle\<lparr>lc_parentDone := True\<rparr>)) 1 (ServeReturns True))"
    by (simp add: add_conns_def set_handler_def)
  then show ?thesis
    by (intro exI [of _ "?l (ServingWS (new_lifecycle\<lparr>lc_parentDone := True\<rparr>)) 1 (ServeReturns True)"]
        exI [of _ "new_lifecycle\<lparr>lc_parentDone := True\<rparr>"]) simp
qed

end
