(* ===== verification/SatelliteStream.thy ===== *)
theory SatelliteStream
  imports Satellite
begin

text \<open>
  The byte stream under \<open>Satellite\<close>: \<open>readLoop\<close> of server/internal/companion/satellite.go cuts
  what the socket delivers into lines, and \<open>pingLoop\<close> keeps the stream alive.  What arrived
  before the read failed (the peer closed, the deadline passed, the session was torn down) is a
  string; the lines it holds become the \<open>reads_line\<close> steps of the session.
\<close>

section \<open>Lines of a stream\<close>

abbreviation newline :: char where
  "newline \<equiv> CHR 0x0A"

text \<open>\<open>bufio.Reader.ReadString\<close>: \<open>None\<close> when the stream ends before the delimiter.\<close>

definition ReadString :: "char \<Rightarrow> string \<Rightarrow> (string \<times> string) option" where
  "ReadString d s =
     (case dropWhile (\<lambda>c. c \<noteq> d) s of
        [] \<Rightarrow> None
      | _ # remain \<Rightarrow> Some (takeWhile (\<lambda>c. c \<noteq> d) s @ [d], remain))"

text \<open>\<open>strings.TrimRight\<close> with a set of characters.\<close>

definition trim_line :: "string \<Rightarrow> string" where
  "trim_line s = rev (dropWhile (\<lambda>c. c \<in> {CHR 0x0D, newline}) (rev s))"

lemma ReadString_shorter: "ReadString d s = Some (l, remain) \<Longrightarrow> length remain < length s"
proof -
  assume "ReadString d s = Some (l, remain)"
  then have "dropWhile (\<lambda>c. c \<noteq> d) s = d # remain \<or> (\<exists>x. dropWhile (\<lambda>c. c \<noteq> d) s = x # remain)"
    by (auto simp: ReadString_def split: list.splits)
  then have "Suc (length remain) \<le> length s"
    using length_dropWhile_le [of "\<lambda>c. c \<noteq> d" s] by auto
  then show ?thesis by simp
qed

text \<open>A line that the peer did not terminate is dropped with the error.\<close>

function sat_readLoop :: "string \<Rightarrow> satellite \<Rightarrow> (satellite \<times> sat_event list) option" where
  "sat_readLoop stream s =
     (case ReadString newline stream of
        None \<Rightarrow> Some (s, [])
      | Some (line, remain) \<Rightarrow>
          (case handleLine (trim_line line) s of
             None \<Rightarrow> None
           | Some (s1, evs) \<Rightarrow> map_option (\<lambda>(s2, evs'). (s2, evs @ evs')) (sat_readLoop remain s1)))"
  by pat_completeness auto
termination
  by (relation "measure (\<lambda>(stream, _). length stream)") (auto dest: ReadString_shorter)

declare sat_readLoop.simps [simp del]

text \<open>The callbacks stay registered.\<close>

lemma same_onKey:
  "enqueue line s = Some (t, e) \<Longrightarrow> sa_onKey t = sa_onKey s" "sa_onKey (signalRegistration err s) = sa_onKey s"
  "handleLine_raises line s = Some (t, evs, g) \<Longrightarrow> sa_onKey t = sa_onKey s"
proof -
  have e: "enqueue line s = Some (t, e) \<Longrightarrow> sa_onKey t = sa_onKey s" for line e
    by (auto simp: enqueue_def split: option.splits if_splits)
  moreover have g: "sa_onKey (signalRegistration err s) = sa_onKey s" for err
    by (auto simp: signalRegistration_def Let_def close_conn_def split: option.splits)
  ultimately show "enqueue line s = Some (t, e) \<Longrightarrow> sa_onKey t = sa_onKey s" "sa_onKey (signalRegistration err s) = sa_onKey s"
    "handleLine_raises line s = Some (t, evs, g) \<Longrightarrow> sa_onKey t = sa_onKey s"
    by (auto simp: handleLine_raises_def split: if_splits prod.splits)
qed

lemma sat_step_onKey: "sat_step y y' \<Longrightarrow> sa_onKey (sy_sat y') = sa_onKey (sy_sat y)"
  by (induction rule: sat_step.induct)
    (auto simp: setSession_def tear_def close_conn_def teardown_def register_def run_op_def press_op_def Let_def same_onKey
      split: option.splits if_splits)

lemma wired_onKey: "sat_reachable (wired c) y \<Longrightarrow> sa_onKey (sy_sat y)"
proof (induction rule: sat_reachable.induct)
  case sat_start
  show ?case by (simp add: initial_sys_def wired_def OnKey_def OnLayout_def OnClear_def)
next
  case (sat_next y y')
  then show ?case using sat_step_onKey by simp
qed

section \<open>The keepalive\<close>

text \<open>One tick of \<open>pingLoop\<close>: what it does, and whether the loop goes on.\<close>

definition ping_tick :: "satellite \<Rightarrow> (satellite \<times> bool) option" where
  "ping_tick s = map_option (\<lambda>(s', err). (s', err = None \<or> err = Some ErrSatelliteQueueFull)) (enqueue ''PING cuebooth'' s)"

lemma ping_tick_step:
  assumes "ping_tick (sy_sat y) = Some (s, go)"
  shows "sat_step y (y\<lparr>sy_sat := s\<rparr>)" "go \<longleftrightarrow> sa_out (sy_sat y) \<noteq> None"
proof -
  from assms obtain err where e: "enqueue ''PING cuebooth'' (sy_sat y) = Some (s, err)" "go \<longleftrightarrow> err = None \<or> err = Some ErrSatelliteQueueFull"
    by (auto simp: ping_tick_def)
  then show "sat_step y (y\<lparr>sy_sat := s\<rparr>)" using pings [of y] by (simp add: run_op_def)
  show "go \<longleftrightarrow> sa_out (sy_sat y) \<noteq> None" using e by (auto simp: enqueue_def split: option.splits if_splits)
qed

section \<open>What reaches \<open>handleLine\<close>\<close>

text \<open>Lines as the peer sends them.\<close>

definition frames :: "string list \<Rightarrow> string" where
  "frames ls = concat (map (\<lambda>l. l @ [newline]) ls)"

lemma frames_simps [simp]: "frames [] = []" "frames (l # ls) = l @ newline # frames ls"
  by (simp_all add: frames_def)

lemma ReadString_frame: "newline \<notin> set l \<Longrightarrow> ReadString newline (l @ newline # rest) = Some (l @ [newline], rest)"
proof -
  assume l: "newline \<notin> set l"
  then have "dropWhile (\<lambda>c. c \<noteq> newline) (l @ newline # rest) = newline # rest"
      "takeWhile (\<lambda>c. c \<noteq> newline) (l @ newline # rest) = l"
    by (induction l) auto
  then show ?thesis by (simp add: ReadString_def)
qed

lemma ReadString_partial: "newline \<notin> set s \<Longrightarrow> ReadString newline s = None"
proof -
  assume "newline \<notin> set s"
  then have "dropWhile (\<lambda>c. c \<noteq> newline) s = []" by (auto simp: dropWhile_eq_Nil_conv)
  then show ?thesis unfolding ReadString_def by (simp only: list.case)
qed

lemma trim_line_newline: "trim_line (l @ [newline]) = trim_line l"
  by (simp add: trim_line_def)

lemma trim_line_plain: "l = [] \<or> last l \<notin> {CHR 0x0D, newline} \<Longrightarrow> trim_line l = l"
  by (cases l rule: rev_cases) (auto simp: trim_line_def)

text \<open>The lines handled one after the other.\<close>

fun handle_lines :: "string list \<Rightarrow> satellite \<Rightarrow> (satellite \<times> sat_event list) option" where
  "handle_lines [] s = Some (s, [])"
| "handle_lines (l # ls) s =
     (case handleLine (trim_line l) s of
        None \<Rightarrow> None
      | Some (s1, evs) \<Rightarrow> map_option (\<lambda>(s2, evs'). (s2, evs @ evs')) (handle_lines ls s1))"

text \<open>Wherever the stream is cut, the lines handled are those that arrived whole.\<close>

lemma readLoop_cut:
  assumes "\<forall>l \<in> set ls. newline \<notin> set l"
  shows "\<exists>j \<le> length ls. (\<forall>s. sat_readLoop (take k (frames ls)) s = handle_lines (take j ls) s) \<and>
    length (frames (take j ls)) \<le> k \<and> (j < length ls \<longrightarrow> k < length (frames (take (Suc j) ls)))"
  using assms
proof (induction ls arbitrary: k)
  case Nil
  then show ?case by (simp add: sat_readLoop.simps [of "[]"] ReadString_partial)
next
  case (Cons l ls)
  show ?case
  proof (cases "k \<le> length l")
    case True
    then have "newline \<notin> set (take k (frames (l # ls)))" using Cons.prems by (auto dest: in_set_takeD)
    then have "\<forall>s. sat_readLoop (take k (frames (l # ls))) s = handle_lines (take 0 (l # ls)) s"
      by (simp add: sat_readLoop.simps ReadString_partial)
    then show ?thesis using True by (intro exI [of _ 0]) simp
  next
    case False
    then obtain k' where k: "k = Suc (length l + k')" by (metis less_iff_Suc_add not_le)
    obtain j where j: "j \<le> length ls" "\<forall>s. sat_readLoop (take k' (frames ls)) s = handle_lines (take j ls) s"
        "length (frames (take j ls)) \<le> k'" "j < length ls \<longrightarrow> k' < length (frames (take (Suc j) ls))"
      using Cons.IH [of k'] Cons.prems by auto
    have "take k (frames (l # ls)) = l @ newline # take k' (frames ls)" by (simp add: k)
    then have "sat_readLoop (take k (frames (l # ls))) s = handle_lines (take (Suc j) (l # ls)) s" for s
      using ReadString_frame [of l "take k' (frames ls)"] Cons.prems j(2)
      by (simp add: sat_readLoop.simps [of "l @ newline # _"] trim_line_newline split: option.split)
    then show ?thesis using j by (intro exI [of _ "Suc j"]) (auto simp: k)
  qed
qed

text \<open>
  The state in which the reader reads on: when the section that signals an accepted registration
  is still to come, after it.
\<close>

definition line_done :: "sat_sys \<Rightarrow> sat_sys" where
  "line_done y = (if sy_signals y then y\<lparr>sy_sat := signalRegistration None (sy_sat y), sy_signals := False\<rparr> else y)"

lemma line_done_steps:
  assumes "sat_inv y" "sy_reader y = Some n"
  shows "sat_step\<^sup>*\<^sup>* y (line_done y)" "sat_inv (line_done y)" "sy_reader (line_done y) = Some n" "\<not> sy_signals (line_done y)"
  using assms signals_ok [OF assms(2)] signals_inv [OF assms] by (auto simp: line_done_def)

text \<open>In a session each line is handled by steps of the reader.\<close>

lemma handle_lines_steps:
  assumes "sat_inv y" "sy_reader y = Some n" "\<not> sy_signals y"
  shows "\<exists>s evs. handle_lines ls (sy_sat y) = Some (s, evs) \<and>
    sat_step\<^sup>*\<^sup>* y (y\<lparr>sy_sat := s, sy_heard := sy_heard y @ map (\<lambda>l. (n, trim_line l)) ls, sy_events := sy_events y @ map (Pair n) evs\<rparr>)"
  using assms
proof (induction ls arbitrary: y)
  case (Cons l ls)
  have "handleLine_raises (trim_line l) (sy_sat y) \<noteq> None"
    using handleLine_panic inv_no_panic [OF Cons.prems(1)] by blast
  then have "handleLine (trim_line l) (sy_sat y) \<noteq> None" by (simp add: handleLine_def)
  then obtain s1 evs1 where one: "handleLine (trim_line l) (sy_sat y) = Some (s1, evs1)" by force
  let ?y1 = "y\<lparr>sy_sat := s1, sy_heard := sy_heard y @ [(n, trim_line l)], sy_events := sy_events y @ map (\<lambda>e. (n, e)) evs1\<rparr>"
  have step: "sat_step\<^sup>*\<^sup>* y ?y1" by (rule reads_whole [OF Cons.prems(2,3) one])
  have "sat_inv ?y1" using Cons.prems(1) step by (rule sat_steps_inv)
  with Cons.IH [of ?y1] Cons.prems(2,3) obtain s evs where "handle_lines ls s1 = Some (s, evs)"
      "sat_step\<^sup>*\<^sup>* ?y1 (?y1\<lparr>sy_sat := s, sy_heard := sy_heard ?y1 @ map (\<lambda>l. (n, trim_line l)) ls, sy_events := sy_events ?y1 @ map (Pair n) evs\<rparr>)" by auto
  note steps = rtranclp_trans [where r = sat_step, OF step this(2)]
  have "handle_lines (l # ls) (sy_sat y) = Some (s, evs1 @ evs)" using one \<open>handle_lines ls s1 = Some (s, evs)\<close> by simp
  moreover have "sat_step\<^sup>*\<^sup>* y (y\<lparr>sy_sat := s, sy_heard := sy_heard y @ map (\<lambda>l. (n, trim_line l)) (l # ls), sy_events := sy_events y @ map (Pair n) (evs1 @ evs)\<rparr>)"
    using steps by simp
  ultimately show ?case by blast
qed auto

section \<open>Properties\<close>

text \<open>
  C27: Wherever the connection breaks off, in whatever state of the session, exactly the lines
  that arrived whole are handled and each as steps of the session: a key state cut short by a
  read deadline or a close publishes nothing, and nothing before it is lost.
\<close>

theorem reader_handles_whole_lines:
  assumes "sat_reachable (wired c) y" "sy_reader y = Some n" "\<forall>l \<in> set ls. newline \<notin> set l"
  shows "\<exists>j s evs. j \<le> length ls \<and> length (frames (take j ls)) \<le> k \<and>
    (j < length ls \<longrightarrow> k < length (frames (take (Suc j) ls))) \<and>
    handle_lines (take j ls) (sy_sat (line_done y)) = Some (s, evs) \<and>
    sat_readLoop (take k (frames ls)) (sy_sat (line_done y)) = Some (s, evs) \<and>
    sat_step\<^sup>*\<^sup>* y ((line_done y)\<lparr>sy_sat := s,
      sy_heard := sy_heard y @ map (\<lambda>l. (n, trim_line l)) (take j ls), sy_events := sy_events y @ map (Pair n) evs\<rparr>)"
proof -
  obtain j where j: "j \<le> length ls" "\<forall>s. sat_readLoop (take k (frames ls)) s = handle_lines (take j ls) s"
      "length (frames (take j ls)) \<le> k" "j < length ls \<longrightarrow> k < length (frames (take (Suc j) ls))"
    using readLoop_cut [OF assms(3)] by blast
  have "sat_inv y" using wired_reachable [OF assms(1)] by blast
  note fin = line_done_steps [OF this assms(2)]
  have same: "sy_heard (line_done y) = sy_heard y" "sy_events (line_done y) = sy_events y" by (simp_all add: line_done_def)
  from handle_lines_steps [OF fin(2-4), of "take j ls"] obtain s evs where
    "handle_lines (take j ls) (sy_sat (line_done y)) = Some (s, evs)"
    "sat_step\<^sup>*\<^sup>* (line_done y) ((line_done y)\<lparr>sy_sat := s,
      sy_heard := sy_heard y @ map (\<lambda>l. (n, trim_line l)) (take j ls), sy_events := sy_events y @ map (Pair n) evs\<rparr>)"
    unfolding same by blast
  with rtranclp_trans [OF fin(1)] j show ?thesis by metis
qed

text \<open>A live session reads one key state and half of another.\<close>

definition demo_lines :: "string list" where
  "demo_lines = [''KEY-STATE KEY=3 BITMAP=AAAA'' @ [CHR 0x0D], ''KEY-STATE KEY=4 BITMAP=BBBB'']"

lemma demo_lines_handled:
  assumes "sa_onKey s"
  shows "handle_lines (take 1 demo_lines) s = Some (s, [EvKey \<lparr>sk_Key = 3, sk_Type = ''BUTTON'', sk_Pressed = False,
    sk_Color = '''', sk_BitmapBase64 = ''AAAA''\<rparr>])"
proof -
  have "trim_line (demo_lines ! 0) = ''KEY-STATE KEY=3 BITMAP=AAAA''" by code_simp
  moreover have "parseSatelliteLine ''KEY-STATE KEY=3 BITMAP=AAAA'' = (''KEY-STATE'', [(''BITMAP'', ''AAAA''), (''KEY'', ''3'')])" by code_simp
  moreover have "Atoi ''3'' = Some 3" by code_simp
  moreover have "\<not> parseWireBool ''''" by code_simp
  moreover have "take 1 demo_lines = [demo_lines ! 0]" by (simp add: demo_lines_def)
  ultimately show ?thesis using assms by (simp add: handleLine_eq handleKeyState_def arg_def)
qed

lemma reader_handles_whole_lines_witness:
  "\<exists>y s. sat_reachable (wired demo_sat) y \<and> sy_phase y = Live 0 \<and>
     sat_readLoop (take 50 (frames demo_lines)) (sy_sat y) =
       Some (s, [EvKey \<lparr>sk_Key = 3, sk_Type = ''BUTTON'', sk_Pressed = False, sk_Color = '''', sk_BitmapBase64 = ''AAAA''\<rparr>])"
proof -
  obtain y where y: "sat_reachable (wired demo_sat) y" "sy_phase y = Live 0" "sy_reader y = Some 0" "\<not> sy_signals y"
    using demo_live by blast
  have key: "sa_onKey (sy_sat y)" by (rule wired_onKey [OF y(1)])
  have l: "\<forall>l \<in> set demo_lines. newline \<notin> set l" by code_simp
  obtain j s evs where j: "length (frames (take j demo_lines)) \<le> 50" "j < length demo_lines \<longrightarrow> 50 < length (frames (take (Suc j) demo_lines))"
      "j \<le> length demo_lines" "handle_lines (take j demo_lines) (sy_sat y) = Some (s, evs)"
      "sat_readLoop (take 50 (frames demo_lines)) (sy_sat y) = Some (s, evs)"
    using reader_handles_whole_lines [OF y(1,3) l, of 50] y(4) unfolding line_done_def by (simp only: if_False) blast
  have len: "length demo_lines = 2" "length (frames (take 1 demo_lines)) = 29" "length (frames (take 2 demo_lines)) = 57"
    by (simp_all add: demo_lines_def)
  have "j = 1"
  proof (rule ccontr)
    assume "j \<noteq> 1"
    with j(3) len(1) have "j = 0 \<or> j = 2" by auto
    with j(1,2) len show False by (auto simp: numeral_2_eq_2)
  qed
  with j(4,5) demo_lines_handled [OF key] y(1,2) show ?thesis by auto
qed

end
