(* ===== verification/SurfaceBridge.thy ===== *)
theory SurfaceBridge
  imports ClientLifetime
begin

text \<open>
  The Companion surface from end to end: the satellite of server/internal/companion/satellite.go
  and the server around it, put together as server/internal/api/surface.go does through the
  interface \<open>satelliteSurface\<close>.  The satellite's reader calls the manager back, one event after
  the other; handlers press keys through \<open>Press\<close>, which checks the registration and enqueues in
  two sections.  \<open>ServerModel\<close> lets callbacks and answers of \<open>Press\<close> be anything; here they are
  those of the sessions of \<open>Satellite\<close>.
\<close>

section \<open>The two halves together\<close>

text \<open>\<open>br_seen\<close>: how many of the events raised so far the manager has been called with.\<close>

record 's bridged =
  br_sat :: 's
  br_seen :: nat
  br_world :: world

text \<open>The presses of one section, each answered by the satellite.\<close>

fun answered :: "(int \<Rightarrow> bool \<Rightarrow> bool \<Rightarrow> 's \<Rightarrow> 's \<Rightarrow> bool) \<Rightarrow> (nat \<times> int \<times> bool \<times> bool) list \<Rightarrow> 's \<Rightarrow> 's \<Rightarrow> bool" where
  "answered does [] s s' = (s' = s)"
| "answered does ((i, key, pressed, ok) # ps) s s' = (\<exists>s1. does key pressed ok s s1 \<and> answered does ps s1 s')"

inductive bridge_step :: "('s \<Rightarrow> 's \<Rightarrow> bool) \<Rightarrow> (int \<Rightarrow> bool \<Rightarrow> bool \<Rightarrow> 's \<Rightarrow> 's \<Rightarrow> bool) \<Rightarrow> ('s \<Rightarrow> sat_event list) \<Rightarrow>
    's bridged \<Rightarrow> 's bridged \<Rightarrow> bool" for step does events where
  surface_runs: "step (br_sat r) s \<Longrightarrow> bridge_step step does events r (r\<lparr>br_sat := s\<rparr>)"
| calls_back: "br_seen r < length (events (br_sat r)) \<Longrightarrow> wd_inflight (br_world r) = None \<Longrightarrow>
    sv_surface (wd_server (br_world r)) = Some m \<Longrightarrow> surface_event (events (br_sat r) ! br_seen r) m = (m', b) \<Longrightarrow>
    bridge_step step does events r (r\<lparr>br_seen := Suc (br_seen r),
      br_world := (br_world r)\<lparr>wd_server := (wd_server (br_world r))\<lparr>sv_surface := Some m'\<rparr>, wd_inflight := b\<rparr>\<rparr>)"
| server_runs: "srv_step (br_world r) w \<Longrightarrow> sv_surface (wd_server w) = sv_surface (wd_server (br_world r)) \<Longrightarrow>
    wd_inflight w \<in> {None, wd_inflight (br_world r)} \<Longrightarrow>
    sv_presses (wd_server w) = sv_presses (wd_server (br_world r)) @ ps \<Longrightarrow> answered does ps (br_sat r) s \<Longrightarrow>
    bridge_step step does events r (r\<lparr>br_sat := s, br_world := w\<rparr>)"

inductive bridge_reachable :: "('s \<Rightarrow> 's \<Rightarrow> bool) \<Rightarrow> (int \<Rightarrow> bool \<Rightarrow> bool \<Rightarrow> 's \<Rightarrow> 's \<Rightarrow> bool) \<Rightarrow> ('s \<Rightarrow> sat_event list) \<Rightarrow>
    's \<Rightarrow> server \<Rightarrow> 's bridged \<Rightarrow> bool" for step does events s0 srv where
  bridge_start: "bridge_reachable step does events s0 srv \<lparr>br_sat = s0, br_seen = 0, br_world = start_world srv\<rparr>"
| bridge_next: "bridge_reachable step does events s0 srv r \<Longrightarrow> bridge_step step does events r r' \<Longrightarrow>
    bridge_reachable step does events s0 srv r'"

section \<open>What the server relies on of a surface\<close>

text \<open>
  Events are only added, by the surface itself or while it answers a press; and a layout
  announced is the one \<open>Layout\<close> told when the manager was built.
\<close>

locale satellite_surface =
  fixes step :: "'s \<Rightarrow> 's \<Rightarrow> bool" and does :: "int \<Rightarrow> bool \<Rightarrow> bool \<Rightarrow> 's \<Rightarrow> 's \<Rightarrow> bool"
    and events :: "'s \<Rightarrow> sat_event list" and ok :: "'s \<Rightarrow> bool" and s0 :: 's and dims :: "int \<times> int \<times> int"
  assumes starts: "ok s0" "events s0 = []"
    and added: "ok s \<Longrightarrow> step s s' \<Longrightarrow> ok s' \<and> prefix (events s) (events s')"
    and pressing: "ok s \<Longrightarrow> does key pressed taken s s' \<Longrightarrow> ok s' \<and> prefix (events s) (events s')"
    and announced: "ok s \<Longrightarrow> EvLayout r c b \<in> set (events s) \<Longrightarrow> (r, c, b) = dims"
begin

lemma answered_run: "answered does ps s s' \<Longrightarrow> ok s \<Longrightarrow> ok s' \<and> prefix (events s) (events s')"
proof (induction ps arbitrary: s)
  case (Cons p ps)
  obtain i key pressed taken where p: "p = (i, key, pressed, taken)" by (cases p)
  from Cons.prems(1) obtain s1 where s1: "does key pressed taken s s1" "answered does ps s1 s'" by (auto simp: p)
  from pressing [OF Cons.prems(2) s1(1)] Cons.IH [OF s1(2)] show ?case by (blast intro: prefix_order.trans)
qed simp

definition heard :: "'s bridged \<Rightarrow> sat_event list" where
  "heard r = take (br_seen r) (events (br_sat r))"

text \<open>The manager is what the events it heard made of it, and the server is one of \<open>ServerModel\<close>.\<close>

lemma bridge_runs:
  assumes "bridge_reachable step does events s0 srv r" "sv_surface srv = Some m0"
    and "(sm_rows m0, sm_cols m0, sm_bitmapSize m0) = dims"
  shows "ok (br_sat r) \<and> br_seen r \<le> length (events (br_sat r)) \<and> srv_reachable srv (br_world r) \<and>
    (\<exists>m. sv_surface (wd_server (br_world r)) = Some m \<and> m = fold (\<lambda>ev m. fst (surface_event ev m)) (heard r) m0 \<and>
       (sm_rows m, sm_cols m, sm_bitmapSize m) = dims)"
  using assms(1)
proof (induction rule: bridge_reachable.induct)
  case bridge_start
  have "wd_server (start_world srv) = srv" by (simp add: start_world_def)
  then show ?case using assms(2,3) by (auto simp: starts heard_def srv_start)
next
  case (bridge_next r r')
  obtain m where ih: "ok (br_sat r)" "br_seen r \<le> length (events (br_sat r))" "srv_reachable srv (br_world r)"
      "sv_surface (wd_server (br_world r)) = Some m" "m = fold (\<lambda>ev m. fst (surface_event ev m)) (heard r) m0"
      "(sm_rows m, sm_cols m, sm_bitmapSize m) = dims"
    using bridge_next.IH by blast
  have keep: "br_seen r \<le> length (events s)" "take (br_seen r) (events s) = heard r" if "prefix (events (br_sat r)) (events s)" for s
    using that ih(2) by (auto simp: prefix_def heard_def)
  from bridge_next(2) show ?case
  proof cases
    case (surface_runs s)
    have s: "ok s" "prefix (events (br_sat r)) (events s)" using added [OF ih(1) surface_runs(2)] by blast+
    have "br_sat r' = s" "br_world r' = br_world r" "br_seen r' = br_seen r" "heard r' = heard r"
      using keep(2) [OF s(2)] by (simp_all add: surface_runs(1) heard_def)
    with ih s(1) keep(1) [OF s(2)] show ?thesis by simp
  next
    case (calls_back m1 m' b)
    have m1: "m1 = m" using calls_back ih(4) by simp
    let ?ev = "events (br_sat r) ! br_seen r"
    have heard': "heard r' = heard r @ [?ev]" using calls_back by (simp add: heard_def take_Suc_conv_app_nth)
    have "?ev \<in> set (events (br_sat r))" using calls_back(2) by (rule nth_mem)
    then have ev: "event_ok ?ev m" using announced [OF ih(1)] ih(6) by (auto simp: event_ok_def)
    have "srv_step (br_world r) (br_world r')" using event [OF calls_back(3) ih(4) ev] calls_back m1 by simp
    moreover have "(sm_rows m', sm_cols m', sm_bitmapSize m') = dims"
      using calls_back(5) ev ih(6) unfolding m1
      by (cases ?ev) (auto simp: onKey_def onLayout_def onClear_def event_ok_def Let_def split: if_splits)
    moreover have "m' = fold (\<lambda>ev m. fst (surface_event ev m)) (heard r') m0" using calls_back(5) ih(5) by (simp add: heard' m1)
    moreover have "br_sat r' = br_sat r" "br_seen r' = Suc (br_seen r)" "sv_surface (wd_server (br_world r')) = Some m'"
      by (simp_all add: calls_back(1))
    ultimately show ?thesis using ih(1) calls_back(2) srv_next [OF ih(3)] by simp
  next
    case (server_runs w ps s)
    have s: "ok s" "prefix (events (br_sat r)) (events s)" using answered_run [OF server_runs(6) ih(1)] by blast+
    have "br_sat r' = s" "br_world r' = w" "br_seen r' = br_seen r" "heard r' = heard r"
      using keep(2) [OF s(2)] by (simp_all add: server_runs(1) heard_def)
    with ih s(1) keep(1) [OF s(2)] server_runs(3) srv_next [OF ih(3) server_runs(2)] show ?thesis by simp
  qed
qed

end

section \<open>Companion's satellite as such a surface\<close>

text \<open>
  The satellite on its own, and callers who have looked at the registration and not yet queued
  their press.  A press is answered at its second section: by then its line was left by a check,
  between which and now sessions may have come and gone and other callers pressed; a press that
  the check refuses is answered at once.
\<close>

definition companion_step :: "sat_sys \<Rightarrow> sat_sys \<Rightarrow> bool" where
  "companion_step y y' \<longleftrightarrow> sat_step y y' \<and> length (sy_pending y) \<le> length (sy_pending y')"

definition companion_press :: "int \<Rightarrow> bool \<Rightarrow> bool \<Rightarrow> sat_sys \<Rightarrow> sat_sys \<Rightarrow> bool" where
  "companion_press key pressed taken y y' \<longleftrightarrow>
     (\<exists>e. press_line key pressed (sy_sat y) = Inl e \<and> \<not> taken \<and> y' = y) \<or>
     (let line = key_press_line (sc_DeviceID (sa_cfg (sy_sat y))) key pressed in
      line \<in> set (sy_pending y) \<and> (\<exists>s err. enqueue line (sy_sat y) = Some (s, err) \<and> taken = (err = None)) \<and>
      y' = (press_op line y)\<lparr>sy_pending := remove1 line (sy_pending y)\<rparr>)"

definition companion_events :: "sat_sys \<Rightarrow> sat_event list" where
  "companion_events y = map snd (sy_events y)"

lemma press_step: "companion_press key pressed taken y y' \<Longrightarrow> y' = y \<or> sat_step y y'"
  by (auto simp: companion_press_def Let_def intro: press_sent)

text \<open>The configuration and the callbacks never change, so neither does the layout that is announced.\<close>

definition fixed :: "satellite \<Rightarrow> sat_config \<times> bool \<times> bool \<times> bool" where
  "fixed s = (sa_cfg s, sa_onKey s, sa_onLayout s, sa_onClear s)"

lemma same_fixed:
  "enqueue line s = Some (t, e) \<Longrightarrow> fixed t = fixed s" "fixed (signalRegistration err s) = fixed s"
  "handleLine_raises line s = Some (t, evs, g) \<Longrightarrow> fixed t = fixed s"
proof -
  have e: "enqueue line s = Some (t, e) \<Longrightarrow> fixed t = fixed s" for line e
    by (auto simp: fixed_def enqueue_def split: option.splits if_splits)
  moreover have g: "fixed (signalRegistration err s) = fixed s" for err
    by (auto simp: fixed_def signalRegistration_def Let_def close_conn_def split: option.splits)
  ultimately show "enqueue line s = Some (t, e) \<Longrightarrow> fixed t = fixed s" "fixed (signalRegistration err s) = fixed s"
    "handleLine_raises line s = Some (t, evs, g) \<Longrightarrow> fixed t = fixed s"
    by (auto simp: handleLine_raises_def split: if_splits prod.splits)
qed

lemma sat_step_fixed: "sat_step y y' \<Longrightarrow> fixed (sy_sat y') = fixed (sy_sat y)"
proof (induction rule: sat_step.induct)
  case (registering y n s)
  then show ?case by (auto simp: register_def Let_def same_fixed)
next
  case (register_failed y n s e)
  then have "fixed s = fixed (sy_sat y)" by (auto simp: register_def Let_def same_fixed)
  then show ?case by (simp add: fixed_def tear_def close_conn_def)
next
  case (reads_line y n line s evs g)
  then show ?case by (simp add: same_fixed)
next
  case (signals_ok y n)
  then show ?case by (simp add: same_fixed)
next
  case (press_sent line y)
  then show ?case by (auto simp: press_op_def same_fixed split: option.split)
next
  case (pings y)
  then show ?case by (auto simp: run_op_def same_fixed split: option.split)
qed (auto simp: fixed_def setSession_def tear_def close_conn_def teardown_def split: if_splits)

lemma wired_fixed: "sat_reachable (wired c) y \<Longrightarrow> fixed (sy_sat y) = (sat_defaults c, True, True, True)"
proof (induction rule: sat_reachable.induct)
  case sat_start
  show ?case by (simp add: fixed_def initial_sys_def wired_def OnKey_def OnLayout_def OnClear_def NewSatellite_def)
next
  case (sat_next y y')
  then show ?case using sat_step_fixed by simp
qed

lemma sat_step_events: "sat_step y y' \<Longrightarrow> prefix (companion_events y) (companion_events y')"
  by (induction rule: sat_step.induct)
    (auto simp: companion_events_def tear_def run_op_def press_op_def split: option.splits)

section \<open>What Companion says\<close>

text \<open>
  The specification, from the tokens of its lines alone: \<open>KEY-STATE\<close> says what a key shows, a
  cleared surface and an accepted registration start over, and everything else says nothing.
\<close>

definition key_said :: "string list \<Rightarrow> int option" where
  "key_said toks =
     (if toks \<noteq> [] \<and> hd toks = ''KEY-STATE'' then Option.bind (said ''KEY'' (tl toks)) Atoi else None)"

definition wipes :: "string list \<Rightarrow> bool" where
  "wipes toks \<longleftrightarrow> toks \<noteq> [] \<and>
     (hd toks = ''KEYS-CLEAR'' \<or>
      hd toks = ''ADD-DEVICE'' \<and> said ''OK'' (tl toks) \<noteq> None \<and> said ''ERROR'' (tl toks) = None)"

definition speaks :: "string list \<Rightarrow> bool" where
  "speaks toks \<longleftrightarrow> key_said toks \<noteq> None \<or> wipes toks"

text \<open>The line that last spoke of a key, newest first.\<close>

fun last_said :: "string list list \<Rightarrow> int \<Rightarrow> string list option" where
  "last_said [] key = None"
| "last_said (toks # older) key =
     (if key_said toks = Some key then Some toks else if wipes toks then None else last_said older key)"

definition shows_said :: "int \<Rightarrow> string list \<Rightarrow> surface_key_frame \<Rightarrow> bool" where
  "shows_said cols toks f \<longleftrightarrow>
     key_said toks = Some (skf_key f) \<and> skf_row f = skf_key f div cols \<and> skf_col f = skf_key f mod cols \<and>
     (let value = (\<lambda>name. case said name (tl toks) of None \<Rightarrow> '''' | Some v \<Rightarrow> v) in
      skf_key_type f = (if value ''TYPE'' = '''' then ''BUTTON'' else value ''TYPE'') \<and>
      (skf_pressed f \<longleftrightarrow> value ''PRESSED'' = ''1'' \<or> map ascii_lower (value ''PRESSED'') = ''true'') \<and>
      skf_color f = value ''COLOR'' \<and> skf_bitmap f = value ''BITMAP'')"

text \<open>The lines the reader dispatched that speak, in their order.\<close>

definition companion_said :: "sat_sys \<Rightarrow> string list list" where
  "companion_said y = filter speaks (map (\<lambda>(n, line). tokenizeSatellite line) (sy_heard y))"

text \<open>The event raised for such a line.\<close>

fun says :: "string list \<Rightarrow> sat_event \<Rightarrow> bool" where
  "says toks (EvKey k) \<longleftrightarrow> \<not> wipes toks \<and> key_said toks = Some (sk_Key k) \<and>
     (let value = (\<lambda>name. case said name (tl toks) of None \<Rightarrow> '''' | Some v \<Rightarrow> v) in
      sk_Type k = (if value ''TYPE'' = '''' then ''BUTTON'' else value ''TYPE'') \<and>
      (sk_Pressed k \<longleftrightarrow> value ''PRESSED'' = ''1'' \<or> map ascii_lower (value ''PRESSED'') = ''true'') \<and>
      sk_Color k = value ''COLOR'' \<and> sk_BitmapBase64 k = value ''BITMAP'')"
| "says toks (EvLayout r c b) \<longleftrightarrow> wipes toks \<and> key_said toks = None"
| "says toks EvClear \<longleftrightarrow> wipes toks \<and> key_said toks = None"

lemma line_says:
  assumes "handleLine_raises line s = Some (t, evs, g)" "fixed s = (cfg, True, True, True)"
  shows "list_all2 says (filter speaks [tokenizeSatellite line]) evs"
    "EvLayout r c b \<in> set evs \<Longrightarrow> (r, c, b) = sat_Layout s"
proof -
  have on: "sa_onKey s" "sa_onLayout s" "sa_onClear s" using assms(2) by (simp_all add: fixed_def)
  have empty: "tokenizeSatellite '''' = []" by (simp add: tokenizeSatellite_def flush_def)
  show "list_all2 says (filter speaks [tokenizeSatellite line]) evs"
  proof (cases "tokenizeSatellite line")
    case Nil
    then have "evs = []" using assms(1) by (auto simp: handleLine_raises_def parseSatelliteLine_def split: if_splits)
    with Nil show ?thesis by (simp add: speaks_def key_said_def wipes_def)
  next
    case (Cons cmd toks)
    have get: "gm_get (parse_args toks []) k = said k toks" if "CHR ''='' \<notin> set k" for k
      using parse_line_said [OF that, of line] by (simp add: parseSatelliteLine_def Cons)
    have val: "arg (parse_args toks []) k = (case said k toks of None \<Rightarrow> '''' | Some v \<Rightarrow> v)" if "CHR ''='' \<notin> set k" for k
      using get [OF that] by (simp add: arg_def split: option.split)
    have line: "line \<noteq> ''''" using Cons empty by auto
    have p: "parseSatelliteLine line = (cmd, parse_args toks [])" by (simp add: parseSatelliteLine_def Cons)
    show ?thesis
    proof (cases "cmd = ''KEY-STATE''")
      case True
      then have "evs = handleKeyState (parse_args toks []) s" using assms(1) line by (auto simp: handleLine_raises_def p)
      then show ?thesis
        using True on by (auto simp: Cons handleKeyState_def get val speaks_def key_said_def wipes_def parseWireBool_def
            split: option.splits)
    next
      case False
      then show ?thesis
        using assms(1) line on by (auto simp: Cons handleLine_raises_def p get speaks_def key_said_def wipes_def split: if_splits)
    qed
  qed
  have "EvLayout r c b \<notin> set (handleKeyState args s)" for args
    by (auto simp: handleKeyState_def split: option.splits if_splits)
  then show "EvLayout r c b \<in> set evs \<Longrightarrow> (r, c, b) = sat_Layout s"
    using assms(1) by (auto simp: handleLine_raises_def sat_Layout_def split: if_splits prod.splits)
qed

text \<open>Each line that speaks raises its event and no other does.\<close>

definition told :: "sat_config \<Rightarrow> sat_sys \<Rightarrow> bool" where
  "told c y \<longleftrightarrow> list_all2 says (companion_said y) (companion_events y) \<and>
     (\<forall>rows cols b. EvLayout rows cols b \<in> set (companion_events y) \<longrightarrow> (rows, cols, b) = sat_Layout (NewSatellite c))"

lemma told_same: "sy_heard y' = sy_heard y \<Longrightarrow> sy_events y' = sy_events y \<Longrightarrow> told c y' = told c y"
  by (simp add: told_def companion_said_def companion_events_def)

lemma sat_step_hears:
  "sat_step y y' \<Longrightarrow> sy_heard y' = sy_heard y \<and> sy_events y' = sy_events y \<or>
     (\<exists>n line s evs g. handleLine_raises line (sy_sat y) = Some (s, evs, g) \<and>
        sy_heard y' = sy_heard y @ [(n, line)] \<and> sy_events y' = sy_events y @ map (\<lambda>e. (n, e)) evs)"
  by (induction rule: sat_step.induct) (auto simp: tear_def run_op_def press_op_def split: option.splits)

lemma told_reachable: "sat_reachable (wired c) y \<Longrightarrow> told c y"
proof (induction rule: sat_reachable.induct)
  case sat_start
  show ?case by (simp add: told_def companion_said_def companion_events_def initial_sys_def)
next
  case (sat_next y y')
  note fx = wired_fixed [OF sat_next.hyps(1)]
  from sat_step_hears [OF sat_next.hyps(2)] show ?case
  proof (elim disjE exE conjE)
    assume "sy_heard y' = sy_heard y" "sy_events y' = sy_events y"
    with sat_next.IH show ?case using told_same by blast
  next
    fix n line s evs g
    assume h: "handleLine_raises line (sy_sat y) = Some (s, evs, g)" "sy_heard y' = sy_heard y @ [(n, line)]"
      "sy_events y' = sy_events y @ map (\<lambda>e. (n, e)) evs"
    note ls = line_says [OF h(1) fx]
    have lay: "sat_Layout (sy_sat y) = sat_Layout (NewSatellite c)" using fx by (simp add: sat_Layout_def NewSatellite_def fixed_def)
    have eqs: "companion_said y' = companion_said y @ filter speaks [tokenizeSatellite line]"
      "companion_events y' = companion_events y @ evs"
      by (simp_all add: companion_said_def companion_events_def h(2,3) comp_def del: filter.simps(2))
    have "list_all2 says (companion_said y') (companion_events y')"
      unfolding eqs by (rule list_all2_appendI) (use sat_next.IH ls(1) in \<open>simp_all only: told_def\<close>)
    moreover have "(rows, cols, b) = sat_Layout (NewSatellite c)" if "EvLayout rows cols b \<in> set (companion_events y')" for rows cols b
    proof (cases "EvLayout rows cols b \<in> set evs")
      case True
      then show ?thesis unfolding lay [symmetric] by (rule ls(2))
    next
      case False
      with that have "EvLayout rows cols b \<in> set (companion_events y)" by (simp add: eqs)
      with sat_next.IH show ?thesis unfolding told_def by blast
    qed
    ultimately show ?case unfolding told_def by blast
  qed
qed

interpretation companion: satellite_surface companion_step companion_press companion_events
  "sat_reachable (wired c)" "initial_sys (wired c)" "sat_Layout (NewSatellite c)" for c
proof
  show "sat_reachable (wired c) (initial_sys (wired c))" by (rule sat_start)
  show "companion_events (initial_sys (wired c)) = []" by (simp add: companion_events_def initial_sys_def)
next
  fix y y' assume "sat_reachable (wired c) y" "companion_step y y'"
  then show "sat_reachable (wired c) y' \<and> prefix (companion_events y) (companion_events y')"
    using sat_step_events [of y y'] by (auto simp: companion_step_def intro: sat_next)
next
  fix y y' key pressed taken assume "sat_reachable (wired c) y" "companion_press key pressed taken y y'"
  then show "sat_reachable (wired c) y' \<and> prefix (companion_events y) (companion_events y')"
    using press_step [of key pressed taken y y'] sat_step_events [of y y'] by (auto intro: sat_next)
next
  fix y rows cols b assume "sat_reachable (wired c) y" "EvLayout rows cols b \<in> set (companion_events y)"
  then show "(rows, cols, b) = sat_Layout (NewSatellite c)" using told_reachable [of c y] by (auto simp: told_def)
qed

section \<open>What the events render\<close>

text \<open>What the manager holds of a key: the last event for it since the last layout or clear.\<close>

fun rendered :: "(int \<Rightarrow> bool) \<Rightarrow> sat_event list \<Rightarrow> int \<Rightarrow> satellite_key option" where
  "rendered grid [] key = None"
| "rendered grid (EvKey k # evs) key = (if sk_Key k = key \<and> grid key then Some k else rendered grid evs key)"
| "rendered grid (EvLayout r c b # evs) key = None"
| "rendered grid (EvClear # evs) key = None"

definition shows_key :: "int \<Rightarrow> satellite_key \<Rightarrow> surface_key_frame \<Rightarrow> bool" where
  "shows_key cols k f \<longleftrightarrow> skf_key f = sk_Key k \<and> skf_key_type f = sk_Type k \<and> skf_pressed f = sk_Pressed k \<and>
     skf_color f = sk_Color k \<and> skf_bitmap f = sk_BitmapBase64 k \<and>
     skf_row f = sk_Key k div cols \<and> skf_col f = sk_Key k mod cols"

lemma event_renders:
  assumes "event_ok ev m" "gm_wf (sm_keys m)" "0 < sm_cols m"
    and "\<forall>key. rel_option (shows_key (sm_cols m)) (rendered (inBounds m) evs key) (gm_get (sm_keys m) key)"
  shows "let m' = fst (surface_event ev m) in
    gm_wf (sm_keys m') \<and> sm_cols m' = sm_cols m \<and> inBounds m' = inBounds m \<and>
    (\<forall>key. rel_option (shows_key (sm_cols m)) (rendered (inBounds m) (ev # evs) key) (gm_get (sm_keys m') key))"
proof (cases ev)
  case (EvKey k)
  then show ?thesis using assms(2-4)
    by (auto simp: onKey_def Let_def gm_get_put shows_key_def inBounds_def keyCount_def fun_eq_iff)
next
  case (EvLayout r c b)
  then show ?thesis using assms(1) by (auto simp: onLayout_def Let_def event_ok_def inBounds_def keyCount_def fun_eq_iff)
next
  case EvClear
  then show ?thesis by (auto simp: onClear_def Let_def inBounds_def keyCount_def fun_eq_iff)
qed

lemma events_render:
  assumes "\<forall>ev \<in> set evs. event_ok ev m0" "sm_keys m0 = []" "0 < sm_cols m0"
  shows "let m = fold (\<lambda>ev m. fst (surface_event ev m)) evs m0 in
    gm_wf (sm_keys m) \<and> sm_cols m = sm_cols m0 \<and> inBounds m = inBounds m0 \<and>
    (sm_rows m, sm_cols m, sm_bitmapSize m) = (sm_rows m0, sm_cols m0, sm_bitmapSize m0) \<and>
    (\<forall>key. rel_option (shows_key (sm_cols m0)) (rendered (inBounds m0) (rev evs) key) (gm_get (sm_keys m) key))"
  using assms(1)
proof (induction evs rule: rev_induct)
  case Nil
  then show ?case using assms(2) by simp
next
  case (snoc ev evs)
  define m where "m = fold (\<lambda>ev m. fst (surface_event ev m)) evs m0"
  have ih: "gm_wf (sm_keys m)" "sm_cols m = sm_cols m0" "inBounds m = inBounds m0"
      "(sm_rows m, sm_cols m, sm_bitmapSize m) = (sm_rows m0, sm_cols m0, sm_bitmapSize m0)"
      "\<forall>key. rel_option (shows_key (sm_cols m)) (rendered (inBounds m) (rev evs) key) (gm_get (sm_keys m) key)"
    using snoc unfolding Let_def m_def by simp_all
  have ev: "event_ok ev m" using snoc.prems ih(4) by (simp add: event_ok_def)
  have "(sm_rows m', sm_cols m', sm_bitmapSize m') = (sm_rows m, sm_cols m, sm_bitmapSize m)" if "m' = fst (surface_event ev m)" for m'
    using ev that by (cases ev) (auto simp: onKey_def onLayout_def onClear_def event_ok_def Let_def)
  with event_renders [OF ev ih(1) _ ih(5)] ih assms(3) show ?case by (simp add: Let_def flip: m_def)
qed

text \<open>An event shows what its line says.\<close>

lemma rendered_said:
  assumes "list_all2 says lines evs"
  shows "rel_option (\<lambda>toks k. says toks (EvKey k)) (if grid key then last_said lines key else None) (rendered grid evs key)"
  using assms
proof (induction rule: list_all2_induct)
  case (Cons toks lines ev evs)
  then show ?case by (cases ev) auto
qed simp

lemma shows_what_is_said: "says toks (EvKey k) \<Longrightarrow> shows_key cols k f \<Longrightarrow> shows_said cols toks f"
  by (auto simp: shows_key_def shows_said_def Let_def)

section \<open>Properties\<close>

text \<open>
  C3: From Companion to a client.  However sessions, lines, presses, clients, writes and failures
  interleave, once a client has had its replay its drained view shows, under the layout of the
  configuration, for each key in the grid exactly what the last line of Companion about that key
  says since the last registration or clear, and nothing else.  The lines counted are those
  whose callback the manager has had: the first \<open>br_seen\<close> of the lines that speak.
\<close>

theorem companion_reaches_clients:
  assumes "Config_validate parse cfg = None"
    and "bridge_reachable companion_step companion_press companion_events (initial_sys (wired c))
      (NewServer cfg v sid (Some (NewSatellite c))) r"
    and "i \<in> wd_synced (br_world r)" "\<not> cn_closing (w_conn (br_world r) i)"
  shows "let d = sat_defaults c; lines = companion_said (br_sat r);
      view = apply_broadcast (wd_inflight (br_world r)) (surface_view_of (wd_got (br_world r) i) (w_queue (br_world r) i))
    in (\<exists>f. sv_layout view = Some (SurfaceLayoutFrame f) \<and> slf_rows f = sc_Rows d \<and> slf_cols f = sc_Cols d \<and>
          slf_bitmap_size f = sc_BitmapSize d) \<and>
       br_seen r \<le> length lines \<and>
       (\<forall>key. rel_option (\<lambda>toks shown. \<exists>f. shown = (skf_seq f, SurfaceKeyFrame f) \<and> shows_said (sc_Cols d) toks f)
          (if 0 \<le> key \<and> key < keysTotal d then last_said (rev (take (br_seen r) lines)) key else None)
          (sv_keys view key))"
proof -
  define m0 where "m0 = newSurfaceManager (NewSatellite c)"
  have m0: "(sm_rows m0, sm_cols m0, sm_bitmapSize m0) = sat_Layout (NewSatellite c)" "sm_keys m0 = []"
    by (simp_all add: m0_def newSurfaceManager_def split: prod.split)
  have srv: "sv_surface (NewServer cfg v sid (Some (NewSatellite c))) = Some m0" by (simp add: NewServer_def m0_def)
  have dims: "sm_rows m0 = sc_Rows (sat_defaults c)" "sm_cols m0 = sc_Cols (sat_defaults c)"
      "sm_bitmapSize m0 = sc_BitmapSize (sat_defaults c)" using m0(1) by (simp_all add: sat_Layout_def NewSatellite_def)
  then have grid: "inBounds m0 = (\<lambda>key. 0 \<le> key \<and> key < keysTotal (sat_defaults c))" "0 < sm_cols m0"
    by (auto simp: inBounds_def keyCount_def keysTotal_def sat_defaults_def DefaultSatCols_def fun_eq_iff)
  let ?evs = "take (br_seen r) (companion_events (br_sat r))" and ?lines = "take (br_seen r) (companion_said (br_sat r))"
  obtain m where ok: "sat_reachable (wired c) (br_sat r)" "br_seen r \<le> length (companion_events (br_sat r))"
      and w: "srv_reachable (NewServer cfg v sid (Some (NewSatellite c))) (br_world r)"
      and m: "sv_surface (wd_server (br_world r)) = Some m" "m = fold (\<lambda>ev m. fst (surface_event ev m)) ?evs m0"
    using companion.bridge_runs [OF assms(2) srv m0(1)] by (auto simp: companion.heard_def)
  have told: "list_all2 says (companion_said (br_sat r)) (companion_events (br_sat r))"
      "\<And>rows cols b. EvLayout rows cols b \<in> set (companion_events (br_sat r)) \<Longrightarrow> (rows, cols, b) = sat_Layout (NewSatellite c)"
    using told_reachable [OF ok(1)] by (auto simp: told_def)
  have seen: "br_seen r \<le> length (companion_said (br_sat r))" using ok(2) told(1) by (simp add: list_all2_lengthD)
  have "\<forall>ev \<in> set ?evs. event_ok ev m0"
  proof
    fix ev assume "ev \<in> set ?evs"
    then have "ev \<in> set (companion_events (br_sat r))" by (rule in_set_takeD)
    then show "event_ok ev m0" using told(2) unfolding event_ok_def by (metis m0(1) prod.inject)
  qed
  from events_render [OF this m0(2) grid(2)] have
    keys: "\<forall>key. rel_option (shows_key (sm_cols m0)) (rendered (inBounds m0) (rev ?evs) key) (gm_get (sm_keys m) key)"
      and d: "sm_rows m = sm_rows m0" "sm_cols m = sm_cols m0" "sm_bitmapSize m = sm_bitmapSize m0"
    by (simp_all add: Let_def flip: m(2))
  have lines: "list_all2 says (rev ?lines) (rev ?evs)" using told(1) by (simp add: list_all2_rev list_all2_takeI)
  let ?view = "apply_broadcast (wd_inflight (br_world r)) (surface_view_of (wd_got (br_world r) i) (w_queue (br_world r) i))"
  have "w_surf_inv (br_world r)" using reachable_invs [OF w assms(1)] by blast
  then have view: "shows_surface m ?view" using assms(3,4) m(1) by (auto simp: surf_inv_def mgr_def)
  have "rel_option (\<lambda>toks shown. \<exists>f. shown = (skf_seq f, SurfaceKeyFrame f) \<and> shows_said (sm_cols m0) toks f)
      (if inBounds m0 key then last_said (rev ?lines) key else None) (sv_keys ?view key)" for key
  proof -
    have "sv_keys ?view key = map_option (\<lambda>f. (skf_seq f, SurfaceKeyFrame f)) (gm_get (sm_keys m) key)"
      using view by (simp add: shows_surface_def cached_keys_def)
    moreover have "rel_option (shows_key (sm_cols m0)) (rendered (inBounds m0) (rev ?evs) key) (gm_get (sm_keys m) key)" using keys by blast
    moreover note rendered_said [OF lines, of "inBounds m0" key]
    ultimately have "rel_option ((\<lambda>toks k. says toks (EvKey k)) OO shows_key (sm_cols m0))
        (if inBounds m0 key then last_said (rev ?lines) key else None) (gm_get (sm_keys m) key)"
      "sv_keys ?view key = map_option (\<lambda>f. (skf_seq f, SurfaceKeyFrame f)) (gm_get (sm_keys m) key)"
      unfolding option.rel_compp by auto
    moreover from this(1) have "rel_option (shows_said (sm_cols m0))
        (if inBounds m0 key then last_said (rev ?lines) key else None) (gm_get (sm_keys m) key)"
      by (rule option.rel_mono_strong) (auto simp del: says.simps dest: shows_what_is_said)
    ultimately show ?thesis by (auto simp: option.rel_map elim!: option.rel_mono_strong)
  qed
  with view seen show ?thesis unfolding Let_def by (auto simp: shows_surface_def layout_matches_def grid dims d)
qed

text \<open>A client joins, the satellite dials, and Companion sends a key.\<close>

lemma advance_quiet:
  assumes "\<forall>key pressed. sec \<noteq> SurfacePress key pressed" "sec \<noteq> ReleaseHeld"
  shows "sv_surface (wd_server (advance taken i sec rest w)) = sv_surface (wd_server w)"
    "sv_presses (wd_server (advance taken i sec rest w)) = sv_presses (wd_server w)"
    "wd_inflight (advance taken i sec rest w) = wd_inflight w"
  using assms
  by (cases sec; auto simp: advance_def Let_def on_server_conn_def applyState_def sendSnapshot_def split: prod.split option.split)+

lemma bridge_todo:
  assumes "bridge_reachable step does events s0 srv r" "wd_todo (br_world r) i = secs"
    and "\<forall>sec \<in> set secs. (\<forall>key pressed. sec \<noteq> SurfacePress key pressed) \<and> sec \<noteq> ReleaseHeld"
  shows "bridge_reachable step does events s0 srv (r\<lparr>br_world := run_todo i secs (br_world r)\<rparr>)"
  using assms
proof (induction secs arbitrary: r)
  case (Cons sec secs)
  let ?w = "advance (\<lambda>_. True) i sec secs (br_world r)"
  have "srv_step (br_world r) ?w" using Cons.prems(2) by (rule runs)
  then have "bridge_step step does events r (r\<lparr>br_sat := br_sat r, br_world := ?w\<rparr>)"
    using Cons.prems(3) by (intro server_runs [where ps = "[]"]) (simp_all add: advance_quiet)
  with Cons.prems(1) have "bridge_reachable step does events s0 srv (r\<lparr>br_world := ?w\<rparr>)" by (auto intro: bridge_next)
  moreover have "wd_todo ?w i = secs" by (simp add: advance_def Let_def)
  ultimately show ?case using Cons.IH [of "r\<lparr>br_world := ?w\<rparr>"] Cons.prems(3) by simp
qed simp

text \<open>The satellite goes on while nothing else happens.\<close>

lemma bridge_satellite:
  assumes "bridge_reachable step does events s0 srv \<lparr>br_sat = s, br_seen = n, br_world = w\<rparr>" "step s s'"
  shows "bridge_reachable step does events s0 srv \<lparr>br_sat = s', br_seen = n, br_world = w\<rparr>"
proof -
  have "bridge_step step does events \<lparr>br_sat = s, br_seen = n, br_world = w\<rparr> (\<lparr>br_sat = s, br_seen = n, br_world = w\<rparr>\<lparr>br_sat := s'\<rparr>)"
    using assms(2) by (intro surface_runs) simp
  from bridge_next [OF assms(1) this] show ?thesis by simp
qed

definition demo_dialed :: sat_sys where
  "demo_dialed = (let y = initial_sys (wired demo_sat) in
     y\<lparr>sy_phase := Started 0, sy_sat := setSession 0 (sy_sat y), sy_reader := Some 0, sy_writer := Some 0, sy_failed := False, sy_next := Suc 0\<rparr>)"

lemma demo_dialed_bridged:
  "bridge_reachable companion_step companion_press companion_events (initial_sys (wired demo_sat)) demo_server
     \<lparr>br_sat = demo_dialed, br_seen = 0, br_world = demo_joined\<rparr>"
proof -
  let ?R = "bridge_reachable companion_step companion_press companion_events (initial_sys (wired demo_sat)) demo_server"
  let ?y0 = "initial_sys (wired demo_sat)" and ?w = "start_world demo_server"
  let ?w1 = "?w\<lparr>wd_todo := (wd_todo ?w)(0 := run_start demo_server), wd_phase := (wd_phase ?w)(0 := Serving), wd_next := 1\<rparr>"
  let ?r0 = "\<lparr>br_sat = ?y0, br_seen = 0, br_world = ?w\<rparr>"
  have "srv_step ?w ?w1" using connects [of 0 ?w] by (simp add: start_world_def)
  then have "bridge_step companion_step companion_press companion_events ?r0 (?r0\<lparr>br_sat := ?y0, br_world := ?w1\<rparr>)"
    by (intro server_runs [where ps = "[]"]) (simp_all add: start_world_def)
  from bridge_next [OF bridge_start this] have 1: "?R \<lparr>br_sat = ?y0, br_seen = 0, br_world = ?w1\<rparr>" by simp
  have 2: "?R \<lparr>br_sat = ?y0, br_seen = 0, br_world = demo_joined\<rparr>"
    using bridge_todo [OF 1, of 0 "run_start demo_server"] by (simp add: demo_joined_def Let_def) (auto simp: run_start_def split: if_splits)
  have "sat_step ?y0 demo_dialed" unfolding demo_dialed_def Let_def by (rule sat_step.dial) (simp_all add: initial_sys_def)
  then have "companion_step ?y0 demo_dialed" by (simp add: companion_step_def initial_sys_def demo_dialed_def Let_def)
  from bridge_satellite [where step = companion_step, OF 2 this] show ?thesis .
qed

definition demo_line :: string where
  "demo_line = ''KEY-STATE KEY=3 PRESSED=1 COLOR=red BITMAP=AAAA''"

lemma demo_bridged:
  "\<exists>r. bridge_reachable companion_step companion_press companion_events (initial_sys (wired demo_sat)) demo_server r \<and>
     br_world r = demo_joined \<and> br_seen r = 0 \<and> sy_heard (br_sat r) = [(0, demo_line)] \<and>
     (\<exists>k. companion_events (br_sat r) = [EvKey k])"
proof -
  let ?R = "bridge_reachable companion_step companion_press companion_events (initial_sys (wired demo_sat)) demo_server"
  have p: "parseSatelliteLine demo_line = (''KEY-STATE'', [(''BITMAP'', ''AAAA''), (''COLOR'', ''red''), (''KEY'', ''3''), (''PRESSED'', ''1'')])"
      "Atoi ''3'' = Some 3" "demo_line \<noteq> ''''" by code_simp+
  have on: "sa_onKey (sy_sat demo_dialed)" by (simp add: demo_dialed_def initial_sys_def setSession_def wired_def OnKey_def OnLayout_def OnClear_def)
  obtain k where "handleLine_raises demo_line (sy_sat demo_dialed) = Some (sy_sat demo_dialed, [EvKey k], False)"
    using p on by (simp add: handleLine_raises_def handleKeyState_def)
  then have "sat_step demo_dialed (demo_dialed\<lparr>sy_sat := sy_sat demo_dialed, sy_signals := False,
      sy_heard := sy_heard demo_dialed @ [(0, demo_line)], sy_events := sy_events demo_dialed @ map (\<lambda>e. (0, e)) [EvKey k]\<rparr>)"
      (is "sat_step _ ?y2")
    by (intro reads_line) (simp_all add: demo_dialed_def initial_sys_def Let_def)
  then have "companion_step demo_dialed ?y2" by (simp add: companion_step_def)
  from bridge_satellite [where step = companion_step, OF demo_dialed_bridged this] have r: "?R \<lparr>br_sat = ?y2, br_seen = 0, br_world = demo_joined\<rparr>" .
  have "companion_events ?y2 = [EvKey k]" "sy_heard ?y2 = [(0, demo_line)]"
    by (simp_all add: companion_events_def demo_dialed_def initial_sys_def Let_def)
  with r show ?thesis by (intro exI [of _ "\<lparr>br_sat = ?y2, br_seen = 0, br_world = demo_joined\<rparr>"] exI [of _ k] conjI) simp_all
qed

lemma companion_reaches_clients_witness:
  "\<exists>r f. bridge_reachable companion_step companion_press companion_events (initial_sys (wired demo_sat)) demo_server r \<and>
     0 \<in> wd_synced (br_world r) \<and> sy_heard (br_sat r) = [(0, demo_line)] \<and>
     sv_keys (apply_broadcast (wd_inflight (br_world r)) (surface_view_of (wd_got (br_world r) 0) (w_queue (br_world r) 0))) 3 =
       Some (skf_seq f, SurfaceKeyFrame f) \<and>
     skf_bitmap f = ''AAAA'' \<and> skf_color f = ''red'' \<and> skf_pressed f \<and> skf_key_type f = ''BUTTON'' \<and> skf_row f = 0 \<and> skf_col f = 3"
proof -
  obtain r k where r: "bridge_reachable companion_step companion_press companion_events (initial_sys (wired demo_sat)) demo_server r"
      "br_world r = demo_joined" "br_seen r = 0" "sy_heard (br_sat r) = [(0, demo_line)]" and k: "companion_events (br_sat r) = [EvKey k]"
    using demo_bridged by blast
  have w: "sv_surface (wd_server demo_joined) = Some (mgr (wd_server demo_joined))" "wd_inflight demo_joined = None"
      "0 \<in> wd_synced demo_joined" "\<not> cn_closing (w_conn demo_joined 0)" by code_simp+
  obtain m' b where ev: "surface_event (EvKey k) (mgr (wd_server demo_joined)) = (m', b)" by force
  let ?r = "r\<lparr>br_seen := Suc (br_seen r), br_world := demo_joined\<lparr>wd_server := (wd_server demo_joined)\<lparr>sv_surface := Some m'\<rparr>, wd_inflight := b\<rparr>\<rparr>"
  have "bridge_step companion_step companion_press companion_events r ?r"
    using calls_back [of r companion_events "mgr (wd_server demo_joined)" m' b companion_step companion_press] r k w ev by simp
  from bridge_next [OF r(1) this]
  have reach: "bridge_reachable companion_step companion_press companion_events (initial_sys (wired demo_sat)) demo_server ?r" .
  have d: "keysTotal (sat_defaults demo_sat) = 32" "sc_Cols (sat_defaults demo_sat) = 8" by code_simp+
  let ?toks = "[''KEY-STATE'', ''KEY=3'', ''PRESSED=1'', ''COLOR=red'', ''BITMAP=AAAA'']"
  have toks: "tokenizeSatellite demo_line = ?toks" "speaks ?toks" "key_said ?toks = Some 3" by code_simp+
  then have said: "companion_said (br_sat ?r) = [?toks]" by (simp add: companion_said_def r(4))
  have "0 \<in> wd_synced (br_world ?r)" "\<not> cn_closing (w_conn (br_world ?r) 0)" using w by simp_all
  from companion_reaches_clients [OF demo_config_valid reach [unfolded demo_server_def] this, unfolded Let_def d said,
      THEN conjunct2, THEN conjunct2, THEN spec, of 3]
  have "rel_option (\<lambda>toks shown. \<exists>f. shown = (skf_seq f, SurfaceKeyFrame f) \<and> shows_said 8 toks f) (Some ?toks)
      (sv_keys (apply_broadcast (wd_inflight (br_world ?r)) (surface_view_of (wd_got (br_world ?r) 0) (w_queue (br_world ?r) 0))) 3)"
    using toks(3) r(3) by simp
  then obtain f where f: "sv_keys (apply_broadcast (wd_inflight (br_world ?r)) (surface_view_of (wd_got (br_world ?r) 0) (w_queue (br_world ?r) 0))) 3 =
      Some (skf_seq f, SurfaceKeyFrame f)" "shows_said 8 ?toks f" by (auto simp: option_rel_Some1)
  have "skf_key f = 3" using f(2) toks(3) by (simp add: shows_said_def)
  with f(2) have "skf_bitmap f = ''AAAA'' \<and> skf_color f = ''red'' \<and> skf_pressed f \<and> skf_key_type f = ''BUTTON'' \<and> skf_row f = 0 \<and> skf_col f = 3"
    by (simp add: shows_said_def Let_def)
  with reach \<open>0 \<in> wd_synced (br_world ?r)\<close> f(1) r(4) show ?thesis
    by (intro exI [of _ ?r] exI [of _ f]) simp
qed

end
