(* ===== verification/PressOrder.thy ===== *)
theory PressOrder
  imports SurfaceBridge
begin

text \<open>
  What becomes of the presses clients make, from the handlers of server/internal/api/client.go to
  the socket of server/internal/companion/satellite.go: those \<open>Press\<close> accepts are queued for the
  session that is open at that moment, and a session that fails takes what it has not written
  with it.  The log \<open>sy_taken\<close> holds each accepted press with the session \<open>Run\<close> was in.
\<close>

section \<open>Presses in a session\<close>

definition press_prefix :: string where
  "press_prefix = ''KEY-PRESS ''"

definition is_press :: "string \<Rightarrow> bool" where
  "is_press line \<longleftrightarrow> HasPrefix line press_prefix"

definition wire_of :: "nat \<Rightarrow> sat_sys \<Rightarrow> string list" where
  "wire_of n y = map snd (filter (\<lambda>(m, _). m = n) (sy_wire y))"

definition taken_in :: "nat \<Rightarrow> sat_sys \<Rightarrow> string list" where
  "taken_in n y = map snd (filter (\<lambda>(m, _). m = n) (sy_taken y))"

lemma is_press_simps:
  "is_press (key_press_line device key pressed)" "\<not> is_press ''PING cuebooth''" "\<not> is_press (''PONG'' @ s)"
  "\<not> is_press (add_device_line device product tot per_row b)"
  by (simp_all add: is_press_def press_prefix_def key_press_line_def add_device_line_def)

text \<open>
  What was written of a session's presses is a prefix of them, and while its writer has not
  failed the rest is still queued; sessions follow each other in the log.
\<close>

definition in_order :: "sat_sys \<Rightarrow> bool" where
  "in_order y \<longleftrightarrow> sorted (map fst (sy_taken y)) \<and> (\<forall>(m, l) \<in> set (sy_taken y). m < sy_next y) \<and>
     (\<forall>n. prefix (filter is_press (wire_of n y)) (taken_in n y)) \<and>
     (\<forall>n. sy_writer y = Some n \<longrightarrow> \<not> sy_failed y \<longrightarrow> taken_in n y = filter is_press (wire_of n y @ sa_queue (sy_sat y) n))"

text \<open>The session that is open is the last one made.\<close>

definition last_session :: "sat_sys \<Rightarrow> bool" where
  "last_session y \<longleftrightarrow> (\<forall>n. sy_phase y \<in> {Started n, Waiting n, Live n, Tearing n} \<longrightarrow> sy_next y = Suc n) \<and>
     (\<forall>(m, l) \<in> set (sy_wire y). m < sy_next y)"

lemma enqueue_queue:
  "enqueue line s = Some (t, err) \<Longrightarrow>
     (if err = None then \<exists>n. sa_out s = Some n \<and> sa_queue t = (sa_queue s)(n := sa_queue s n @ [line]) else sa_queue t = sa_queue s)"
  by (auto simp: enqueue_def split: option.splits if_splits)

text \<open>Lines that are no presses leave the presses of a queue.\<close>

lemma enqueue_no_press:
  assumes "enqueue line s = Some (t, err)" "\<not> is_press line"
  shows "filter is_press (sa_queue t n) = filter is_press (sa_queue s n)"
  using enqueue_queue [OF assms(1)] assms(2) by (auto split: if_splits)

lemma handleLine_no_press:
  assumes "handleLine_raises line s = Some (t, evs, g)"
  shows "filter is_press (sa_queue t n) = filter is_press (sa_queue s n)"
proof (cases "line \<noteq> '''' \<and> fst (parseSatelliteLine line) = ''PING''")
  case True
  then obtain err where "enqueue (''PONG'' @ TrimPrefix line ''PING'') s = Some (t, err)"
    using assms by (auto simp: handleLine_raises_def split: prod.splits)
  from enqueue_no_press [OF this is_press_simps(3)] show ?thesis .
next
  case False
  then show ?thesis using assms by (auto simp: handleLine_raises_def signal_queue split: if_splits prod.splits)
qed

lemma last_session_step: "sat_step y y' \<Longrightarrow> last_session y \<Longrightarrow> sat_inv y \<Longrightarrow> last_session y'"
proof (induction rule: sat_step.induct)
  case (writes y n l q)
  then have "n < sy_next y" by (auto simp: sat_inv_def in_session_def split: phase.splits)
  with writes show ?case by (auto simp: last_session_def)
qed (auto simp: last_session_def tear_def run_op_def press_op_def split: option.splits)

lemma wire_simps:
  "wire_of n (y\<lparr>sy_wire := sy_wire y @ [(m, l)]\<rparr>) = wire_of n y @ (if m = n then [l] else [])"
  by (simp add: wire_of_def)

text \<open>A step of the satellite keeps the order; a new session starts with no presses.\<close>

lemma in_order_step:
  assumes "sat_step y y'" "length (sy_pending y) \<le> length (sy_pending y')" "sat_inv y" "last_session y" "in_order y"
  shows "in_order y' \<and> sy_taken y' = sy_taken y"
proof -
  have keep: "in_order y' \<and> sy_taken y' = sy_taken y"
    if "sy_next y' = sy_next y" "sy_wire y' = sy_wire y" "sy_taken y' = sy_taken y"
      "\<And>n. sy_writer y' = Some n \<Longrightarrow> \<not> sy_failed y' \<Longrightarrow> sy_writer y = Some n \<and> \<not> sy_failed y"
      "\<And>n. filter is_press (sa_queue (sy_sat y') n) = filter is_press (sa_queue (sy_sat y) n) \<or> sy_failed y'" for y'
    using assms(5) that unfolding in_order_def wire_of_def taken_in_def by (simp, metis filter_append)
  from assms(1) show ?thesis
  proof cases
    case (dial n)
    have "wire_of n y = []" "sa_queue (sy_sat y) n = []"
      using assms(3,4) dial(3) by (auto simp: wire_of_def last_session_def sat_inv_def filter_empty_conv)
    moreover have "taken_in n y = []"
      using assms(5) dial(3) by (auto simp: in_order_def taken_in_def filter_empty_conv)
    ultimately show ?thesis
      using assms(5) unfolding in_order_def dial(1)
      by (auto simp: dial(3) wire_of_def taken_in_def setSession_def)
  next
    case (registering n s)
    then have "filter is_press (sa_queue s n) = filter is_press (sa_queue (sy_sat y) n)" for n
      by (auto simp: register_def Let_def dest: enqueue_no_press [OF _ is_press_simps(4)])
    then show ?thesis using keep [of y'] registering by auto
  next
    case (register_failed n s e)
    then have "filter is_press (sa_queue s n) = filter is_press (sa_queue (sy_sat y) n)" for n
      by (auto simp: register_def Let_def dest: enqueue_no_press [OF _ is_press_simps(4)])
    then show ?thesis using keep [of y'] register_failed by (auto simp: tear_def close_conn_def)
  next
    case (clearing n s)
    then show ?thesis using keep [of y'] by (auto simp: teardown_def split: if_splits)
  next
    case (reads_line n line s evs g)
    from handleLine_no_press [OF this(4)] show ?thesis using keep [of y'] reads_line(1) by auto
  next
    case (signals_ok n)
    then show ?thesis using keep [of y'] by (auto simp: signal_queue)
  next
    case (writes n l q)
    then show ?thesis
      using assms(5) unfolding in_order_def
      by (auto simp: wire_of_def taken_in_def prefix_def split: if_splits)
  next
    case (press_sent line)
    then have "sy_pending y \<noteq> []" by auto
    then have "length (sy_pending y') < length (sy_pending y)" using press_sent by (simp add: length_remove1)
    with assms(2) show ?thesis by simp
  next
    case pings
    show ?thesis
    proof (cases "enqueue ''PING cuebooth'' (sy_sat y)")
      case None
      then show ?thesis using keep [of y'] pings by (auto simp: run_op_def)
    next
      case (Some p)
      obtain t err where "p = (t, err)" by (cases p)
      with Some enqueue_no_press [of "''PING cuebooth''" "sy_sat y" t err] is_press_simps(2)
      show ?thesis using keep [of y'] pings by (auto simp: run_op_def)
    qed
  qed (use keep [of y'] in \<open>auto simp: tear_def close_conn_def\<close>)
qed

text \<open>A press that is accepted lengthens the log of the open session, the last one.\<close>

lemma in_order_press:
  assumes "sat_inv y" "last_session y" "in_order y" "is_press line" "enqueue line (sy_sat y) = Some (t, err)"
    and "y' = (press_op line y)\<lparr>sy_pending := p\<rparr>"
  shows "in_order y' \<and> map snd (sy_taken y') = map snd (sy_taken y) @ (if err = None then [line] else [])"
proof (cases "err = None")
  case False
  then have "y' = y\<lparr>sy_sat := t, sy_pending := p\<rparr>" using assms(5,6) by (auto simp: press_op_def)
  with False enqueue_queue [OF assms(5)] assms(3) show ?thesis by (auto simp: in_order_def wire_of_def taken_in_def)
next
  case True
  with enqueue_queue [OF assms(5)] obtain n where n: "sa_out (sy_sat y) = Some n"
      "sa_queue t = (sa_queue (sy_sat y))(n := sa_queue (sy_sat y) n @ [line])" by auto
  from inv_open [OF assms(1) n(1)] have w: "sy_writer y = Some n" and ph: "sy_phase y \<in> {Started n, Waiting n, Live n, Tearing n}"
    by (auto simp: in_session_def)
  then have last: "sy_next y = Suc n" using assms(2) unfolding last_session_def by blast
  have y': "y' = y\<lparr>sy_sat := t, sy_taken := sy_taken y @ [(n, line)], sy_pending := p\<rparr>"
    using True ph assms(5,6) by (auto simp: press_op_def)
  have "\<forall>(m, l) \<in> set (sy_taken y). m \<le> n" using assms(3) by (auto simp: in_order_def last)
  then have "sorted (map fst (sy_taken y'))" using assms(3) by (auto simp: y' in_order_def sorted_append)
  moreover have "\<forall>(m, l) \<in> set (sy_taken y'). m < sy_next y'" using assms(3) by (auto simp: y' in_order_def last)
  moreover have "taken_in m y' = taken_in m y @ (if m = n then [line] else [])" "wire_of m y' = wire_of m y" for m
    by (simp_all add: y' taken_in_def wire_of_def)
  moreover have "taken_in n y = filter is_press (wire_of n y @ sa_queue (sy_sat y) n)" if "\<not> sy_failed y"
    using assms(3) that w by (simp add: in_order_def)
  moreover have "prefix (filter is_press (wire_of m y)) (taken_in m y)" for m using assms(3) by (simp add: in_order_def)
  ultimately have "in_order y'" using w n(2) assms(4) unfolding in_order_def by (auto simp: y')
  with True show ?thesis by (simp add: y')
qed

section \<open>Presses of clients\<close>

text \<open>The lines of the presses that were accepted.\<close>

definition accepted_lines :: "string \<Rightarrow> (nat \<times> int \<times> bool \<times> bool) list \<Rightarrow> string list" where
  "accepted_lines device ps =
     map (\<lambda>(i, key, pressed, taken). key_press_line device key pressed) (filter (\<lambda>(i, key, pressed, taken). taken) ps)"

lemma accepted_lines_simps [simp]:
  "accepted_lines device [] = []" "accepted_lines device (ps @ qs) = accepted_lines device ps @ accepted_lines device qs"
  "accepted_lines device ((i, key, pressed, taken) # ps) =
     (if taken then [key_press_line device key pressed] else []) @ accepted_lines device ps"
  by (simp_all add: accepted_lines_def)

definition relayed :: "sat_config \<Rightarrow> string list \<Rightarrow> sat_sys \<Rightarrow> bool" where
  "relayed c sent y \<longleftrightarrow> sat_reachable (wired c) y \<and> last_session y \<and> in_order y \<and> map snd (sy_taken y) = sent"

lemma relayed_inv: "relayed c sent y \<Longrightarrow> sat_inv y"
  using wired_reachable by (auto simp: relayed_def)

lemma relayed_step:
  assumes "relayed c sent y" "companion_step y y'"
  shows "relayed c sent y'"
proof -
  have s: "sat_step y y'" "length (sy_pending y) \<le> length (sy_pending y')" using assms(2) by (auto simp: companion_step_def)
  have y: "in_order y" "last_session y" "sat_reachable (wired c) y" "map snd (sy_taken y) = sent" using assms(1) by (auto simp: relayed_def)
  from in_order_step [OF s relayed_inv [OF assms(1)] y(2,1)] last_session_step [OF s(1) y(2) relayed_inv [OF assms(1)]] y(4)
    sat_next [OF y(3) s(1)]
  show ?thesis by (simp add: relayed_def)
qed

lemma relayed_press:
  assumes "relayed c sent y" "companion_press key pressed taken y y'"
  shows "relayed c (sent @ (if taken then [key_press_line (sc_DeviceID (sat_defaults c)) key pressed] else [])) y'"
proof -
  have y: "sat_reachable (wired c) y" "last_session y" "in_order y" "map snd (sy_taken y) = sent" using assms(1) by (auto simp: relayed_def)
  have dev: "sa_cfg (sy_sat y) = sat_defaults c" using wired_fixed [OF y(1)] by (simp add: fixed_def)
  let ?line = "key_press_line (sc_DeviceID (sat_defaults c)) key pressed"
  from assms(2) consider "\<not> taken" "y' = y" | t err where "?line \<in> set (sy_pending y)" "enqueue ?line (sy_sat y) = Some (t, err)"
      "taken = (err = None)" "y' = (press_op ?line y)\<lparr>sy_pending := remove1 ?line (sy_pending y)\<rparr>"
    by (auto simp: companion_press_def Let_def dev)
  then show ?thesis
  proof cases
    case 1
    with assms(1) show ?thesis by simp
  next
    case 2
    have st: "sat_step y y'" unfolding 2(4) by (rule press_sent [OF 2(1)])
    from in_order_press [OF relayed_inv [OF assms(1)] y(2,3) is_press_simps(1) 2(2) 2(4)] y(4) sat_next [OF y(1) st]
      last_session_step [OF st y(2) relayed_inv [OF assms(1)]] 2(3)
    show ?thesis by (simp add: relayed_def)
  qed
qed

lemma relayed_answered:
  assumes "answered companion_press ps y y'" "relayed c sent y"
  shows "relayed c (sent @ accepted_lines (sc_DeviceID (sat_defaults c)) ps) y'"
  using assms
proof (induction ps arbitrary: y sent)
  case (Cons p ps)
  obtain i key pressed taken where p: "p = (i, key, pressed, taken)" by (cases p)
  from Cons.prems(1) obtain y1 where "companion_press key pressed taken y y1" "answered companion_press ps y1 y'" by (auto simp: p)
  with Cons.IH [OF _ relayed_press [OF Cons.prems(2)]] show ?case by (simp add: p)
qed simp

lemma relayed_reachable:
  assumes "bridge_reachable companion_step companion_press companion_events (initial_sys (wired c)) srv r" "sv_presses srv = []"
  shows "relayed c (accepted_lines (sc_DeviceID (sat_defaults c)) (sv_presses (wd_server (br_world r)))) (br_sat r)"
  using assms(1)
proof (induction rule: bridge_reachable.induct)
  case bridge_start
  have "in_order (initial_sys (wired c))" "last_session (initial_sys (wired c))" "sy_taken (initial_sys (wired c)) = []"
    by (simp_all add: in_order_def last_session_def initial_sys_def wire_of_def taken_in_def)
  then show ?case using assms(2) by (auto simp: relayed_def start_world_def intro: sat_start)
next
  case (bridge_next r r')
  from bridge_next(2) show ?case
  proof cases
    case (surface_runs y)
    with relayed_step [OF bridge_next.IH] show ?thesis by simp
  next
    case (calls_back m m' b)
    with bridge_next.IH show ?thesis by simp
  next
    case (server_runs w ps y)
    with relayed_answered [OF server_runs(6) bridge_next.IH] show ?thesis by simp
  qed
qed

section \<open>Properties\<close>

text \<open>
  C13: The presses reach Companion in the order they were accepted.  However clients, sessions
  and failures interleave, the log of the accepted presses holds each with the session in which
  it was accepted, sessions follow each other in it, and what a session wrote of presses is a
  prefix of those accepted in that very session: none is written twice, out of order, in another
  session or without having been accepted.  As long as no write of the session has failed, those
  not written are still in its queue.
\<close>

theorem presses_in_order:
  assumes "bridge_reachable companion_step companion_press companion_events (initial_sys (wired c)) (NewServer cfg v sid sat) r"
  shows "let y = br_sat r in
    map snd (sy_taken y) = accepted_lines (sc_DeviceID (sat_defaults c)) (sv_presses (wd_server (br_world r))) \<and>
    sorted (map fst (sy_taken y)) \<and>
    (\<forall>n. prefix (filter is_press (wire_of n y)) (taken_in n y)) \<and>
    (\<forall>n. sy_writer y = Some n \<longrightarrow> \<not> sy_failed y \<longrightarrow> taken_in n y = filter is_press (wire_of n y @ sa_queue (sy_sat y) n))"
proof -
  have "sv_presses (NewServer cfg v sid sat) = []" by (simp add: NewServer_def)
  from relayed_reachable [OF assms this] show ?thesis by (simp add: relayed_def in_order_def Let_def)
qed

text \<open>Companion accepts the registration and a client presses a key.\<close>

lemma demo_registered:
  "\<exists>y. bridge_reachable companion_step companion_press companion_events (initial_sys (wired demo_sat)) demo_server
       \<lparr>br_sat = y, br_seen = 0, br_world = demo_joined\<rparr> \<and> sa_cfg (sy_sat y) = sat_defaults demo_sat \<and>
     sy_taken y = [] \<and> current (sy_phase y) = Some 0 \<and> key_press_line ''cuebooth'' 3 True \<in> set (sy_pending y) \<and>
     (\<exists>s. enqueue (key_press_line ''cuebooth'' 3 True) (sy_sat y) = Some (s, None))"
proof -
  let ?R = "\<lambda>y. bridge_reachable companion_step companion_press companion_events (initial_sys (wired demo_sat)) demo_server
       \<lparr>br_sat = y, br_seen = 0, br_world = demo_joined\<rparr>"
  have run: "?R y'" if "?R y" "sat_step y y'" "sy_pending y = [] \<or> sy_pending y' = sy_pending y" for y y'
    using that bridge_satellite [where step = companion_step, OF that(1)] by (auto simp: companion_step_def)
  have p: "parseSatelliteLine ''ADD-DEVICE OK'' = (''ADD-DEVICE'', [(''OK'', '''')])" by code_simp
  note defs = demo_dialed_def initial_sys_def setSession_def wired_def OnKey_def OnLayout_def OnClear_def NewSatellite_def
  obtain evs where h: "handleLine_raises ''ADD-DEVICE OK'' (sy_sat demo_dialed) = Some (sy_sat demo_dialed, evs, True)"
    using p by (simp add: handleLine_raises_def)
  let ?y1 = "demo_dialed\<lparr>sy_sat := sy_sat demo_dialed, sy_signals := True, sy_heard := sy_heard demo_dialed @ [(0, ''ADD-DEVICE OK'')],
      sy_events := sy_events demo_dialed @ map (\<lambda>e. (0, e)) evs\<rparr>"
  have "sat_step demo_dialed ?y1" using h by (intro reads_line) (simp_all add: demo_dialed_def initial_sys_def Let_def)
  then have 1: "?R ?y1" by (rule run [OF demo_dialed_bridged]) simp
  let ?y2 = "?y1\<lparr>sy_sat := signalRegistration None (sy_sat ?y1), sy_signals := False\<rparr>"
  have "sat_step ?y1 ?y2" by (rule signals_ok [of _ 0]) (simp_all add: demo_dialed_def Let_def)
  then have 2: "?R ?y2" by (rule run [OF 1]) simp
  let ?line = "key_press_line ''cuebooth'' 3 True"
  have d: "sc_DeviceID (sat_defaults demo_sat) = ''cuebooth''" by code_simp
  have line: "press_line 3 True (sy_sat ?y2) = Inr ?line"
    using d by (simp add: press_line_def signal_registered signalRegistration_def Let_def defs)
  have "sat_step ?y2 (?y2\<lparr>sy_pending := ?line # sy_pending ?y2\<rparr>)" by (rule press_checked [OF line])
  then have "?R (?y2\<lparr>sy_pending := ?line # sy_pending ?y2\<rparr>)" by (rule run [OF 2]) (simp add: defs Let_def)
  then show ?thesis
    by (intro exI [of _ "?y2\<lparr>sy_pending := ?line # sy_pending ?y2\<rparr>"])
      (simp add: signalRegistration_def Let_def defs enqueue_def outBuffer_def)
qed

lemma one_press:
  assumes "case x of ([], [SurfacePress k p]) \<Rightarrow> k = key \<and> p | _ \<Rightarrow> False"
  shows "x = ([], [SurfacePress key True])"
proof -
  obtain ps secs where x: "x = (ps, secs)" by (cases x)
  show ?thesis
  proof (cases secs)
    case (Cons sec secs')
    then show ?thesis using assms by (cases sec; cases secs'; cases ps) (simp_all add: x)
  qed (use assms in \<open>simp add: x split: list.splits\<close>)
qed

lemma presses_in_order_witness:
  "\<exists>r. bridge_reachable companion_step companion_press companion_events (initial_sys (wired demo_sat)) demo_server r \<and>
     accepted_lines ''cuebooth'' (sv_presses (wd_server (br_world r))) = [key_press_line ''cuebooth'' 3 True] \<and>
     sy_taken (br_sat r) = [(0, key_press_line ''cuebooth'' 3 True)] \<and>
     prefix (filter is_press (wire_of 0 (br_sat r))) [key_press_line ''cuebooth'' 3 True] \<and>
     filter is_press (wire_of 1 (br_sat r)) = []"
proof -
  let ?R = "bridge_reachable companion_step companion_press companion_events (initial_sys (wired demo_sat)) demo_server"
  let ?line = "key_press_line ''cuebooth'' 3 True"
  obtain y s where y: "?R \<lparr>br_sat = y, br_seen = 0, br_world = demo_joined\<rparr>" "sa_cfg (sy_sat y) = sat_defaults demo_sat"
      "sy_taken y = []" "current (sy_phase y) = Some 0" "?line \<in> set (sy_pending y)" "enqueue ?line (sy_sat y) = Some (s, None)"
    using demo_registered by blast
  let ?data = "Some (RObj [(''type'', RStr ''surface-press''), (''key'', RNum ''3''), (''pressed'', RBool True)])"
  let ?w1 = "demo_joined\<lparr>wd_todo := (wd_todo demo_joined)(0 := [SurfacePress 3 True])\<rparr>"
  have "case handle (sv_cfg (wd_server demo_joined)) (sv_surface (wd_server demo_joined) \<noteq> None) (\<lambda>_. True) ?data of
      ([], [SurfacePress k p]) \<Rightarrow> k = 3 \<and> p | _ \<Rightarrow> False"
      "case wd_todo demo_joined 0 of [] \<Rightarrow> True | _ \<Rightarrow> False" by code_simp+
  then have h: "handle (sv_cfg (wd_server demo_joined)) (sv_surface (wd_server demo_joined) \<noteq> None) (\<lambda>_. True) ?data = ([], [SurfacePress 3 True])"
      "wd_todo demo_joined 0 = []" using one_press by (blast, simp split: list.splits)
  have j: "wd_phase demo_joined 0 = Serving" "\<not> cn_closing (w_conn demo_joined 0)" "sv_presses (wd_server demo_joined) = []" by code_simp+
  have "bridge_step companion_step companion_press companion_events \<lparr>br_sat = y, br_seen = 0, br_world = demo_joined\<rparr>
      (\<lparr>br_sat = y, br_seen = 0, br_world = demo_joined\<rparr>\<lparr>br_sat := y, br_world := ?w1\<rparr>)"
    using receives [OF j(1) h(2) j(2) h(1)] by (intro server_runs [where ps = "[]"]) simp_all
  from bridge_next [OF y(1) this] have r1: "?R \<lparr>br_sat = y, br_seen = 0, br_world = ?w1\<rparr>" by simp
  let ?w2 = "advance (\<lambda>_. True) 0 (SurfacePress 3 True) [] ?w1"
  have w2: "sv_presses (wd_server ?w2) = [(0, 3, True, True)]" by code_simp
  have same: "sv_surface (wd_server ?w2) = sv_surface (wd_server ?w1)" "wd_inflight ?w2 = wd_inflight ?w1" by code_simp+
  have d: "sc_DeviceID (sat_defaults demo_sat) = ''cuebooth''" by code_simp
  let ?y' = "(press_op ?line y)\<lparr>sy_pending := remove1 ?line (sy_pending y)\<rparr>"
  have "companion_press 3 True True y ?y'"
    using y(2,5,6) d by (auto simp: companion_press_def Let_def)
  then have "bridge_step companion_step companion_press companion_events \<lparr>br_sat = y, br_seen = 0, br_world = ?w1\<rparr>
      (\<lparr>br_sat = y, br_seen = 0, br_world = ?w1\<rparr>\<lparr>br_sat := ?y', br_world := ?w2\<rparr>)"
    using runs [of ?w1 0 "SurfacePress 3 True" "[]" "\<lambda>_. True"] w2 same j(3)
    by (intro server_runs [where ps = "[(0, 3, True, True)]"]) simp_all
  from bridge_next [OF r1 this] have r2: "?R \<lparr>br_sat = ?y', br_seen = 0, br_world = ?w2\<rparr>" by simp
  have taken: "sy_taken ?y' = [(0, ?line)]" using y(3,4,6) by (simp add: press_op_def)
  have "\<forall>n. prefix (filter is_press (wire_of n ?y')) (taken_in n ?y')"
    using presses_in_order [OF r2 [unfolded demo_server_def]] unfolding Let_def bridged.simps by blast
  from spec [OF this, of 0] spec [OF this, of 1] have
    "prefix (filter is_press (wire_of 0 ?y')) [?line]" "filter is_press (wire_of 1 ?y') = []"
    by (simp_all add: taken_in_def taken)
  moreover have "accepted_lines ''cuebooth'' (sv_presses (wd_server ?w2)) = [?line]" by (simp add: w2)
  ultimately show ?thesis using r2 taken
    by (intro exI [of _ "\<lparr>br_sat = ?y', br_seen = 0, br_world = ?w2\<rparr>"]) simp
qed

end
