(* ===== verification/Http.thy ===== *)
theory Http
  imports GoStrings
begin

text \<open>
  What the handlers use of \<open>net/http\<close>: requests and responses, and the responses of
  \<open>http.Error\<close>, \<open>http.NotFound\<close> and \<open>http.Redirect\<close>; and \<open>withCommonHeaders\<close> of
  server/internal/api/server.go.  Header names are canonical, with one value each.  A handler
  takes the headers already set on its response.
\<close>

type_synonym headers = "(string, string) gomap"

text \<open>\<open>hq_Path\<close> is the decoded path of the URL, \<open>hq_Query\<close> the first value of each parameter.\<close>

record http_request =
  hq_Method :: string
  hq_Host :: string
  hq_Path :: string
  hq_Query :: "(string, string) gomap"
  hq_Header :: headers

text \<open>
  A body as the handlers give it: text, the object a JSON encoder was given, the title and the
  message of the callback page, the page that says no client is bundled, or a bundled file.
\<close>

datatype content =
    NoContent
  | Plain string
  | JsonOf "(string, string) gomap"
  | CallbackPage string string
  | MissingPage
  | FileBytes string

record response =
  rp_Status :: int
  rp_Header :: headers
  rp_Content :: content

definition Header_Get :: "headers \<Rightarrow> string \<Rightarrow> string" where
  "Header_Get h k = (case gm_get h k of Some v \<Rightarrow> v | None \<Rightarrow> '''')"

lemma Header_Get_put [simp]:
  "gm_wf h \<Longrightarrow> Header_Get (gm_put k v h) k' = (if k' = k then v else Header_Get h k')"
  by (simp add: Header_Get_def gomap_simps)

definition http_Error :: "headers \<Rightarrow> string \<Rightarrow> int \<Rightarrow> response" where
  "http_Error h msg code =
     \<lparr>rp_Status = code,
      rp_Header = gm_put ''X-Content-Type-Options'' ''nosniff''
        (gm_put ''Content-Type'' ''text/plain; charset=utf-8'' (gm_del ''Content-Length'' h)),
      rp_Content = Plain (msg @ [CHR 0x0A])\<rparr>"

definition http_NotFound :: "headers \<Rightarrow> response" where
  "http_NotFound h = http_Error h ''404 page not found'' 404"

definition lower_hex :: "nat \<Rightarrow> char" where
  "lower_hex d = (if d < 10 then char_of (48 + d) else char_of (87 + d))"

definition hexEscapeNonASCII :: "string \<Rightarrow> string" where
  "hexEscapeNonASCII s =
     concat (map (\<lambda>c. if byte c < 128 then [c] else [CHR ''%'', lower_hex (byte c div 16), lower_hex (byte c mod 16)]) s)"

lemma hexEscapeNonASCII_ascii: "\<forall>c \<in> set s. byte c < 128 \<Longrightarrow> hexEscapeNonASCII s = s"
  by (induction s) (auto simp: hexEscapeNonASCII_def)

text \<open>To an absolute URL; the link the body shows repeats the location.\<close>

definition http_Redirect :: "headers \<Rightarrow> string \<Rightarrow> int \<Rightarrow> response" where
  "http_Redirect h url code =
     (let h1 = gm_put ''Location'' (hexEscapeNonASCII url) h in
      \<lparr>rp_Status = code,
       rp_Header = (if gm_get h ''Content-Type'' = None then gm_put ''Content-Type'' ''text/html; charset=utf-8'' h1 else h1),
       rp_Content = NoContent\<rparr>)"

definition no_framing :: string where
  "no_framing = ''frame-ancestors '' @ CHR 0x27 # ''none'' @ [CHR 0x27]"

definition withCommonHeaders :: "(headers \<Rightarrow> 'a) \<Rightarrow> headers \<Rightarrow> 'a" where
  "withCommonHeaders handler h =
     handler (gm_put ''X-Content-Type-Options'' ''nosniff''
       (gm_put ''X-Frame-Options'' ''DENY''
         (gm_put ''Content-Security-Policy'' no_framing h)))"

end
