(* ===== verification/TokenStore.thy ===== *)
theory TokenStore
  imports Protocol GoBase
begin

text \<open>
  server/internal/chat/tokenstore.go: the credential pair a chat provider keeps across restarts,
  and the file it is kept in.  The file system is modelled as far as the code relies on it,
  power cuts included: what a program sees, what of it is durable, and what may come back.
  The text form of an instant (\<open>time.Time\<close> in \<open>encoding/json\<close>) is a parameter.
\<close>

section \<open>Tokens\<close>

record tokens =
  tk_AccessToken :: string
  tk_RefreshToken :: string
  tk_AccessExpiry :: time
  tk_RefreshExpiry :: time
  tk_Scope :: string

definition zero_tokens :: tokens where
  "zero_tokens = \<lparr>tk_AccessToken = '''', tk_RefreshToken = '''', tk_AccessExpiry = zero_time,
     tk_RefreshExpiry = zero_time, tk_Scope = ''''\<rparr>"

definition tokens_valid :: "tokens \<Rightarrow> time \<Rightarrow> bool" where
  "tokens_valid t now \<longleftrightarrow>
     tk_RefreshToken t \<noteq> '''' \<and> (time_IsZero (tk_RefreshExpiry t) \<or> now < tk_RefreshExpiry t)"

text \<open>How an instant is written, which fails for some, and read back.\<close>

record time_codec =
  tc_write :: "time \<Rightarrow> string option"
  tc_read :: "string \<Rightarrow> time option"

definition encode_tokens :: "time_codec \<Rightarrow> tokens \<Rightarrow> rjson option" where
  "encode_tokens tc t =
     (case (tc_write tc (tk_AccessExpiry t), tc_write tc (tk_RefreshExpiry t)) of
        (Some a, Some r) \<Rightarrow>
          Some (RObj ([(''access_token'', RStr (tk_AccessToken t)), (''refresh_token'', RStr (tk_RefreshToken t)),
             (''access_expiry'', RStr a), (''refresh_expiry'', RStr r)] @
             (if tk_Scope t = '''' then [] else [(''scope'', RStr (tk_Scope t))])))
      | _ \<Rightarrow> None)"

definition into_time :: "time_codec \<Rightarrow> rjson \<Rightarrow> time \<Rightarrow> time \<times> bool" where
  "into_time tc v x =
     (case v of
        RStr s \<Rightarrow> (case tc_read tc s of Some t \<Rightarrow> (t, False) | None \<Rightarrow> (x, True))
      | RNull \<Rightarrow> (x, False)
      | _ \<Rightarrow> (x, True))"

definition decode_tokens :: "time_codec \<Rightarrow> rjson option \<Rightarrow> tokens option" where
  "decode_tokens tc = unmarshal
     (\<lambda>k v t.
        if names_field k ''access_token'' then (let (x, e) = into_string v (tk_AccessToken t) in (t\<lparr>tk_AccessToken := x\<rparr>, e))
        else if names_field k ''refresh_token'' then (let (x, e) = into_string v (tk_RefreshToken t) in (t\<lparr>tk_RefreshToken := x\<rparr>, e))
        else if names_field k ''access_expiry'' then (let (x, e) = into_time tc v (tk_AccessExpiry t) in (t\<lparr>tk_AccessExpiry := x\<rparr>, e))
        else if names_field k ''refresh_expiry'' then (let (x, e) = into_time tc v (tk_RefreshExpiry t) in (t\<lparr>tk_RefreshExpiry := x\<rparr>, e))
        else if names_field k ''scope'' then (let (x, e) = into_string v (tk_Scope t) in (t\<lparr>tk_Scope := x\<rparr>, e))
        else (t, False))
     zero_tokens"

definition codec_ok :: "time_codec \<Rightarrow> bool" where
  "codec_ok tc \<longleftrightarrow> (\<forall>t s. tc_write tc t = Some s \<longrightarrow> tc_read tc s = Some t)"

lemma tokens_names:
  "fold_name ''access_token'' = ''access_token''" "fold_name ''refresh_token'' = ''refresh_token''"
  "fold_name ''access_expiry'' = ''access_expiry''" "fold_name ''refresh_expiry'' = ''refresh_expiry''"
  "fold_name ''scope'' = ''scope''"
  by code_simp+

lemma decode_encode:
  assumes "codec_ok tc" "encode_tokens tc t = Some doc"
  shows "decode_tokens tc (Some doc) = Some t"
  using assms
  by (auto simp: encode_tokens_def decode_tokens_def unmarshal_def tokens_names into_string_def into_time_def
      codec_ok_def zero_tokens_def Let_def simp del: fold_name.simps split: option.splits if_splits)

section \<open>The file system\<close>

text \<open>
  Files are addressed by inode.  \<open>fs_names\<close> is the directory as programs see it, and
  \<open>fs_since\<close> the directories there were since the directory was last made durable: after a
  power cut each name is as in any one of them.  \<open>fs_durable\<close> marks the inodes whose contents
  and mode survive a power cut; others come back with anything in them.  Contents are the value
  their text parses to, \<open>None\<close> when it does not.  What is there after a power cut is on the disk.
\<close>

record fs =
  fs_names :: "string \<Rightarrow> nat option"
  fs_since :: "(string \<Rightarrow> nat option) list"
  fs_data :: "nat \<Rightarrow> rjson option"
  fs_durable :: "nat \<Rightarrow> bool"
  fs_mode :: "nat \<Rightarrow> nat"
  fs_fresh :: nat

definition fs_link :: "(string \<Rightarrow> nat option) \<Rightarrow> fs \<Rightarrow> fs" where
  "fs_link d f = f\<lparr>fs_names := d, fs_since := fs_since f @ [d]\<rparr>"

definition power_cut :: "fs \<Rightarrow> fs \<Rightarrow> bool" where
  "power_cut f f' \<longleftrightarrow>
     (\<forall>n. fs_names f' n \<in> (\<lambda>d. d n) ` set (fs_since f)) \<and>
     (\<forall>i. fs_durable f i \<longrightarrow> fs_data f' i = fs_data f i \<and> fs_mode f' i = fs_mode f i) \<and>
     fs_since f' = [fs_names f'] \<and> fs_durable f' = (\<lambda>_. True) \<and> fs_fresh f' = fs_fresh f"

text \<open>The calls \<open>save\<close> makes, in its order, each of which may fail.\<close>

datatype syscall = MkdirAll | ChmodDir | CreateTemp | ChmodTemp | WriteTemp | SyncTemp | CloseTemp | Rename | SyncDir | RemoveTemp

definition tmp_name :: "string \<Rightarrow> string \<Rightarrow> string" where
  "tmp_name path r = path @ ''.tmp'' @ r"

text \<open>Mode 0600.\<close>

definition owner_only :: nat where
  "owner_only = 6 * 8 * 8"

text \<open>What a call that succeeds does; \<open>tmp\<close> is open on inode \<open>i\<close>.\<close>

definition syscall :: "string \<Rightarrow> string \<Rightarrow> nat \<Rightarrow> rjson \<Rightarrow> syscall \<Rightarrow> fs \<Rightarrow> fs" where
  "syscall path tmp i doc c f =
     (case c of
        CreateTemp \<Rightarrow> (fs_link ((fs_names f)(tmp \<mapsto> i)) f)\<lparr>fs_data := (fs_data f)(i := None),
             fs_durable := (fs_durable f)(i := False), fs_mode := (fs_mode f)(i := owner_only), fs_fresh := Suc i\<rparr>
      | ChmodTemp \<Rightarrow> f\<lparr>fs_mode := (fs_mode f)(i := owner_only)\<rparr>
      | WriteTemp \<Rightarrow> f\<lparr>fs_data := (fs_data f)(i := Some doc), fs_durable := (fs_durable f)(i := False)\<rparr>
      | SyncTemp \<Rightarrow> f\<lparr>fs_durable := (fs_durable f)(i := True)\<rparr>
      | Rename \<Rightarrow> fs_link ((fs_names f)(path := fs_names f tmp, tmp := None)) f
      | SyncDir \<Rightarrow> f\<lparr>fs_since := [fs_names f]\<rparr>
      | RemoveTemp \<Rightarrow> fs_link ((fs_names f)(tmp := None)) f
      | _ \<Rightarrow> f)"

text \<open>A write that fails may have written part of the text.\<close>

definition syscall_failed :: "nat \<Rightarrow> rjson option \<Rightarrow> syscall \<Rightarrow> fs \<Rightarrow> fs" where
  "syscall_failed i part c f =
     (if c = WriteTemp then f\<lparr>fs_data := (fs_data f)(i := part), fs_durable := (fs_durable f)(i := False)\<rparr> else f)"

datatype store_error = EncodeFailed | CallFailed syscall | ReadFailed | ParseFailed

text \<open>
  The calls from the first that is left, up to one whose failure ends \<open>save\<close>; the result lists
  every state the file system is in after a call.
\<close>

record save_env =
  sv_random :: string
  sv_fails :: "syscall \<Rightarrow> bool"
  sv_part :: "rjson option"

fun save_calls :: "save_env \<Rightarrow> string \<Rightarrow> nat \<Rightarrow> rjson \<Rightarrow> syscall list \<Rightarrow> fs \<Rightarrow> fs list \<times> store_error option" where
  "save_calls e path i doc [] f = ([], None)"
| "save_calls e path i doc (c # cs) f =
     (if sv_fails e c then
        (if c = ChmodDir \<or> c = SyncDir then save_calls e path i doc cs f
         else ([syscall_failed i (sv_part e) c f], Some (CallFailed c)))
      else let f' = syscall path (tmp_name path (sv_random e)) i doc c f;
               (trace, err) = save_calls e path i doc cs f'
           in (f' # trace, err))"

definition before_temp :: "syscall list" where
  "before_temp = [MkdirAll, ChmodDir]"

definition with_temp :: "syscall list" where
  "with_temp = [ChmodTemp, WriteTemp, SyncTemp, CloseTemp, Rename, SyncDir]"

text \<open>Once the temporary file exists its removal is deferred to the return.\<close>

definition save :: "time_codec \<Rightarrow> save_env \<Rightarrow> string \<Rightarrow> tokens \<Rightarrow> fs \<Rightarrow> fs list \<times> store_error option" where
  "save tc e path t f =
     (if path = '''' then ([f], None)
      else case encode_tokens tc t of
        None \<Rightarrow> ([f], Some EncodeFailed)
      | Some doc \<Rightarrow>
          let i = fs_fresh f; tmp = tmp_name path (sv_random e);
              (tr1, err1) = save_calls e path i doc (before_temp @ [CreateTemp]) f
          in if err1 \<noteq> None then (f # tr1, err1)
             else let (tr2, err2) = save_calls e path i doc with_temp (last (f # tr1));
                      g = last (f # tr1 @ tr2);
                      g' = (if sv_fails e RemoveTemp then g else syscall path tmp i doc RemoveTemp g)
                  in (f # tr1 @ tr2 @ [g'], err2))"

definition load :: "time_codec \<Rightarrow> string \<Rightarrow> bool \<Rightarrow> fs \<Rightarrow> (store_error, tokens) result" where
  "load tc path readable f =
     (if path = '''' then Inr zero_tokens
      else case fs_names f path of
        None \<Rightarrow> Inr zero_tokens
      | Some i \<Rightarrow>
          if \<not> readable then Inl ReadFailed
          else (case decode_tokens tc (fs_data f i) of None \<Rightarrow> Inl ParseFailed | Some t \<Rightarrow> Inr t))"

section \<open>An interrupted save\<close>

text \<open>
  Whatever directory a power cut brings back, the file under the name is durable, and inodes not
  yet used are not in any of them.
\<close>

definition settled :: "string \<Rightarrow> fs \<Rightarrow> bool" where
  "settled path f \<longleftrightarrow> fs_names f \<in> set (fs_since f) \<and>
     (\<forall>d \<in> set (fs_since f). \<forall>i. d path = Some i \<longrightarrow> fs_durable f i \<and> i < fs_fresh f)"

text \<open>
  \<open>g\<close> came from \<open>f\<close>: the files that might come back are untouched, and the name holds one of
  them or, when \<open>pub\<close>, possibly inode \<open>i\<close> with all of \<open>doc\<close> durable.
\<close>

definition safe_since :: "string \<Rightarrow> nat \<Rightarrow> rjson \<Rightarrow> fs \<Rightarrow> bool \<Rightarrow> fs \<Rightarrow> bool" where
  "safe_since path i doc f pub g \<longleftrightarrow>
     fs_names g \<in> set (fs_since g) \<and> i \<le> fs_fresh g \<and>
     (\<forall>d \<in> set (fs_since g). (\<exists>d0 \<in> set (fs_since f). d path = d0 path) \<or> (pub \<and> d path = Some i)) \<and>
     (\<forall>d0 \<in> set (fs_since f). \<forall>j. d0 path = Some j \<longrightarrow>
        j < i \<and> fs_durable g j \<and> fs_data g j = fs_data f j \<and> fs_mode g j = fs_mode f j) \<and>
     fs_names g path = (if pub then Some i else fs_names f path) \<and> fs_names f \<in> set (fs_since f) \<and>
     (pub \<longrightarrow> i < fs_fresh g \<and> fs_durable g i \<and> fs_data g i = Some doc \<and> fs_mode g i = owner_only)"

lemma safe_sinceD:
  assumes "safe_since path i doc f pub g"
  shows "fs_names g path = (if pub then Some i else fs_names f path)"
    "pub \<Longrightarrow> i < fs_fresh g \<and> fs_durable g i \<and> fs_data g i = Some doc \<and> fs_mode g i = owner_only"
proof -
  note * = assms [unfolded safe_since_def]
  from * show "fs_names g path = (if pub then Some i else fs_names f path)" by (elim conjE) assumption
  from * have "pub \<longrightarrow> i < fs_fresh g \<and> fs_durable g i \<and> fs_data g i = Some doc \<and> fs_mode g i = owner_only" by (elim conjE) assumption
  then show "pub \<Longrightarrow> i < fs_fresh g \<and> fs_durable g i \<and> fs_data g i = Some doc \<and> fs_mode g i = owner_only" by (rule mp)
qed

lemma tmp_not_path: "tmp_name path r \<noteq> path"
  by (simp add: tmp_name_def)

lemma safe_call:
  assumes "safe_since path i doc f pub g" "c \<notin> {CreateTemp, WriteTemp, Rename}"
  shows "safe_since path i doc f pub (syscall path (tmp_name path r) i doc c g)"
proof -
  have "safe_since path i doc f pub (g\<lparr>fs_mode := (fs_mode g)(i := owner_only)\<rparr>)"
      "safe_since path i doc f pub (g\<lparr>fs_durable := (fs_durable g)(i := True)\<rparr>)"
      "safe_since path i doc f pub (g\<lparr>fs_since := [fs_names g]\<rparr>)"
      "safe_since path i doc f pub (fs_link ((fs_names g)(tmp_name path r := None)) g)"
    using assms(1) tmp_not_path [of path r] by (auto simp: safe_since_def fs_link_def)
  with assms show ?thesis by (cases c) (simp_all add: syscall_def)
qed

lemma safe_write:
  assumes "safe_since path i doc f False g"
  shows "safe_since path i doc f False (syscall path (tmp_name path r) i doc' WriteTemp g)"
    "safe_since path i doc f False (syscall path (tmp_name path r) i doc' CreateTemp g)"
    "safe_since path i doc f False (syscall_failed i part c g)"
  using assms tmp_not_path [of path r]
  by (auto simp: safe_since_def syscall_def syscall_failed_def fs_link_def)

lemma safe_rename:
  assumes "safe_since path i doc f False g" "fs_names g (tmp_name path r) = Some i"
    and "fs_data g i = Some doc" "fs_durable g i" "fs_mode g i = owner_only" "i < fs_fresh g"
  shows "safe_since path i doc f True (syscall path (tmp_name path r) i doc' Rename g)"
  using assms tmp_not_path [of path r] by (auto simp: safe_since_def syscall_def fs_link_def)

lemma before_temp_safe:
  assumes "safe_since path i doc f False g" "save_calls e path i doc (before_temp @ [CreateTemp]) g = (tr, err)"
  shows "\<forall>h \<in> set tr. safe_since path i doc f False h"
    "err = None \<Longrightarrow> tr \<noteq> [] \<and> fs_names (last tr) (tmp_name path (sv_random e)) = Some i \<and> fs_mode (last tr) i = owner_only \<and> i < fs_fresh (last tr)"
proof -
  let ?do = "syscall path (tmp_name path (sv_random e)) i doc"
  have safe: "safe_since path i doc f False (?do MkdirAll g)" "safe_since path i doc f False (?do ChmodDir (?do MkdirAll g))"
    using safe_call assms(1) by simp_all
  from assms(2) show "\<forall>h \<in> set tr. safe_since path i doc f False h"
    using safe safe_write [OF assms(1)] safe_write [OF safe(1)] safe_write [OF safe(2)]
    by (auto simp: before_temp_def Let_def split: if_splits)
  have "?do CreateTemp h = last tr \<Longrightarrow> fs_names (last tr) (tmp_name path (sv_random e)) = Some i \<and> fs_mode (last tr) i = owner_only \<and> i < fs_fresh (last tr)" for h
    by (drule sym) (simp add: syscall_def fs_link_def)
  then show "err = None \<Longrightarrow> tr \<noteq> [] \<and> fs_names (last tr) (tmp_name path (sv_random e)) = Some i \<and> fs_mode (last tr) i = owner_only \<and> i < fs_fresh (last tr)"
    using assms(2) by (auto simp: before_temp_def Let_def split: if_splits)
qed

text \<open>The states of the second half: \<open>False\<close> up to the rename, \<open>True\<close> from it.\<close>

lemma with_temp_safe:
  assumes "safe_since path i doc f False g" "fs_names g (tmp_name path (sv_random e)) = Some i" "fs_mode g i = owner_only" "i < fs_fresh g"
    and "save_calls e path i doc with_temp g = (tr, err)"
  shows "\<forall>h \<in> set tr. \<exists>pub. safe_since path i doc f pub h"
    "safe_since path i doc f (err = None) (last (g # tr))"
    "err = None \<Longrightarrow> \<not> sv_fails e SyncDir \<Longrightarrow> \<forall>d \<in> set (fs_since (last tr)). d path = Some i"
proof -
  let ?do = "syscall path (tmp_name path (sv_random e)) i doc"
  define a where "a = ?do ChmodTemp g"
  define b where "b = ?do WriteTemp a"
  define c where "c = ?do SyncTemp b"
  define d where "d = ?do CloseTemp c"
  define r where "r = ?do Rename d"
  define z where "z = ?do SyncDir r"
  have sa: "safe_since path i doc f False a" unfolding a_def by (rule safe_call [OF assms(1)]) simp
  have sb: "safe_since path i doc f False b" unfolding b_def by (rule safe_write [OF sa])
  have sc: "safe_since path i doc f False c" unfolding c_def by (rule safe_call [OF sb]) simp
  have sd: "safe_since path i doc f False d" unfolding d_def by (rule safe_call [OF sc]) simp
  have "fs_names d (tmp_name path (sv_random e)) = Some i \<and> fs_data d i = Some doc \<and> fs_durable d i \<and> fs_mode d i = owner_only \<and> i < fs_fresh d"
    using assms(2,4) by (simp add: d_def c_def b_def a_def syscall_def)
  then have sr: "safe_since path i doc f True r" unfolding r_def by (intro safe_rename [OF sd]) auto
  have sz: "safe_since path i doc f True z" unfolding z_def by (rule safe_call [OF sr]) simp
  have fail: "safe_since path i doc f False (syscall_failed i (sv_part e) x h)" if "safe_since path i doc f False h" for x h
    by (rule safe_write(3) [OF that])
  have tr: "(tr, err) =
    (if sv_fails e ChmodTemp then ([syscall_failed i (sv_part e) ChmodTemp g], Some (CallFailed ChmodTemp))
     else if sv_fails e WriteTemp then ([a, syscall_failed i (sv_part e) WriteTemp a], Some (CallFailed WriteTemp))
     else if sv_fails e SyncTemp then ([a, b, syscall_failed i (sv_part e) SyncTemp b], Some (CallFailed SyncTemp))
     else if sv_fails e CloseTemp then ([a, b, c, syscall_failed i (sv_part e) CloseTemp c], Some (CallFailed CloseTemp))
     else if sv_fails e Rename then ([a, b, c, d, syscall_failed i (sv_part e) Rename d], Some (CallFailed Rename))
     else if sv_fails e SyncDir then ([a, b, c, d, r], None)
     else ([a, b, c, d, r, z], None))"
    unfolding assms(5) [symmetric] with_temp_def z_def r_def d_def c_def b_def a_def
    by (cases "sv_fails e ChmodTemp"; cases "sv_fails e WriteTemp"; cases "sv_fails e SyncTemp";
        cases "sv_fails e CloseTemp"; cases "sv_fails e Rename"; cases "sv_fails e SyncDir"; simp add: Let_def)
  note safes = assms(1) sa sb sc sd sr sz
  show "\<forall>h \<in> set tr. \<exists>pub. safe_since path i doc f pub h"
    using tr safes fail by (auto split: if_splits)
  show "safe_since path i doc f (err = None) (last (g # tr))"
    using tr safes fail by (auto split: if_splits)
  have "fs_names r path = Some i" using sr by (simp add: safe_since_def)
  then have "fs_since z = [fs_names r]" "fs_names r path = Some i" by (simp_all add: z_def syscall_def)
  then show "err = None \<Longrightarrow> \<not> sv_fails e SyncDir \<Longrightarrow> \<forall>d \<in> set (fs_since (last tr)). d path = Some i"
    using tr by (auto split: if_splits)
qed

text \<open>
  A store that may hold one of the credentials \<open>ts\<close>, whatever a power cut brings back: what a
  directory entry holds, and the invariant.
\<close>

definition holds :: "time_codec \<Rightarrow> fs \<Rightarrow> nat option \<Rightarrow> tokens \<Rightarrow> bool" where
  "holds tc f entry c = (case entry of None \<Rightarrow> c = zero_tokens | Some i \<Rightarrow> decode_tokens tc (fs_data f i) = Some c)"

lemma load_holds: "path \<noteq> '''' \<Longrightarrow> load tc path True f = Inr c \<longleftrightarrow> holds tc f (fs_names f path) c"
  by (auto simp: load_def holds_def split: option.split)

definition stored :: "time_codec \<Rightarrow> string \<Rightarrow> tokens list \<Rightarrow> fs \<Rightarrow> bool" where
  "stored tc path ts f \<longleftrightarrow> settled path f \<and>
     (\<forall>d \<in> set (fs_since f). (\<exists>c \<in> set ts. holds tc f (d path) c) \<and> (\<forall>i. d path = Some i \<longrightarrow> fs_mode f i = owner_only))"

lemma stored_load: "stored tc path ts f \<Longrightarrow> path \<noteq> '''' \<Longrightarrow> \<exists>c \<in> set ts. load tc path True f = Inr c"
  by (auto simp: stored_def settled_def load_holds)

lemma stored_cut:
  assumes "stored tc path ts f" "power_cut f f'" "path \<noteq> ''''"
  obtains c where "c \<in> set ts" "load tc path True f' = Inr c" "stored tc path [c] f'"
proof -
  obtain d where d: "d \<in> set (fs_since f)" "fs_names f' path = d path" using assms(2) by (auto simp: power_cut_def)
  then obtain c where c: "c \<in> set ts" "holds tc f (d path) c" using assms(1) by (auto simp: stored_def)
  have same: "fs_data f' i = fs_data f i" "fs_mode f' i = fs_mode f i" "i < fs_fresh f" "fs_mode f i = owner_only"
    if "d path = Some i" for i
    using assms(1,2) d(1) that by (auto simp: stored_def settled_def power_cut_def)
  have "holds tc f' (d path) c" using c(2) same(1) by (auto simp: holds_def split: option.splits)
  then have "load tc path True f' = Inr c" "stored tc path [c] f'"
    using assms(2,3) same d(2) by (auto simp: load_holds stored_def settled_def power_cut_def)
  with c(1) that show thesis by blast
qed

text \<open>What a save leaves behind.\<close>

lemma safe_stored:
  assumes "stored tc path ts f" "safe_since path i doc f pub g" "pub \<Longrightarrow> decode_tokens tc (Some doc) = Some t"
  shows "stored tc path (if pub then t # ts else ts) g"
    "pub \<Longrightarrow> \<forall>d \<in> set (fs_since g). d path = Some i \<Longrightarrow> stored tc path [t] g"
proof -
  have old: "fs_durable g j" "fs_data g j = fs_data f j" "fs_mode g j = owner_only" "j < fs_fresh g"
    if "d \<in> set (fs_since f)" "d path = Some j" for d j
    using assms(1,2) that by (fastforce simp: safe_since_def stored_def)+
  have new: "holds tc g (Some i) t" "fs_durable g i" "fs_mode g i = owner_only" "i < fs_fresh g" if pub
    using safe_sinceD(2) [OF assms(2) that] assms(3) [OF that] by (simp_all add: holds_def)
  have since: "(\<exists>d0 \<in> set (fs_since f). d path = d0 path) \<or> pub \<and> d path = Some i" if "d \<in> set (fs_since g)" for d
    using assms(2) that by (simp add: safe_since_def)
  have names: "fs_names g \<in> set (fs_since g)" using assms(2) by (simp add: safe_since_def)
  have held: "\<exists>c \<in> set ts. holds tc g (d path) c" if d: "d \<in> set (fs_since f)" for d
  proof -
    obtain c where "c \<in> set ts" "holds tc f (d path) c" using assms(1) d by (auto simp: stored_def)
    moreover have "holds tc g (d path) c = holds tc f (d path) c" using old(2) [OF d] by (cases "d path") (simp_all add: holds_def)
    ultimately show ?thesis by blast
  qed
  show "stored tc path (if pub then t # ts else ts) g"
    unfolding stored_def settled_def
  proof (intro conjI ballI allI impI names)
    fix d assume d: "d \<in> set (fs_since g)"
    show "\<exists>c \<in> set (if pub then t # ts else ts). holds tc g (d path) c" using since [OF d] held new(1) by auto
    fix j assume j: "d path = Some j"
    show "fs_durable g j" "j < fs_fresh g" "fs_mode g j = owner_only" using since [OF d] old new j by (metis option.inject)+
  qed
  show "stored tc path [t] g" if pub "\<forall>d \<in> set (fs_since g). d path = Some i"
  proof -
    have "holds tc g (d path) t \<and> (\<forall>j. d path = Some j \<longrightarrow> fs_durable g j \<and> j < fs_fresh g \<and> fs_mode g j = owner_only)"
      if "d \<in> set (fs_since g)" for d
    proof -
      have "d path = Some i" using \<open>\<forall>d \<in> set (fs_since g). d path = Some i\<close> that by blast
      then show ?thesis using new [OF \<open>pub\<close>] by simp
    qed
    with names show ?thesis unfolding stored_def settled_def by simp
  qed
qed

text \<open>The states a save goes through, and the one it ends in.\<close>

lemma save_states:
  assumes "path \<noteq> ''''" "settled path f" "save tc e path t f = (trace, err)"
  obtains doc where "\<forall>g \<in> set trace. \<exists>pub. safe_since path (fs_fresh f) doc f pub g \<and> (pub \<longrightarrow> encode_tokens tc t = Some doc)"
    "safe_since path (fs_fresh f) doc f (err = None) (last trace)" "err = None \<longrightarrow> encode_tokens tc t = Some doc"
    "err = None \<and> \<not> sv_fails e SyncDir \<longrightarrow> (\<forall>d \<in> set (fs_since (last trace)). d path = Some (fs_fresh f))"
    "trace \<noteq> []"
proof (cases "encode_tokens tc t")
  case None
  then have "trace = [f]" "err = Some EncodeFailed" using assms by (auto simp: save_def)
  moreover have "safe_since path (fs_fresh f) RNull f False f" using assms(2) by (auto simp: safe_since_def settled_def)
  ultimately show thesis by (intro that [of RNull]) auto
next
  case (Some doc)
  let ?i = "fs_fresh f"
  have safe0: "safe_since path ?i doc f False f" using assms(2) by (auto simp: safe_since_def settled_def)
  obtain tr1 err1 where one: "save_calls e path ?i doc (before_temp @ [CreateTemp]) f = (tr1, err1)" by force
  note bt = before_temp_safe [OF safe0 one]
  show thesis
  proof (cases err1)
    case (Some x)
    with assms(1,3) \<open>encode_tokens tc t = Some doc\<close> one have t: "trace = f # tr1" "err = err1"
      by (simp_all add: save_def Let_def)
    then have "last trace \<in> set (f # tr1)" by auto
    with bt(1) safe0 have "safe_since path ?i doc f False (last trace)" by auto
    with bt(1) safe0 Some t show thesis by (intro that [of doc]) auto
  next
    case None
    let ?g = "last (f # tr1)"
    from bt(2) [OF None] have g: "?g = last tr1" "last tr1 \<in> set tr1"
        "fs_names ?g (tmp_name path (sv_random e)) = Some ?i" "fs_mode ?g ?i = owner_only" "?i < fs_fresh ?g" by auto
    then have sg: "safe_since path ?i doc f False ?g" using bt(1) by auto
    obtain tr2 err2 where two: "save_calls e path ?i doc with_temp ?g = (tr2, err2)" by force
    note wt = with_temp_safe [OF sg g(3,4,5) two]
    let ?h = "last (?g # tr2)"
    let ?h' = "if sv_fails e RemoveTemp then ?h else syscall path (tmp_name path (sv_random e)) ?i doc RemoveTemp ?h"
    have h: "last (f # tr1 @ tr2) = ?h" by auto
    have t: "trace = f # tr1 @ tr2 @ [?h']" "err = err2"
      using assms(3) by (simp_all only: save_def assms(1) \<open>encode_tokens tc t = Some doc\<close> option.case Let_def one
          prod.case None two h if_False not_not simp_thms prod.inject)
    have sh: "safe_since path ?i doc f (err = None) ?h'"
      using wt(2) safe_call [OF wt(2), of RemoveTemp] by (simp add: t(2))
    have "\<forall>d \<in> set (fs_since ?h'). d path = Some ?i" if n: "err = None" "\<not> sv_fails e SyncDir"
    proof -
      have ne: "tr2 \<noteq> []" using two by (auto simp: with_temp_def Let_def split: if_splits prod.splits)
      then have "\<forall>d \<in> set (fs_since ?h). d path = Some ?i" using wt(3) n t(2) by simp
      moreover have "fs_names ?h path = Some ?i" using wt(2) n t(2) by (simp add: safe_since_def)
      ultimately show ?thesis using tmp_not_path [of path "sv_random e"] by (auto simp: syscall_def fs_link_def)
    qed
    moreover have "\<forall>g \<in> set trace. \<exists>pub. safe_since path ?i doc f pub g" using safe0 bt(1) wt(1) sh by (auto simp: t)
    ultimately show thesis
      using sh \<open>encode_tokens tc t = Some doc\<close> t by (intro that [of doc]) auto
  qed
qed

lemma save_stored:
  assumes "codec_ok tc" "path \<noteq> ''''" "stored tc path ts f" "save tc e path t f = (trace, err)"
  shows "g \<in> set trace \<Longrightarrow> stored tc path (t # ts) g"
    "err \<noteq> None \<Longrightarrow> stored tc path ts (last trace)"
    "err = None \<Longrightarrow> \<not> sv_fails e SyncDir \<Longrightarrow> stored tc path [t] (last trace)"
    "load tc path True (last trace) = (if err = None then Inr t else load tc path True f)"
    "trace \<noteq> []"
proof -
  have "settled path f" using assms(3) by (simp add: stored_def)
  from save_states [OF assms(2) this assms(4)] obtain doc where
    st: "\<forall>g \<in> set trace. \<exists>pub. safe_since path (fs_fresh f) doc f pub g \<and> (pub \<longrightarrow> encode_tokens tc t = Some doc)"
      "safe_since path (fs_fresh f) doc f (err = None) (last trace)" "err = None \<longrightarrow> encode_tokens tc t = Some doc"
      "err = None \<and> \<not> sv_fails e SyncDir \<longrightarrow> (\<forall>d \<in> set (fs_since (last trace)). d path = Some (fs_fresh f))"
      "trace \<noteq> []"
    by metis
  have dec: "encode_tokens tc t = Some doc \<Longrightarrow> decode_tokens tc (Some doc) = Some t" by (rule decode_encode [OF assms(1)])
  have more: "stored tc path ts g \<Longrightarrow> stored tc path (t # ts) g" for g by (auto simp: stored_def)
  show "stored tc path (t # ts) g" if g: "g \<in> set trace"
  proof -
    obtain pub where pub: "safe_since path (fs_fresh f) doc f pub g" "pub \<longrightarrow> encode_tokens tc t = Some doc" using st(1) g by blast
    with safe_stored(1) [OF assms(3) pub(1), of t] dec have "stored tc path (if pub then t # ts else ts) g" by blast
    with more show ?thesis by (cases pub) auto
  qed
  show "stored tc path ts (last trace)" if "err \<noteq> None" using safe_stored(1) [OF assms(3) st(2), of t] that by simp
  show "stored tc path [t] (last trace)" if "err = None" "\<not> sv_fails e SyncDir"
    using safe_stored(2) [OF assms(3) st(2), of t] st(3,4) dec that by blast
  have at: "fs_names (last trace) path = (if err = None then Some (fs_fresh f) else fs_names f path)" by (rule safe_sinceD(1) [OF st(2)])
  show "load tc path True (last trace) = (if err = None then Inr t else load tc path True f)"
  proof (cases "err = None")
    case True
    then have "holds tc (last trace) (fs_names (last trace) path) t"
      using at dec st(3) safe_sinceD(2) [OF st(2)] by (simp add: holds_def)
    with True assms(2) show ?thesis by (simp add: load_holds)
  next
    case False
    obtain c where c: "load tc path True f = Inr c" using stored_load [OF assms(3,2)] by blast
    then have "holds tc f (fs_names f path) c" using assms(2) by (simp add: load_holds)
    moreover have "fs_data (last trace) j = fs_data f j" if "fs_names f path = Some j" for j
      using st(2) that by (auto simp: safe_since_def)
    ultimately have "holds tc (last trace) (fs_names (last trace) path) c" using at False by (auto simp: holds_def split: option.splits)
    then have "load tc path True (last trace) = Inr c" using load_holds [OF assms(2)] by blast
    with False c show ?thesis by (cases err) simp_all
  qed
  show "trace \<noteq> []" by (rule st(5))
qed

section \<open>The life of a store\<close>

text \<open>
  A store from the first start of the server on: saves that end, saves of which the process or
  the machine saw no more than some of the calls, and power cuts.  The list holds the
  credentials a restart is allowed to read: after a save that succeeded and whose directory was
  synced, the one saved; otherwise those before it and the one being saved; after a power cut
  the one that came back.
\<close>

inductive store_run :: "time_codec \<Rightarrow> string \<Rightarrow> tokens list \<Rightarrow> fs \<Rightarrow> bool" for tc path where
  empty_store: "fs_names f \<in> set (fs_since f) \<Longrightarrow> \<forall>d \<in> set (fs_since f). d path = None \<Longrightarrow> store_run tc path [zero_tokens] f"
| save_synced: "store_run tc path ts f \<Longrightarrow> save tc e path t f = (trace, None) \<Longrightarrow> \<not> sv_fails e SyncDir \<Longrightarrow>
    store_run tc path [t] (last trace)"
| save_failed: "store_run tc path ts f \<Longrightarrow> save tc e path t f = (trace, Some err) \<Longrightarrow> store_run tc path ts (last trace)"
| save_any: "store_run tc path ts f \<Longrightarrow> save tc e path t f = (trace, err) \<Longrightarrow> g \<in> set trace \<Longrightarrow> store_run tc path (t # ts) g"
| power_fails: "store_run tc path ts f \<Longrightarrow> power_cut f f' \<Longrightarrow> load tc path True f' = Inr c \<Longrightarrow> store_run tc path [c] f'"

lemma store_run_stored:
  assumes "store_run tc path ts f" "codec_ok tc" "path \<noteq> ''''"
  shows "stored tc path ts f"
  using assms(1)
proof (induction rule: store_run.induct)
  case (empty_store f)
  then show ?case by (auto simp: stored_def settled_def holds_def)
next
  case (save_synced ts f e t trace)
  then show ?case using save_stored(3) [OF assms(2,3)] by blast
next
  case (save_failed ts f e t trace err)
  then show ?case using save_stored(2) [OF assms(2,3)] by blast
next
  case (save_any ts f e t trace err g)
  then show ?case using save_stored(1) [OF assms(2,3)] by blast
next
  case (power_fails ts f f' c)
  from stored_cut [OF power_fails.IH power_fails.hyps(2) assms(3)] power_fails.hyps(3) show ?case by (metis sum.inject(2))
qed

section \<open>Property\<close>

text \<open>
  C16: A stored credential is never lost to an interruption.  In a store that began empty, after
  any saves, each of which may fail or be interrupted at any of its calls (a directory that cannot
  be synced included, which \<open>save\<close> ignores) and any power cuts between and during them, a restart
  reads, with or without one more power cut, the last credential that was saved with its
  directory synced or one of those whose saving was begun since: never an error, never a
  mixture.  A save that reports success is read back, and one that reports a failure changes
  nothing.  The file is never readable by others.
\<close>

theorem save_crash_safe:
  assumes "codec_ok tc" "path \<noteq> ''''" "store_run tc path ts f"
  shows "(\<exists>c \<in> set ts. load tc path True f = Inr c) \<and>
    (\<forall>f'. power_cut f f' \<longrightarrow> (\<exists>c \<in> set ts. load tc path True f' = Inr c)) \<and>
    (\<forall>e t trace err. save tc e path t f = (trace, err) \<longrightarrow>
       load tc path True (last trace) = (if err = None then Inr t else load tc path True f)) \<and>
    (\<forall>i. fs_names f path = Some i \<longrightarrow> fs_mode f i = owner_only)"
proof -
  have s: "stored tc path ts f" by (rule store_run_stored [OF assms(3,1,2)])
  have "\<exists>c \<in> set ts. load tc path True f' = Inr c" if "power_cut f f'" for f'
    using stored_cut [OF s that assms(2)] by blast
  moreover have "fs_mode f i = owner_only" if "fs_names f path = Some i" for i
    using s that by (auto simp: stored_def settled_def)
  ultimately show ?thesis using stored_load [OF s assms(2)] save_stored(4) [OF assms(1,2) s] by blast
qed

text \<open>A codec for the demonstrations: nanoseconds in decimal.\<close>

definition demo_codec :: time_codec where
  "demo_codec = \<lparr>tc_write = (\<lambda>t. if in_int64 (time_ns t) then Some (Itoa (time_ns t)) else None),
     tc_read = (\<lambda>s. map_option Time (Atoi s))\<rparr>"

lemma demo_codec_ok: "codec_ok demo_codec"
  by (auto simp: codec_ok_def demo_codec_def Atoi_Itoa split: if_splits)

definition demo_tokens :: "string \<Rightarrow> tokens" where
  "demo_tokens r = zero_tokens\<lparr>tk_AccessToken := ''a'' @ r, tk_RefreshToken := r, tk_AccessExpiry := Time 3600\<rparr>"

definition demo_fs :: fs where
  "demo_fs = \<lparr>fs_names = (\<lambda>_. None), fs_since = [\<lambda>_. None], fs_data = (\<lambda>_. None), fs_durable = (\<lambda>_. False),
     fs_mode = (\<lambda>_. 0), fs_fresh = 0\<rparr>"

text \<open>Two saves whose directory cannot be synced: a power cut may bring back the first.\<close>

definition demo_env :: "string \<Rightarrow> save_env" where
  "demo_env r = \<lparr>sv_random = r, sv_fails = (\<lambda>c. c = SyncDir), sv_part = None\<rparr>"

definition demo_save :: "string \<Rightarrow> fs \<Rightarrow> fs" where
  "demo_save r f = last (fst (save demo_codec (demo_env r) ''chat.json'' (demo_tokens r) f))"

lemma demo_save_succeeds:
  "r \<in> {''r1'', ''r2''} \<Longrightarrow> \<exists>trace. save demo_codec (demo_env r) ''chat.json'' (demo_tokens r) f = (trace, None) \<and> trace \<noteq> []"
  by (auto simp: save_def encode_tokens_def demo_codec_def demo_tokens_def demo_env_def zero_tokens_def zero_time_def
      before_temp_def with_temp_def in_int64_def minInt64_def maxInt64_def Let_def split: prod.split)

lemma save_crash_safe_witness:
  "let f = demo_save ''r2'' (demo_save ''r1'' demo_fs); ts = [demo_tokens ''r2'', demo_tokens ''r1'', zero_tokens] in
   store_run demo_codec ''chat.json'' ts f \<and> load demo_codec ''chat.json'' True f = Inr (demo_tokens ''r2'') \<and>
   (\<forall>f'. power_cut f f' \<longrightarrow> (\<exists>c \<in> set ts. load demo_codec ''chat.json'' True f' = Inr c))"
proof -
  have path: "''chat.json'' \<noteq> ''''" by simp
  have 0: "store_run demo_codec ''chat.json'' [zero_tokens] demo_fs" by (rule empty_store) (simp_all add: demo_fs_def)
  have step: "store_run demo_codec ''chat.json'' (demo_tokens r # ts) (demo_save r f) \<and>
      load demo_codec ''chat.json'' True (demo_save r f) = Inr (demo_tokens r)"
    if f: "store_run demo_codec ''chat.json'' ts f" and r: "r \<in> {''r1'', ''r2''}" for r ts f
  proof -
    obtain trace where t: "save demo_codec (demo_env r) ''chat.json'' (demo_tokens r) f = (trace, None)" "trace \<noteq> []"
      using demo_save_succeeds [OF r, of f] by blast
    then have "demo_save r f = last trace" "last trace \<in> set trace" by (simp_all add: demo_save_def)
    with save_any [OF f t(1)] save_crash_safe [OF demo_codec_ok path f] t(1) show ?thesis by simp
  qed
  have 1: "store_run demo_codec ''chat.json'' [demo_tokens ''r1'', zero_tokens] (demo_save ''r1'' demo_fs)" using step [OF 0] by simp
  note 2 = step [OF 1, of "''r2''"]
  from save_crash_safe [OF demo_codec_ok path] 2 show ?thesis unfolding Let_def by blast
qed

end
