(* ===== verification/Restream.thy ===== *)
theory Restream
  imports TokenStore CompanionClient
begin

text \<open>
  server/internal/chat/restream.go and chat.go: the Restream provider.  It holds a rotating
  credential, starts and completes browser authorizations, and mints chat URLs.  What the
  platform answered, the clock readings and the random states are inputs; \<open>rs_stored\<close> is what
  a restart would load, which \<open>TokenStore\<close> shows a save to make the new credential or leave
  alone.  Messages of errors are left out where nothing but a log reads them.
\<close>

section \<open>Constants\<close>

definition defaultRestreamAPI :: string where "defaultRestreamAPI = ''https://api.restream.io''"
definition refreshSkew :: int where "refreshSkew = 2 * Minute"
definition loginStateTTL :: int where "loginStateTTL = 10 * Minute"
definition maxPendingLogins :: nat where "maxPendingLogins = 64"
definition tokenRequestTimeout :: int where "tokenRequestTimeout = 20 * Second"
definition assumedAccessLifetime :: int where "assumedAccessLifetime = Hour"
definition webchatTimeout :: int where "webchatTimeout = 10 * Second"
definition refusalCooldown :: int where "refusalCooldown = 5 * Minute"
definition chatScopeResource :: string where "chatScopeResource = ''chat''"
definition chatScopeAction :: string where "chatScopeAction = ''read''"
definition insufficientScopeName :: string where "insufficientScopeName = ''insufficient_scope''"
definition invalidGrantName :: string where "invalidGrantName = ''invalid_grant''"

section \<open>State\<close>

record pending_login =
  pl_expires :: time
  pl_seq :: int

text \<open>\<open>rs_sent\<close> is the log of requests made: refresh tokens, codes and access tokens sent.\<close>

datatype sent = SentRefresh string | SentCode string | SentWebchat string

record restream =
  rs_clientID :: string
  rs_redirectURI :: string
  rs_apiBase :: string
  rs_tok :: tokens
  rs_pending :: "(string, pending_login) gomap"
  rs_pendingSeq :: int
  rs_refusedUntil :: time
  rs_gen :: int
  rs_tokenCalls :: int
  rs_stored :: tokens
  rs_sent :: "sent list"

record restream_config =
  rc_ClientID :: string
  rc_ClientSecret :: string
  rc_RedirectURI :: string
  rc_TokenFile :: string

datatype chat_error =
    NeedsAuth | InvalidGrant | Unauthorized | Forbidden | MissingScope
  | NoCode | BadState | NoRandom | MissingConfig | Failed

text \<open>A credential file that cannot be read starts the provider unauthorized.\<close>

definition NewRestream :: "restream_config \<Rightarrow> string option \<Rightarrow> (store_error, tokens) result \<Rightarrow> (chat_error, restream) result" where
  "NewRestream cfg apiBase loaded =
     (if rc_ClientID cfg = '''' \<or> rc_ClientSecret cfg = '''' then Inl MissingConfig
      else if rc_RedirectURI cfg = '''' then Inl MissingConfig
      else
        let tok = (if rc_TokenFile cfg = '''' then zero_tokens
                   else case loaded of Inr t \<Rightarrow> t | Inl _ \<Rightarrow> zero_tokens)
        in Inr \<lparr>rs_clientID = rc_ClientID cfg, rs_redirectURI = rc_RedirectURI cfg,
             rs_apiBase = (case apiBase of Some b \<Rightarrow> if b = '''' then defaultRestreamAPI else TrimRight b (CHR ''/'')
                           | None \<Rightarrow> defaultRestreamAPI),
             rs_tok = tok, rs_pending = [], rs_pendingSeq = 0, rs_refusedUntil = zero_time, rs_gen = 0,
             rs_tokenCalls = 0, rs_stored = tok, rs_sent = []\<rparr>)"

definition Restream_Name :: string where "Restream_Name = ''restream''"

definition Authorized :: "restream \<Rightarrow> time \<Rightarrow> bool" where
  "Authorized r now \<longleftrightarrow> tokens_valid (rs_tok r) now \<and> \<not> now < rs_refusedUntil r"

section \<open>Pending authorizations\<close>

definition prunePending :: "time \<Rightarrow> restream \<Rightarrow> restream" where
  "prunePending now r = r\<lparr>rs_pending := filter (\<lambda>(_, l). \<not> pl_expires l < now) (rs_pending r)\<rparr>"

text \<open>The loop's choice: the empty string stands for nothing found yet.\<close>

definition older :: "string \<times> pending_login \<Rightarrow> string \<times> int \<Rightarrow> string \<times> int" where
  "older = (\<lambda>(st, l) (oldest, found). if oldest = '''' \<or> pl_seq l < found then (st, pl_seq l) else (oldest, found))"

definition oldest_pending :: "(string, pending_login) gomap \<Rightarrow> string" where
  "oldest_pending m = fst (fold older m ('''', 0))"

definition evictOldestPending :: "restream \<Rightarrow> restream" where
  "evictOldestPending r = r\<lparr>rs_pending := gm_del (oldest_pending (rs_pending r)) (rs_pending r)\<rparr>"

lemma fold_older_key: "m \<noteq> [] \<Longrightarrow> fst (fold older m (a, n)) \<in> set (gm_keys m) \<or> a \<noteq> '''' \<and> fst (fold older m (a, n)) = a"
proof (induction m arbitrary: a n)
  case (Cons e m)
  obtain st l where e: "e = (st, l)" by (cases e)
  obtain b k where b: "older e (a, n) = (b, k)" by force
  then have bb: "b = st \<or> a \<noteq> '''' \<and> b = a" by (auto simp: older_def e split: if_splits)
  show ?case
  proof (cases "m = []")
    case True
    with b bb show ?thesis by (auto simp: e)
  next
    case False
    from Cons.IH [OF this, of b k] b bb show ?thesis by (auto simp: e)
  qed
qed simp

lemma oldest_pending_key: "m \<noteq> [] \<Longrightarrow> oldest_pending m \<in> set (gm_keys m)"
  unfolding oldest_pending_def using fold_older_key [of m "''''" 0] by auto

lemma gm_del_shorter: "k \<in> set (gm_keys m) \<Longrightarrow> length (gm_del k m) < length m"
  by (auto simp: gm_del_def intro!: length_filter_less)

text \<open>\<open>for len(r.pending) >= maxPendingLogins\<close>.\<close>

function evict_full :: "restream \<Rightarrow> restream" where
  "evict_full r = (if length (rs_pending r) < maxPendingLogins then r else evict_full (evictOldestPending r))"
  by auto
termination
proof (relation "measure (\<lambda>r. length (rs_pending r))")
  fix r :: restream
  assume "\<not> length (rs_pending r) < maxPendingLogins"
  then have "rs_pending r \<noteq> []" by (auto simp: maxPendingLogins_def)
  then show "(evictOldestPending r, r) \<in> measure (\<lambda>r. length (rs_pending r))"
    using gm_del_shorter [OF oldest_pending_key] by (simp add: evictOldestPending_def)
qed simp

declare evict_full.simps [simp del]

section \<open>LoginURL\<close>

text \<open>\<open>url.QueryEscape\<close> and \<open>url.Values.Encode\<close>, which sorts by key.\<close>

definition query_unescaped :: "char \<Rightarrow> bool" where
  "query_unescaped c \<longleftrightarrow>
     (let n = byte c in (48 \<le> n \<and> n \<le> 57) \<or> (65 \<le> n \<and> n \<le> 90) \<or> (97 \<le> n \<and> n \<le> 122) \<or> c \<in> set ''-_.~'')"

fun QueryEscape :: "string \<Rightarrow> string" where
  "QueryEscape [] = []"
| "QueryEscape (c # s) =
     (if query_unescaped c then c # QueryEscape s
      else if c = CHR '' '' then CHR ''+'' # QueryEscape s
      else CHR ''%'' # hex_digit (byte c div 16) # hex_digit (byte c mod 16) # QueryEscape s)"

definition login_query :: "restream \<Rightarrow> string \<Rightarrow> string" where
  "login_query r st =
     ''client_id='' @ QueryEscape (rs_clientID r) @ ''&redirect_uri='' @ QueryEscape (rs_redirectURI r) @
     ''&response_type=code&state='' @ QueryEscape st"

text \<open>\<open>st\<close> is what \<open>randomState\<close> made, or its failure.\<close>

definition LoginURL :: "time \<Rightarrow> string option \<Rightarrow> restream \<Rightarrow> restream \<times> (chat_error, string) result" where
  "LoginURL now st r =
     (case st of
        None \<Rightarrow> (r, Inl NoRandom)
      | Some st \<Rightarrow>
          let r1 = evict_full (prunePending now r);
              n = (rs_pendingSeq r1 + 1) mod 2 ^ 64;
              r2 = r1\<lparr>rs_pendingSeq := n,
                      rs_pending := gm_put st \<lparr>pl_expires = time_Add now loginStateTTL, pl_seq = n\<rparr> (rs_pending r1)\<rparr>
          in (r2, Inr (rs_apiBase r @ ''/login?'' @ login_query r st)))"

section \<open>Answers of the platform\<close>

text \<open>A body as text and as the value it parses to.\<close>

record http_body =
  bd_text :: string
  bd_json :: "rjson option"

text \<open>\<open>NoReply\<close>: the request could not be made, or its answer not be read.\<close>

datatype reply = NoReply | Reply int http_body

definition into_int :: "rjson \<Rightarrow> int \<Rightarrow> int \<times> bool" where
  "into_int v x =
     (case v of
        RNum lit \<Rightarrow> (case Atoi lit of Some n \<Rightarrow> (n, False) | None \<Rightarrow> (x, True))
      | RNull \<Rightarrow> (x, False)
      | _ \<Rightarrow> (x, True))"

definition into_struct :: "(string \<Rightarrow> rjson \<Rightarrow> 's \<Rightarrow> 's \<times> bool) \<Rightarrow> rjson \<Rightarrow> 's \<Rightarrow> 's \<times> bool" where
  "into_struct field v x =
     (case v of RObj es \<Rightarrow> decode_entries field es x | RNull \<Rightarrow> (x, False) | _ \<Rightarrow> (x, True))"

definition error_fields :: "string \<Rightarrow> rjson \<Rightarrow> string \<times> string \<Rightarrow> (string \<times> string) \<times> bool" where
  "error_fields k v = (\<lambda>(n, msg).
     if names_field k ''name'' then (let (x, e) = into_string v n in ((x, msg), e))
     else if names_field k ''message'' then (let (x, e) = into_string v msg in ((n, x), e))
     else ((n, msg), False))"

definition restreamError :: "http_body \<Rightarrow> string \<times> string" where
  "restreamError b =
     (case unmarshal (\<lambda>k v s. if names_field k ''error'' then into_struct error_fields v s else (s, False)) ('''', '''') (bd_json b) of
        Some (n, msg) \<Rightarrow> if msg \<noteq> '''' then (n, msg) else ('''', TrimSpace (take 200 (bd_text b)))
      | None \<Rightarrow> ('''', TrimSpace (take 200 (bd_text b))))"

record token_payload =
  tp_AccessToken :: string
  tp_RefreshToken :: string
  tp_ExpiresIn :: int
  tp_RefreshExpiresIn :: int
  tp_Scope :: string

definition decode_token_payload :: "rjson option \<Rightarrow> token_payload option" where
  "decode_token_payload = unmarshal
     (\<lambda>k v p.
        if names_field k ''access_token'' then (let (x, e) = into_string v (tp_AccessToken p) in (p\<lparr>tp_AccessToken := x\<rparr>, e))
        else if names_field k ''refresh_token'' then (let (x, e) = into_string v (tp_RefreshToken p) in (p\<lparr>tp_RefreshToken := x\<rparr>, e))
        else if names_field k ''expires_in'' then (let (x, e) = into_int v (tp_ExpiresIn p) in (p\<lparr>tp_ExpiresIn := x\<rparr>, e))
        else if names_field k ''refreshtokenexpiresin'' then (let (x, e) = into_int v (tp_RefreshExpiresIn p) in (p\<lparr>tp_RefreshExpiresIn := x\<rparr>, e))
        else if names_field k ''scope'' then (let (x, e) = into_string v (tp_Scope p) in (p\<lparr>tp_Scope := x\<rparr>, e))
        else (p, False))
     \<lparr>tp_AccessToken = '''', tp_RefreshToken = '''', tp_ExpiresIn = 0, tp_RefreshExpiresIn = 0, tp_Scope = ''''\<rparr>"

definition token_response :: "time \<Rightarrow> token_payload \<Rightarrow> tokens" where
  "token_response now p =
     \<lparr>tk_AccessToken = tp_AccessToken p, tk_RefreshToken = tp_RefreshToken p,
      tk_AccessExpiry = (if tp_ExpiresIn p \<le> 0 then time_Add now assumedAccessLifetime
                         else time_Add now (wrap64 (tp_ExpiresIn p * Second))),
      tk_RefreshExpiry = (if tp_RefreshExpiresIn p > 0 then time_Add now (wrap64 (tp_RefreshExpiresIn p * Second)) else zero_time),
      tk_Scope = tp_Scope p\<rparr>"

text \<open>\<open>now\<close> is read once the answer is there.\<close>

definition postToken :: "reply \<Rightarrow> time \<Rightarrow> (chat_error, tokens) result" where
  "postToken rep now =
     (case rep of
        NoReply \<Rightarrow> Inl Failed
      | Reply status b \<Rightarrow>
          if status \<noteq> 200 then
            (if fst (restreamError b) = invalidGrantName \<and> status = 400 then Inl InvalidGrant else Inl Failed)
          else
            (case decode_token_payload (bd_json b) of
               None \<Rightarrow> Inl Failed
             | Some p \<Rightarrow>
                 if tp_AccessToken p = '''' \<or> tp_RefreshToken p = '''' then Inl Failed
                 else Inr (token_response now p)))"

section \<open>Scopes\<close>

definition scope_separator :: "char \<Rightarrow> bool" where
  "scope_separator c \<longleftrightarrow> c \<in> {CHR '' '', CHR '','', CHR 0x09, CHR 0x0A}"

text \<open>\<open>strings.FieldsFunc\<close>: the maximal runs of characters that do not separate.\<close>

fun FieldsFunc :: "(char \<Rightarrow> bool) \<Rightarrow> string \<Rightarrow> string \<Rightarrow> string list" where
  "FieldsFunc sep cur [] = (if cur = [] then [] else [cur])"
| "FieldsFunc sep cur (c # s) =
     (if sep c then (if cur = [] then FieldsFunc sep [] s else cur # FieldsFunc sep [] s)
      else FieldsFunc sep (cur @ [c]) s)"

definition scopeList :: "string \<Rightarrow> string list" where
  "scopeList scope = FieldsFunc scope_separator [] scope"

definition grantsChatRead :: "string \<Rightarrow> bool" where
  "grantsChatRead scope \<longleftrightarrow>
     (\<exists>granted \<in> set (scopeList scope).
        let parts = Split granted (CHR ''.'')
        in length parts \<ge> 2 \<and> hd parts = chatScopeResource \<and> last parts = chatScopeAction)"


section \<open>Completing an authorization\<close>

text \<open>The state is consumed whether or not the exchange succeeds.\<close>

definition claim_login :: "time \<Rightarrow> string \<Rightarrow> restream \<Rightarrow> restream \<times> bool" where
  "claim_login now st r =
     (let r1 = prunePending now r;
          login = gm_get (rs_pending r1) st;
          r2 = r1\<lparr>rs_pending := gm_del st (rs_pending r1)\<rparr>
      in (r2, case login of None \<Rightarrow> False | Some l \<Rightarrow> \<not> pl_expires l < now))"

definition beginExchange :: "restream \<Rightarrow> restream" where
  "beginExchange r = r\<lparr>rs_tokenCalls := rs_tokenCalls r + 1\<rparr>"

definition endExchange :: "restream \<Rightarrow> restream" where
  "endExchange r = r\<lparr>rs_tokenCalls := rs_tokenCalls r - 1\<rparr>"

definition log_sent :: "sent \<Rightarrow> restream \<Rightarrow> restream" where
  "log_sent x r = r\<lparr>rs_sent := rs_sent r @ [x]\<rparr>"

text \<open>\<open>adopt\<close>: the live credential first, then the copy on disk (\<open>saved\<close>: whether that worked).\<close>

definition adopt_live :: "tokens \<Rightarrow> bool \<Rightarrow> restream \<Rightarrow> restream" where
  "adopt_live t authorized r =
     r\<lparr>rs_tok := t, rs_refusedUntil := zero_time,
       rs_gen := (if authorized then (rs_gen r + 1) mod 2 ^ 64 else rs_gen r)\<rparr>"

definition store_save :: "bool \<Rightarrow> tokens \<Rightarrow> restream \<Rightarrow> restream" where
  "store_save saved t r = (if saved then r\<lparr>rs_stored := t\<rparr> else r)"

definition adopt :: "bool \<Rightarrow> tokens \<Rightarrow> bool \<Rightarrow> restream \<Rightarrow> restream" where
  "adopt saved t authorized r = store_save saved t (adopt_live t authorized r)"

definition discard :: "bool \<Rightarrow> restream \<Rightarrow> restream" where
  "discard saved r = store_save saved zero_tokens (r\<lparr>rs_tok := zero_tokens\<rparr>)"

record complete_env =
  ce_now :: time
  ce_reply :: reply
  ce_replyNow :: time
  ce_saved :: bool

definition missing_scope :: "tokens \<Rightarrow> bool" where
  "missing_scope t \<longleftrightarrow> tk_Scope t \<noteq> '''' \<and> \<not> grantsChatRead (tk_Scope t)"

definition Complete :: "complete_env \<Rightarrow> string \<Rightarrow> string \<Rightarrow> restream \<Rightarrow> restream \<times> chat_error option" where
  "Complete e code st r =
     (if code = '''' then (r, Some NoCode)
      else
        let (r1, ok) = claim_login (ce_now e) st r in
        if \<not> ok then (r1, Some BadState)
        else
          let r2 = log_sent (SentCode code) (beginExchange r1) in
          case postToken (ce_reply e) (ce_replyNow e) of
            Inl err \<Rightarrow> (endExchange r2, Some err)
          | Inr t \<Rightarrow>
              if missing_scope t then (endExchange r2, Some MissingScope)
              else (endExchange (adopt (ce_saved e) t True r2), None))"

section \<open>Minting\<close>

definition usableToken :: "restream \<Rightarrow> string \<Rightarrow> time \<Rightarrow> string option" where
  "usableToken r retire now =
     (let t = rs_tok r in
      if \<not> tokens_valid t now \<or> now < rs_refusedUntil r then None
      else if retire \<noteq> '''' \<and> retire = tk_AccessToken t then None
      else if tk_AccessToken t = '''' \<or> \<not> time_Add now refreshSkew < tk_AccessExpiry t then None
      else Some (tk_AccessToken t))"

text \<open>What a caller holding \<open>refreshMu\<close> decides to do.\<close>

datatype decision = Refuse | UseToken string | Refresh string

definition decide :: "restream \<Rightarrow> string \<Rightarrow> time \<Rightarrow> decision" where
  "decide r retire now =
     (let t = rs_tok r in
      if \<not> tokens_valid t now \<or> now < rs_refusedUntil r then Refuse
      else
        let forced = (retire \<noteq> '''' \<and> retire = tk_AccessToken t) in
        if \<not> forced \<and> tk_AccessToken t \<noteq> '''' \<and> time_Add now refreshSkew < tk_AccessExpiry t
        then UseToken (tk_AccessToken t)
        else Refresh (tk_RefreshToken t))"

text \<open>What one attempt meets: clock readings, the answer to a refresh, the answer to the mint.\<close>

record mint_env =
  me_now :: time
  me_lockNow :: time
  me_post :: reply
  me_postNow :: time
  me_saved :: bool
  me_web :: reply

definition accessToken :: "mint_env \<Rightarrow> string \<Rightarrow> restream \<Rightarrow> restream \<times> (chat_error, string) result" where
  "accessToken e retire r =
     (case usableToken r retire (me_now e) of
        Some tok \<Rightarrow> (r, Inr tok)
      | None \<Rightarrow>
          (case decide r retire (me_lockNow e) of
             Refuse \<Rightarrow> (r, Inl NeedsAuth)
           | UseToken tok \<Rightarrow> (r, Inr tok)
           | Refresh refresh \<Rightarrow>
               let r1 = log_sent (SentRefresh refresh) (beginExchange r) in
               case postToken (me_post e) (me_postNow e) of
                 Inl err \<Rightarrow>
                   if err = InvalidGrant then (endExchange (discard (me_saved e) r1), Inl NeedsAuth)
                   else (endExchange r1, Inl err)
               | Inr t \<Rightarrow> (endExchange (adopt (me_saved e) t False r1), Inr (tk_AccessToken t))))"

definition decode_webchat :: "rjson option \<Rightarrow> string option" where
  "decode_webchat = unmarshal (\<lambda>k v s. if names_field k ''webchaturl'' then into_string v s else (s, False)) ''''"

definition webchat_result :: "reply \<Rightarrow> (chat_error, string) result" where
  "webchat_result rep =
     (case rep of
        NoReply \<Rightarrow> Inl Failed
      | Reply status b \<Rightarrow>
          if status \<noteq> 200 then
            (if status = 401 then Inl Unauthorized
             else if status = 403 \<and> fst (restreamError b) = insufficientScopeName then Inl Forbidden
             else Inl Failed)
          else (case decode_webchat (bd_json b) of
                  None \<Rightarrow> Inl Failed
                | Some u \<Rightarrow> if u = '''' then Inl Failed else Inr u))"

definition mint :: "mint_env \<Rightarrow> string \<Rightarrow> restream \<Rightarrow> restream \<times> string \<times> (chat_error, string) result" where
  "mint e retire r =
     (case accessToken e retire r of
        (r1, Inl err) \<Rightarrow> (r1, '''', Inl err)
      | (r1, Inr token) \<Rightarrow> (log_sent (SentWebchat token) r1, token, webchat_result (me_web e)))"

definition holdOff :: "int \<Rightarrow> time \<Rightarrow> restream \<Rightarrow> restream" where
  "holdOff gen now r = (if rs_gen r \<noteq> gen then r else r\<lparr>rs_refusedUntil := time_Add now refusalCooldown\<rparr>)"

definition URL :: "mint_env \<Rightarrow> mint_env \<Rightarrow> time \<Rightarrow> restream \<Rightarrow> restream \<times> (chat_error, string) result" where
  "URL e1 e2 now r =
     (let gen = rs_gen r;
          (r1, used, res1) = mint e1 '''' r;
          (r2, res) = (if res1 = Inl Unauthorized then (let (r', _, res2) = mint e2 used r1 in (r', res2)) else (r1, res1))
      in if res = Inl Unauthorized \<or> res = Inl Forbidden then (holdOff gen now r2, Inl NeedsAuth) else (r2, res))"

text \<open>\<open>Drain\<close> with the number of exchanges in flight at each look, until its deadline.\<close>

fun Drain :: "int list \<Rightarrow> bool option" where
  "Drain [] = None"
| "Drain (inFlight # later) = (if inFlight = 0 then Some True else if later = [] then Some False else Drain later)"

section \<open>Status\<close>

datatype status = StatusNeedsAuth | StatusReady

fun status_string :: "status \<Rightarrow> string" where
  "status_string StatusNeedsAuth = ''needs_auth''"
| "status_string StatusReady = ''ready''"

text \<open>\<open>None\<close> is a nil provider, otherwise what its \<open>Authorized\<close> answers.\<close>

definition StatusOf :: "bool option \<Rightarrow> status option" where
  "StatusOf authorized = map_option (\<lambda>a. if a then StatusReady else StatusNeedsAuth) authorized"


section \<open>Which authorizations complete\<close>

text \<open>
  Evicting picks the lowest sequence number whatever order the map is ranged in, as the states
  are never empty.
\<close>

lemma fold_older_min:
  assumes "\<forall>e \<in> set m. fst e \<noteq> ''''" "a \<noteq> ''''"
  shows "\<exists>b k. fold older m (a, n) = (b, k) \<and> b \<noteq> '''' \<and> k \<le> n \<and> (\<forall>e \<in> set m. k \<le> pl_seq (snd e)) \<and>
    ((b, k) = (a, n) \<or> (\<exists>l. (b, l) \<in> set m \<and> pl_seq l = k))"
  using assms
proof (induction m arbitrary: a n)
  case (Cons e m)
  obtain st l where e: "e = (st, l)" by (cases e)
  define a' where "a' = (if pl_seq l < n then st else a)"
  define n' where "n' = (if pl_seq l < n then pl_seq l else n)"
  have step: "older e (a, n) = (a', n')" using Cons.prems(2) by (simp add: older_def e a'_def n'_def)
  have "a' \<noteq> ''''" "\<forall>e \<in> set m. fst e \<noteq> ''''" using Cons.prems by (auto simp: a'_def e)
  from Cons.IH [OF this(2,1), of n'] obtain b k where bk: "fold older m (a', n') = (b, k)" "b \<noteq> ''''" "k \<le> n'"
      "\<forall>e \<in> set m. k \<le> pl_seq (snd e)" "(b, k) = (a', n') \<or> (\<exists>l. (b, l) \<in> set m \<and> pl_seq l = k)"
    by metis
  have n': "n' \<le> n" "n' \<le> pl_seq l" "(a', n') = (a, n) \<or> (a', n') = (st, pl_seq l)"
    by (auto simp: n'_def a'_def)
  show ?case
  proof (intro exI conjI)
    show "fold older (e # m) (a, n) = (b, k)" by (simp add: step bk(1))
    show "\<forall>e \<in> set (e # m). k \<le> pl_seq (snd e)" using bk(3,4) n'(2) by (auto simp: e)
    show "(b, k) = (a, n) \<or> (\<exists>l. (b, l) \<in> set (e # m) \<and> pl_seq l = k)" using bk(5) n'(3) by (auto simp: e)
  qed (use bk(2,3) n'(1) in auto)
qed simp

lemma oldest_pending_min:
  assumes "\<forall>e \<in> set m. fst e \<noteq> ''''" "m \<noteq> []"
  shows "\<exists>l. (oldest_pending m, l) \<in> set m \<and> (\<forall>e \<in> set m. pl_seq l \<le> pl_seq (snd e))"
proof -
  obtain st l m' where m: "m = (st, l) # m'" using assms(2) by (cases m) auto
  have first: "older (st, l) ('''', 0) = (st, pl_seq l)" by (simp add: older_def)
  obtain b k where "fold older m' (st, pl_seq l) = (b, k)" "k \<le> pl_seq l" "\<forall>e \<in> set m'. k \<le> pl_seq (snd e)"
      "(b, k) = (st, pl_seq l) \<or> (\<exists>l. (b, l) \<in> set m' \<and> pl_seq l = k)"
    using fold_older_min [of m' st "pl_seq l"] assms(1) by (auto simp: m)
  then show ?thesis by (auto simp: oldest_pending_def m first)
qed

lemma oldest_pending_any_order:
  assumes "\<forall>e \<in> set m. fst e \<noteq> ''''" "m \<noteq> []" "set m' = set m"
    and "\<And>s (l :: pending_login) s' l'. (s, l) \<in> set m \<Longrightarrow> (s', l') \<in> set m \<Longrightarrow> pl_seq l = pl_seq l' \<Longrightarrow> s = s'"
  shows "oldest_pending m' = oldest_pending m"
proof -
  obtain l where l: "(oldest_pending m, l) \<in> set m" "\<forall>e \<in> set m. pl_seq l \<le> pl_seq (snd e)"
    using oldest_pending_min [OF assms(1,2)] by blast
  have "m' \<noteq> []" using assms(2,3) by auto
  with assms(1,3) obtain l' where l': "(oldest_pending m', l') \<in> set m" "\<forall>e \<in> set m. pl_seq l' \<le> pl_seq (snd e)"
    using oldest_pending_min [of m'] by auto
  from l l' have "pl_seq l' = pl_seq l" by fastforce
  from assms(4) [OF l'(1) l(1) this] show ?thesis .
qed

lemma evict_full_pending:
  "length (rs_pending (evict_full r)) < maxPendingLogins \<and>
   (\<forall>s l. gm_get (rs_pending (evict_full r)) s = Some l \<longrightarrow> gm_get (rs_pending r) s = Some l) \<and>
   (gm_wf (rs_pending r) \<longrightarrow> gm_wf (rs_pending (evict_full r)))"
proof (induction r rule: evict_full.induct)
  case (1 r)
  show ?case
  proof (cases "length (rs_pending r) < maxPendingLogins")
    case True
    then show ?thesis by (subst (1 2 3) evict_full.simps) simp
  next
    case False
    have eq: "evict_full r = evict_full (evictOldestPending r)" by (subst evict_full.simps) (simp add: False)
    have "gm_get (rs_pending (evictOldestPending r)) s = Some l \<Longrightarrow> gm_get (rs_pending r) s = Some l" for s l
      by (simp add: evictOldestPending_def gomap_simps split: if_splits)
    moreover have "gm_wf (rs_pending r) \<longrightarrow> gm_wf (rs_pending (evictOldestPending r))" by (simp add: evictOldestPending_def)
    ultimately show ?thesis using 1 [OF False] unfolding eq by blast
  qed
qed

lemma prunePending_get:
  "gm_wf (rs_pending r) \<Longrightarrow> gm_get (rs_pending (prunePending now r)) s = Some l \<Longrightarrow>
     gm_get (rs_pending r) s = Some l \<and> \<not> pl_expires l < now"
  by (auto simp: prunePending_def gm_get_filter split: option.splits if_splits)

lemma gm_put_length: "gm_wf m \<Longrightarrow> length (gm_put k v m) \<le> Suc (length m)"
proof (induction m)
  case (Cons p m)
  then show ?case by (cases p) (auto simp: gm_put_Cons gm_wf_Cons)
qed simp

datatype login_op = Start time "string option" | Finish complete_env string string | Mint mint_env mint_env time

text \<open>
  A callback gets through when it succeeds, or sends the platform anything, or changes the
  credential.  The guard after the claim is what keeps the others out.
\<close>

definition gets_through :: "complete_env \<Rightarrow> string \<Rightarrow> string \<Rightarrow> restream \<Rightarrow> bool" where
  "gets_through e code st r \<longleftrightarrow>
     (let (r', err) = Complete e code st r in err = None \<or> rs_sent r' \<noteq> rs_sent r \<or> rs_tok r' \<noteq> rs_tok r)"

lemma gets_through_claimed: "gets_through e code st r \<Longrightarrow> code \<noteq> '''' \<and> snd (claim_login (ce_now e) st r)"
  by (rule ccontr) (auto simp: gets_through_def Complete_def claim_login_def prunePending_def Let_def split: prod.splits if_splits)

fun login_step :: "login_op \<Rightarrow> restream \<times> (string \<times> time) list \<Rightarrow> restream \<times> (string \<times> time) list" where
  "login_step (Start now st) (r, acc) = (fst (LoginURL now st r), acc)"
| "login_step (Finish e code st) (r, acc) =
     (fst (Complete e code st r), if gets_through e code st r then acc @ [(st, ce_now e)] else acc)"
| "login_step (Mint e1 e2 now) (r, acc) = (fst (URL e1 e2 now r), acc)"

definition login_run :: "login_op list \<Rightarrow> restream \<Rightarrow> restream \<times> (string \<times> time) list" where
  "login_run ops r = fold login_step ops (r, [])"

lemma store_save_pending [simp]: "rs_pending (store_save ok t r) = rs_pending r"
  by (simp add: store_save_def)

lemma access_pending: "rs_pending (fst (accessToken e retire r)) = rs_pending r"
  by (auto simp: accessToken_def Let_def log_sent_def beginExchange_def endExchange_def discard_def adopt_def
      adopt_live_def split: option.splits decision.splits sum.splits)

lemma mint_pending: "rs_pending (fst (mint e retire r)) = rs_pending r"
  using access_pending [of e retire r]
  by (auto simp: mint_def log_sent_def split: prod.splits sum.splits)

lemma URL_pending: "rs_pending (fst (URL e1 e2 now r)) = rs_pending r"
proof -
  obtain r1 used res1 where m1: "mint e1 '''' r = (r1, used, res1)" by (cases "mint e1 '''' r") auto
  obtain r2 used2 res2 where m2: "mint e2 used r1 = (r2, used2, res2)" by (cases "mint e2 used r1") auto
  have "rs_pending r1 = rs_pending r" "rs_pending r2 = rs_pending r"
    using mint_pending [of e1 "''''" r] mint_pending [of e2 used r1] by (simp_all add: m1 m2)
  then show ?thesis by (simp add: URL_def m1 m2 Let_def holdOff_def)
qed

lemma Complete_pending:
  "rs_pending (fst (Complete e code st r)) = (if code = '''' then rs_pending r else rs_pending (fst (claim_login (ce_now e) st r)))"
  by (auto simp: Complete_def Let_def log_sent_def beginExchange_def endExchange_def adopt_def adopt_live_def
      split: prod.splits sum.splits)

definition starts :: "string \<Rightarrow> login_op list \<Rightarrow> nat" where
  "starts s ops = length (filter (\<lambda>op. case op of Start _ st \<Rightarrow> st = Some s | _ \<Rightarrow> False) ops)"

definition login_inv :: "login_op list \<Rightarrow> restream \<Rightarrow> (string \<times> time) list \<Rightarrow> bool" where
  "login_inv ops r acc \<longleftrightarrow>
     gm_wf (rs_pending r) \<and> length (rs_pending r) \<le> maxPendingLogins \<and>
     (\<forall>s l. gm_get (rs_pending r) s = Some l \<longrightarrow> (\<exists>t. Start t (Some s) \<in> set ops \<and> pl_expires l = time_Add t loginStateTTL)) \<and>
     (\<forall>s. length (filter (\<lambda>(s', _). s' = s) acc) + (if gm_get (rs_pending r) s = None then 0 else 1) \<le> starts s ops) \<and>
     (\<forall>(s, now) \<in> set acc. \<exists>t. Start t (Some s) \<in> set ops \<and> \<not> time_Add t loginStateTTL < now)"

lemma login_invD:
  assumes "login_inv ops r acc"
  shows "gm_get (rs_pending r) s = Some l \<Longrightarrow> \<exists>t. Start t (Some s) \<in> set ops \<and> pl_expires l = time_Add t loginStateTTL"
    "(s, now) \<in> set acc \<Longrightarrow> \<exists>t. Start t (Some s) \<in> set ops \<and> \<not> time_Add t loginStateTTL < now"
  using assms unfolding login_inv_def by blast+

lemma starts_snoc: "starts s (ops @ [op]) = starts s ops + (case op of Start _ st \<Rightarrow> (if st = Some s then 1 else 0) | _ \<Rightarrow> 0)"
  by (auto simp: starts_def split: login_op.splits)


lemma login_inv_start:
  assumes "login_inv ops r acc"
  shows "login_inv (ops @ [Start now st]) (fst (LoginURL now st r)) acc"
proof (cases st)
  case None
  with assms show ?thesis by (fastforce simp: login_inv_def LoginURL_def starts_snoc)
next
  case (Some s0)
  let ?r1 = "evict_full (prunePending now r)"
  note ev = evict_full_pending [of "prunePending now r"]
  have wf: "gm_wf (rs_pending r)" "gm_wf (rs_pending ?r1)" using assms ev by (auto simp: login_inv_def prunePending_def)
  have old: "gm_get (rs_pending ?r1) s = Some l \<Longrightarrow> gm_get (rs_pending r) s = Some l" for s l
    using ev prunePending_get [OF wf(1)] by blast
  define r' where "r' = fst (LoginURL now st r)"
  obtain n where p: "rs_pending r' = gm_put s0 \<lparr>pl_expires = time_Add now loginStateTTL, pl_seq = n\<rparr> (rs_pending ?r1)"
    by (simp add: r'_def LoginURL_def Some Let_def)
  have get: "gm_get (rs_pending r') s = (if s = s0 then Some \<lparr>pl_expires = time_Add now loginStateTTL, pl_seq = n\<rparr> else gm_get (rs_pending ?r1) s)" for s
    by (simp add: p gm_get_put [OF wf(2)])
  have "length (rs_pending r') \<le> maxPendingLogins"
    using gm_put_length [OF wf(2), of s0] ev unfolding p by (meson Suc_leI order_trans)
  moreover have "\<exists>t. Start t (Some s) \<in> set (ops @ [Start now st]) \<and> pl_expires l = time_Add t loginStateTTL"
    if "gm_get (rs_pending r') s = Some l" for s l
    using that old [of s l] assms by (fastforce simp: get Some login_inv_def split: if_splits)
  moreover have "length (filter (\<lambda>(s', _). s' = s) acc) + (if gm_get (rs_pending r') s = None then 0 else 1) \<le> starts s (ops @ [Start now st])" for s
  proof -
    have inv: "length (filter (\<lambda>(s', _). s' = s) acc) + (if gm_get (rs_pending r) s = None then 0 else 1) \<le> starts s ops"
      using assms by (simp add: login_inv_def)
    show ?thesis
    proof (cases "s = s0")
      case True
      with inv show ?thesis by (simp add: starts_snoc Some get split: if_splits)
    next
      case False
      have "gm_get (rs_pending r) s = None \<Longrightarrow> gm_get (rs_pending ?r1) s = None"
        using old [of s] by (cases "gm_get (rs_pending ?r1) s") auto
      with inv False show ?thesis by (auto simp: starts_snoc Some get split: if_splits)
    qed
  qed
  moreover have "gm_wf (rs_pending r')" using wf(2) by (simp add: p)
  moreover have "\<forall>(s, now') \<in> set acc. \<exists>t. Start t (Some s) \<in> set (ops @ [Start now st]) \<and> \<not> time_Add t loginStateTTL < now'"
    using assms by (fastforce simp: login_inv_def)
  ultimately show ?thesis unfolding login_inv_def r'_def [symmetric] by blast
qed

lemma login_inv_same:
  assumes "login_inv ops r acc" "rs_pending r' = rs_pending r" "\<And>t st. op \<noteq> Start t st"
  shows "login_inv (ops @ [op]) r' acc"
  using assms by (cases op) (fastforce simp: login_inv_def starts_snoc)+

lemma login_inv_finish:
  assumes inv: "login_inv ops r acc"
  shows "login_inv (ops @ [Finish e code st]) (fst (Complete e code st r))
    (if gets_through e code st r then acc @ [(st, ce_now e)] else acc)"
proof (cases "code = ''''")
  case True
  then have "rs_pending (fst (Complete e code st r)) = rs_pending r" "\<not> gets_through e code st r"
    using gets_through_claimed by (auto simp: Complete_pending)
  with login_inv_same [OF inv, of _ "Finish e code st"] show ?thesis by simp
next
  case False
  let ?r1 = "prunePending (ce_now e) r" and ?r' = "fst (Complete e code st r)"
  have wf: "gm_wf (rs_pending r)" using inv by (simp add: login_inv_def)
  have p: "rs_pending ?r' = gm_del st (rs_pending ?r1)"
    by (simp add: Complete_pending False claim_login_def Let_def)
  have acc: "gets_through e code st r \<Longrightarrow> gm_get (rs_pending ?r1) st \<noteq> None"
    using gets_through_claimed [of e code st r] by (auto simp: claim_login_def Let_def split: option.splits)
  have old: "gm_get (rs_pending ?r1) s = Some l \<Longrightarrow> gm_get (rs_pending r) s = Some l \<and> \<not> pl_expires l < ce_now e" for s l
    by (rule prunePending_get [OF wf])
  have get: "gm_get (rs_pending ?r') s = Some l \<Longrightarrow> s \<noteq> st \<and> gm_get (rs_pending r) s = Some l" for s l
    using old by (auto simp: p gm_get_del split: if_splits)
  define acc' where "acc' = (if gets_through e code st r then acc @ [(st, ce_now e)] else acc)"
  have "length (rs_pending ?r') \<le> maxPendingLogins"
    using inv by (auto simp: p login_inv_def gm_del_def prunePending_def intro: order_trans [OF length_filter_le] order_trans [OF length_filter_le])
  moreover have "gm_wf (rs_pending ?r')" using wf by (simp add: p prunePending_def)
  moreover have "\<exists>t. Start t (Some s) \<in> set (ops @ [Finish e code st]) \<and> pl_expires l = time_Add t loginStateTTL"
    if "gm_get (rs_pending ?r') s = Some l" for s l
    using get [OF that] inv by (fastforce simp: login_inv_def)
  moreover have "length (filter (\<lambda>(s', _). s' = s) acc') + (if gm_get (rs_pending ?r') s = None then 0 else 1) \<le> starts s (ops @ [Finish e code st])" for s
  proof -
    have i: "length (filter (\<lambda>(s', _). s' = s) acc) + (if gm_get (rs_pending r) s = None then 0 else 1) \<le> starts s ops"
      using inv by (simp add: login_inv_def)
    show ?thesis
    proof (cases "s = st")
      case True
      then have gone: "gm_get (rs_pending ?r') s = None" by (simp add: p gm_get_del)
      have "gets_through e code st r \<Longrightarrow> gm_get (rs_pending r) s \<noteq> None" using acc old [of s] True by auto
      with i gone True show ?thesis by (auto simp: acc'_def starts_snoc)
    next
      case False
      have "gm_get (rs_pending r) s = None \<Longrightarrow> gm_get (rs_pending ?r') s = None"
        using get [of s] by (cases "gm_get (rs_pending ?r') s") auto
      with i False show ?thesis by (auto simp: acc'_def starts_snoc split: if_splits)
    qed
  qed
  moreover have "\<forall>(s, now) \<in> set acc'. \<exists>t. Start t (Some s) \<in> set (ops @ [Finish e code st]) \<and> \<not> time_Add t loginStateTTL < now"
  proof -
    have "\<exists>t. Start t (Some st) \<in> set ops \<and> \<not> time_Add t loginStateTTL < ce_now e" if "gets_through e code st r"
    proof -
      from that acc obtain l where "gm_get (rs_pending ?r1) st = Some l" by auto
      with old have "gm_get (rs_pending r) st = Some l" "\<not> pl_expires l < ce_now e" by auto
      with login_invD(1) [OF inv] show ?thesis by metis
    qed
    with login_invD(2) [OF inv] show ?thesis by (auto simp: acc'_def)
  qed
  ultimately show ?thesis unfolding acc'_def [symmetric] login_inv_def by blast
qed

lemma login_run_inv:
  assumes "rs_pending r = []"
  shows "login_inv ops (fst (login_run ops r)) (snd (login_run ops r))"
proof (induction ops rule: rev_induct)
  case Nil
  show ?case using assms by (simp add: login_run_def login_inv_def)
next
  case (snoc op ops)
  obtain r1 acc where run: "login_run ops r = (r1, acc)" by force
  then have "login_run (ops @ [op]) r = login_step op (r1, acc)" by (simp add: login_run_def)
  with snoc run login_inv_start login_inv_finish login_inv_same [OF _ URL_pending] show ?case by (cases op) auto
qed


section \<open>What a mint does to the credential\<close>

text \<open>The answer that retires a credential, and the refreshes a call sent.\<close>

definition rejected :: "reply \<Rightarrow> time \<Rightarrow> bool" where
  "rejected rep now \<longleftrightarrow> postToken rep now = Inl InvalidGrant"

definition issued :: "reply \<Rightarrow> time \<Rightarrow> tokens \<Rightarrow> bool" where
  "issued rep now t \<longleftrightarrow> postToken rep now = Inr t"

lemma rejected_iff:
  "rejected rep now \<longleftrightarrow> (\<exists>b. rep = Reply 400 b \<and> fst (restreamError b) = invalidGrantName)"
  by (auto simp: rejected_def postToken_def split: reply.splits option.splits if_splits)

lemma access_cases:
  obtains
    (held) tok where "accessToken e retire r = (r, Inr tok)" "tok = tk_AccessToken (rs_tok r)"
  | (refused) "accessToken e retire r = (r, Inl NeedsAuth)" "\<not> Authorized r (me_lockNow e)"
  | (refreshed) t r' where "accessToken e retire r = (r', Inr (tk_AccessToken t))" "issued (me_post e) (me_postNow e) t"
      "rs_tok r' = t" "rs_refusedUntil r' = zero_time" "rs_gen r' = rs_gen r"
      "rs_sent r' = rs_sent r @ [SentRefresh (tk_RefreshToken (rs_tok r))]" "rs_tokenCalls r' = rs_tokenCalls r"
  | (dead) r' where "accessToken e retire r = (r', Inl NeedsAuth)" "rejected (me_post e) (me_postNow e)"
      "rs_tok r' = zero_tokens" "rs_gen r' = rs_gen r"
      "rs_sent r' = rs_sent r @ [SentRefresh (tk_RefreshToken (rs_tok r))]" "rs_tokenCalls r' = rs_tokenCalls r"
  | (failed) r' where "accessToken e retire r = (r', Inl Failed)" "rs_tok r' = rs_tok r" "rs_gen r' = rs_gen r"
      "rs_refusedUntil r' = rs_refusedUntil r"
      "rs_sent r' = rs_sent r @ [SentRefresh (tk_RefreshToken (rs_tok r))]" "rs_tokenCalls r' = rs_tokenCalls r"
proof (cases "usableToken r retire (me_now e)")
  case (Some tok)
  then show thesis by (intro held) (auto simp: accessToken_def usableToken_def Let_def split: if_splits)
next
  case None
  show thesis
  proof (cases "decide r retire (me_lockNow e)")
    case Refuse
    with None show thesis by (intro refused) (auto simp: accessToken_def decide_def Authorized_def Let_def split: if_splits)
  next
    case (UseToken tok)
    with None show thesis by (intro held) (auto simp: accessToken_def decide_def Let_def split: if_splits)
  next
    case (Refresh refresh)
    then have rt: "refresh = tk_RefreshToken (rs_tok r)" by (auto simp: decide_def Let_def split: if_splits)
    define r1 where "r1 = log_sent (SentRefresh (tk_RefreshToken (rs_tok r))) (beginExchange r)"
    show thesis
    proof (cases "postToken (me_post e) (me_postNow e)")
      case (Inr t)
      show thesis
      proof (rule refreshed)
        show "accessToken e retire r = (endExchange (adopt (me_saved e) t False r1), Inr (tk_AccessToken t))"
          using None Refresh rt Inr by (simp add: accessToken_def r1_def)
      qed (use Inr in \<open>simp_all add: issued_def r1_def log_sent_def beginExchange_def endExchange_def adopt_def adopt_live_def store_save_def\<close>)
    next
      case (Inl err)
      then have "err = InvalidGrant \<or> err = Failed"
        by (auto simp: postToken_def split: reply.splits option.splits if_splits)
      then show thesis
      proof
        assume err: "err = InvalidGrant"
        show thesis
        proof (rule dead)
          show "accessToken e retire r = (endExchange (discard (me_saved e) r1), Inl NeedsAuth)"
            using None Refresh rt Inl err by (simp add: accessToken_def r1_def)
        qed (use Inl err in \<open>simp_all add: rejected_def r1_def log_sent_def beginExchange_def endExchange_def discard_def store_save_def\<close>)
      next
        assume err: "err = Failed"
        show thesis
        proof (rule failed)
          show "accessToken e retire r = (endExchange r1, Inl Failed)"
            using None Refresh rt Inl err by (simp add: accessToken_def r1_def)
        qed (simp_all add: r1_def log_sent_def beginExchange_def endExchange_def)
      qed
    qed
  qed
qed

definition refreshes :: "sent list \<Rightarrow> nat" where
  "refreshes sends = length (filter (\<lambda>x. case x of SentRefresh _ \<Rightarrow> True | _ \<Rightarrow> False) sends)"

lemma refreshes_simps [simp]:
  "refreshes [] = 0" "refreshes (a @ b) = refreshes a + refreshes b"
  "refreshes (SentRefresh x # a) = Suc (refreshes a)" "refreshes (SentWebchat y # a) = refreshes a"
  "refreshes (SentCode z # a) = refreshes a"
  by (simp_all add: refreshes_def)

text \<open>The credential is the one before, one the platform issued, or none after a rejection.\<close>

definition credential_ok :: "mint_env list \<Rightarrow> tokens \<Rightarrow> tokens \<Rightarrow> bool" where
  "credential_ok es t t' \<longleftrightarrow> t' = t \<or> (\<exists>e \<in> set es. issued (me_post e) (me_postNow e) t') \<or>
     t' = zero_tokens \<and> (\<exists>e \<in> set es. rejected (me_post e) (me_postNow e))"

lemma mint_spec:
  assumes "mint e retire r = (r', used, res)"
  shows "credential_ok [e] (rs_tok r) (rs_tok r')" "rs_gen r' = rs_gen r"
    "refreshes (rs_sent r') \<le> refreshes (rs_sent r) + 1" "rs_tokenCalls r' = rs_tokenCalls r"
    "res = Inl NeedsAuth \<Longrightarrow> \<not> Authorized r' (me_lockNow e)"
proof -
  have web: "webchat_result (me_web e) \<noteq> Inl NeedsAuth"
    by (auto simp: webchat_result_def split: reply.splits option.splits)
  have dead_auth: "\<not> Authorized x now" if "rs_tok x = zero_tokens" for x now
    using that by (simp add: Authorized_def tokens_valid_def zero_tokens_def)
  have "credential_ok [e] (rs_tok r) (rs_tok r') \<and> rs_gen r' = rs_gen r \<and> refreshes (rs_sent r') \<le> refreshes (rs_sent r) + 1 \<and>
      rs_tokenCalls r' = rs_tokenCalls r \<and> (res = Inl NeedsAuth \<longrightarrow> \<not> Authorized r' (me_lockNow e))"
    by (cases rule: access_cases [of e retire r])
       (use assms web dead_auth in \<open>auto simp: mint_def credential_ok_def log_sent_def\<close>)
  then show "credential_ok [e] (rs_tok r) (rs_tok r')" "rs_gen r' = rs_gen r"
    "refreshes (rs_sent r') \<le> refreshes (rs_sent r) + 1" "rs_tokenCalls r' = rs_tokenCalls r"
    "res = Inl NeedsAuth \<Longrightarrow> \<not> Authorized r' (me_lockNow e)" by auto
qed

text \<open>The outcome of a call in terms of its last mint.\<close>

lemma URL_cases:
  assumes "URL e1 e2 now r = (r', res)"
  obtains ra resa where
    "r' = (if resa = Inl Unauthorized \<or> resa = Inl Forbidden then holdOff (rs_gen ra) now ra else ra)"
    "res = (if resa = Inl Unauthorized \<or> resa = Inl Forbidden then Inl NeedsAuth else resa)"
    "credential_ok [e1, e2] (rs_tok r) (rs_tok ra)" "rs_tokenCalls ra = rs_tokenCalls r"
    "refreshes (rs_sent ra) \<le> refreshes (rs_sent r) + 2"
    "resa = Inl NeedsAuth \<Longrightarrow> \<not> Authorized ra (me_lockNow e1) \<or> \<not> Authorized ra (me_lockNow e2)"
proof -
  obtain r1 used res1 where m1: "mint e1 '''' r = (r1, used, res1)" by (cases "mint e1 '''' r") auto
  obtain r2 used2 res2 where m2: "mint e2 used r1 = (r2, used2, res2)" by (cases "mint e2 used r1") auto
  note s1 = mint_spec [OF m1] and s2 = mint_spec [OF m2]
  define ra where "ra = (if res1 = Inl Unauthorized then r2 else r1)"
  define resa where "resa = (if res1 = Inl Unauthorized then res2 else res1)"
  have gen: "rs_gen ra = rs_gen r" using s1(2) s2(2) by (simp add: ra_def)
  have "URL e1 e2 now r = (if resa = Inl Unauthorized \<or> resa = Inl Forbidden then (holdOff (rs_gen r) now ra, Inl NeedsAuth) else (ra, resa))"
    by (auto simp: URL_def m1 m2 Let_def ra_def resa_def)
  with assms gen have "r' = (if resa = Inl Unauthorized \<or> resa = Inl Forbidden then holdOff (rs_gen ra) now ra else ra)"
      "res = (if resa = Inl Unauthorized \<or> resa = Inl Forbidden then Inl NeedsAuth else resa)"
    by (auto split: if_splits)
  moreover have "credential_ok [e1, e2] (rs_tok r) (rs_tok ra)"
    using s1(1) s2(1) by (auto simp: ra_def credential_ok_def)
  moreover have "rs_tokenCalls ra = rs_tokenCalls r" "refreshes (rs_sent ra) \<le> refreshes (rs_sent r) + 2"
    using s1(3,4) s2(3,4) by (auto simp: ra_def)
  moreover have "resa = Inl NeedsAuth \<Longrightarrow> \<not> Authorized ra (me_lockNow e1) \<or> \<not> Authorized ra (me_lockNow e2)"
    using s1(5) s2(5) by (auto simp: ra_def resa_def split: if_splits)
  ultimately show thesis by (rule that)
qed

lemma holdOff_unauthorized: "\<not> Authorized (holdOff (rs_gen r) now r) now"
  by (simp add: holdOff_def Authorized_def less_time_def refusalCooldown_def Minute_def Second_def)

text \<open>A provider that is not authorized becomes so, without an operator, only when a cooldown ends.\<close>

definition lapsed_between :: "time \<Rightarrow> time \<Rightarrow> restream \<Rightarrow> bool" where
  "lapsed_between t0 t r \<longleftrightarrow> t0 < rs_refusedUntil r \<and> rs_refusedUntil r \<le> t"

lemma tokens_valid_earlier: "tokens_valid tk t \<Longrightarrow> t0 \<le> t \<Longrightarrow> tokens_valid tk t0"
  by (auto simp: tokens_valid_def intro: le_less_trans)

lemma unauthorized_until: "\<not> Authorized r t0 \<Longrightarrow> t0 \<le> t \<Longrightarrow> Authorized r t \<Longrightarrow> lapsed_between t0 t r"
  using tokens_valid_earlier by (auto simp: Authorized_def lapsed_between_def)

lemma URL_needs_auth:
  assumes "URL e1 e2 now r = (r', Inl NeedsAuth)"
  shows "\<exists>t0 \<in> {me_lockNow e1, me_lockNow e2, now}. \<not> Authorized r' t0"
  using assms by (rule URL_cases) (use holdOff_unauthorized in \<open>auto split: if_splits\<close>)

section \<open>Properties\<close>

text \<open>
  C21: A callback gets through, by succeeding, by having its code sent to the platform or by
  changing the credential, only with a state that \<open>LoginURL\<close> issued within the last ten minutes,
  and no more often than that state was issued, whatever starts, callbacks and mints come in
  whatever order; no more than 64 are ever pending.
\<close>

theorem login_states_single_use:
  assumes "rs_pending r = []" "login_run ops r = (r', through)"
  shows "length (rs_pending r') \<le> 64 \<and>
    (\<forall>s. length (filter (\<lambda>(s', _). s' = s) through) \<le> starts s ops) \<and>
    (\<forall>(s, now) \<in> set through. \<exists>t. Start t (Some s) \<in> set ops \<and> \<not> time_Add t loginStateTTL < now)"
proof -
  have inv: "login_inv ops r' through" using login_run_inv [OF assms(1), of ops] by (simp add: assms(2))
  then have "length (filter (\<lambda>(s', _). s' = s) through) + (if gm_get (rs_pending r') s = None then 0 else 1) \<le> starts s ops" for s
    unfolding login_inv_def by blast
  then have "length (filter (\<lambda>(s', _). s' = s) through) \<le> starts s ops" for s
    by (meson add_leD1)
  moreover have "length (rs_pending r') \<le> 64" using inv by (simp add: login_inv_def maxPendingLogins_def)
  ultimately show ?thesis using login_invD(2) [OF inv] by blast
qed

text \<open>A provider for the demonstrations, and a callback that arrives twice.\<close>

definition demo_restream :: restream where
  "demo_restream = \<lparr>rs_clientID = ''id'', rs_redirectURI = ''http://h/chat/auth/callback'', rs_apiBase = defaultRestreamAPI,
     rs_tok = demo_tokens ''r1'', rs_pending = [], rs_pendingSeq = 0, rs_refusedUntil = zero_time, rs_gen = 0,
     rs_tokenCalls = 0, rs_stored = demo_tokens ''r1'', rs_sent = []\<rparr>"

definition demo_token_reply :: reply where
  "demo_token_reply = Reply 200 \<lparr>bd_text = '''', bd_json = Some (RObj
     [(''access_token'', RStr ''a2''), (''refresh_token'', RStr ''r2''), (''expires_in'', RNum ''3600''), (''scope'', RStr ''chat.read'')])\<rparr>"

definition demo_complete :: complete_env where
  "demo_complete = \<lparr>ce_now = Time 5, ce_reply = demo_token_reply, ce_replyNow = Time 6, ce_saved = True\<rparr>"

definition twice :: "login_op list" where
  "twice = [Start (Time 0) (Some ''xyz''), Finish demo_complete ''c'' ''xyz'', Finish demo_complete ''c'' ''xyz'']"

lemma login_states_single_use_witness:
  "length (rs_pending (fst (login_run twice demo_restream))) \<le> 64 \<and>
   snd (login_run twice demo_restream) = [(''xyz'', Time 5)] \<and>
   rs_sent (fst (login_run twice demo_restream)) = [SentCode ''c'']"
proof -
  have p: "rs_pending demo_restream = []" by (simp add: demo_restream_def)
  obtain r' through where run: "login_run twice demo_restream = (r', through)" by force
  have "starts ''xyz'' twice = 1" by (simp add: starts_def twice_def)
  moreover have "length (rs_pending r') \<le> 64 \<and> length (filter (\<lambda>(s, _). s = ''xyz'') through) \<le> starts ''xyz'' twice"
    using login_states_single_use [OF p run] by blast
  moreover have "snd (login_run twice demo_restream) = [(''xyz'', Time 5)]"
    "rs_sent (fst (login_run twice demo_restream)) = [SentCode ''c'']" by code_simp+
  ultimately show ?thesis by (simp add: run)
qed

text \<open>
  C22: A call for a chat URL refreshes at most twice; the credential it leaves is the one it
  found, one the platform issued during the call, or none, and none only after the platform
  rejected the grant itself with a 400 \<open>invalid_grant\<close>; when it reports that authorization is
  needed, the provider it leaves says the same at one of the readings of the clock the call took,
  and goes on saying it until a new credential, unless the cooldown of a refusal ends; and no
  exchange is left open.  The readings of the clock may be any.
\<close>

theorem url_contract:
  assumes "URL e1 e2 now r = (r', res)"
  shows "refreshes (rs_sent r') \<le> refreshes (rs_sent r) + 2 \<and> rs_tokenCalls r' = rs_tokenCalls r \<and>
    credential_ok [e1, e2] (rs_tok r) (rs_tok r') \<and>
    (res = Inl NeedsAuth \<longrightarrow>
       (\<exists>t0 \<in> {me_lockNow e1, me_lockNow e2, now}. \<not> Authorized r' t0 \<and>
          (\<forall>t \<ge> t0. Authorized r' t \<longrightarrow> t0 < rs_refusedUntil r' \<and> rs_refusedUntil r' \<le> t)))"
  using assms
proof (rule URL_cases)
  fix ra resa
  assume r': "r' = (if resa = Inl Unauthorized \<or> resa = Inl Forbidden then holdOff (rs_gen ra) now ra else ra)"
    and rest: "credential_ok [e1, e2] (rs_tok r) (rs_tok ra)" "rs_tokenCalls ra = rs_tokenCalls r"
    "refreshes (rs_sent ra) \<le> refreshes (rs_sent r) + 2"
  have "rs_sent r' = rs_sent ra" "rs_tokenCalls r' = rs_tokenCalls ra" "rs_tok r' = rs_tok ra"
    by (simp_all add: r' holdOff_def)
  with rest URL_needs_auth [of e1 e2 now r r'] unauthorized_until [of r'] assms show ?thesis
    unfolding lapsed_between_def by metis
qed

text \<open>
  The platform refuses a token it just issued, while the clock moves on: two refreshes, then the
  provider holds off from the last reading for five minutes.
\<close>

definition demo_mint :: mint_env where
  "demo_mint = \<lparr>me_now = Time 9000, me_lockNow = Time 9000, me_post = demo_token_reply, me_postNow = Time 9000, me_saved = True,
     me_web = Reply 401 \<lparr>bd_text = '''', bd_json = None\<rparr>\<rparr>"

definition demo_mint_later :: mint_env where
  "demo_mint_later = demo_mint\<lparr>me_now := Time 9001, me_lockNow := Time 9002, me_postNow := Time 9003\<rparr>"

lemma url_contract_witness:
  "(let (r', res) = URL demo_mint demo_mint_later (Time 9004) demo_restream in
     res = Inl NeedsAuth \<and> refreshes (rs_sent r') \<le> 2 \<and> rs_refusedUntil r' = Time (9004 + 5 * Minute) \<and>
     (\<exists>t0 \<le> Time 9004. \<forall>t \<ge> t0. Authorized r' t \<longrightarrow> Time (9004 + 5 * Minute) \<le> t))"
proof -
  obtain r' res where U: "URL demo_mint demo_mint_later (Time 9004) demo_restream = (r', res)" by force
  have "snd (URL demo_mint demo_mint_later (Time 9004) demo_restream) = Inl NeedsAuth"
    "rs_refusedUntil (fst (URL demo_mint demo_mint_later (Time 9004) demo_restream)) = Time (9004 + 5 * Minute)" by code_simp+
  moreover have "me_lockNow demo_mint = Time 9000" "me_lockNow demo_mint_later = Time 9002" "rs_sent demo_restream = []"
    by (simp_all add: demo_mint_def demo_mint_later_def demo_restream_def)
  moreover have early: "Time 9000 \<le> Time 9004" "Time 9002 \<le> Time 9004" by (simp_all add: less_eq_time_def)
  moreover have "\<exists>t0 \<in> {Time 9000, Time 9002, Time 9004}. \<forall>t \<ge> t0. Authorized r' t \<longrightarrow> rs_refusedUntil r' \<le> t"
    using url_contract [OF U] U calculation(1,3,4) by auto
  then have "\<exists>t0 \<le> Time 9004. \<forall>t \<ge> t0. Authorized r' t \<longrightarrow> rs_refusedUntil r' \<le> t" using early by blast
  ultimately show ?thesis using url_contract [OF U] U by (simp add: refreshes_def)
qed

end
