(* ===== verification/ChatSystem.thy ===== *)
theory ChatSystem
  imports Restream
begin

text \<open>
  server/internal/chat/restream.go, the concurrent side: any number of goroutines mint and
  complete at once, taking \<open>refreshMu\<close> for an exchange and \<open>mu\<close> for each look at the shared
  state.  A step is one goroutine between two lock operations, one network round trip or one
  write of the token file.  The platform is known only by what it documents: a refresh spends
  the token it carries and answers with its successor, and \<open>invalid_grant\<close> answers a token it
  no longer honours.  Everything it could do beyond that, and every answer or write that is
  lost, sets the ghost field \<open>ch_lost\<close>.
\<close>

section \<open>The system\<close>

datatype purpose = ForMint string | ForLogin string

datatype chat_pc =
    Away
  | Waiting purpose
  | Holding purpose
  | Asking purpose string
  | Heard purpose reply
  | Saving tokens
  | Closing

text \<open>\<open>ch_valid\<close>: the refresh tokens the platform honours.\<close>

record chat_sys =
  ch_r :: restream
  ch_lock :: "nat option"
  ch_pc :: "nat \<Rightarrow> chat_pc"
  ch_valid :: "string set"
  ch_lost :: bool

definition issues :: "reply \<Rightarrow> string \<Rightarrow> bool" where
  "issues rep new \<longleftrightarrow>
     (\<exists>b p. rep = Reply 200 b \<and> decode_token_payload (bd_json b) = Some p \<and>
        tp_AccessToken p \<noteq> '''' \<and> tp_RefreshToken p \<noteq> '''' \<and> tp_RefreshToken p = new)"

fun turned_down :: "reply \<Rightarrow> bool" where
  "turned_down NoReply = False"
| "turned_down (Reply status b) = (status \<noteq> 200)"

text \<open>An answer to a request carrying \<open>x\<close>, what is honoured after it, and whether something was lost.\<close>

inductive platform :: "purpose \<Rightarrow> string \<Rightarrow> string set \<Rightarrow> reply \<Rightarrow> string set \<Rightarrow> bool \<Rightarrow> bool" where
  rotate: "x \<in> V \<Longrightarrow> issues rep new \<Longrightarrow> platform (ForMint retire) x V rep (insert new (V - {x})) False"
| grant: "issues rep new \<Longrightarrow> W \<subseteq> V \<Longrightarrow> platform (ForLogin code) x V rep (insert new W) False"
| reject: "x \<notin> V \<Longrightarrow> turned_down rep \<Longrightarrow> platform p x V rep V False"
| unavailable: "turned_down rep \<Longrightarrow> \<not> rejected rep zero_time \<Longrightarrow> platform p x V rep V False"
| wrong_code: "turned_down rep \<Longrightarrow> platform (ForLogin code) x V rep V False"
| answer_lost: "platform p x V rep W True"

definition set_pc :: "nat \<Rightarrow> chat_pc \<Rightarrow> chat_sys \<Rightarrow> chat_sys" where
  "set_pc i pc s = s\<lparr>ch_pc := (ch_pc s)(i := pc)\<rparr>"

fun authorizes :: "purpose \<Rightarrow> bool" where
  "authorizes (ForMint _) = False"
| "authorizes (ForLogin _) = True"

inductive chat_step :: "chat_sys \<Rightarrow> chat_sys \<Rightarrow> bool" where
  start: "chat_step s (s\<lparr>ch_r := fst (LoginURL now st (ch_r s))\<rparr>)"
| callback: "ch_pc s i = Away \<Longrightarrow> code \<noteq> '''' \<Longrightarrow> claim_login now st (ch_r s) = (r, ok) \<Longrightarrow>
    chat_step s (set_pc i (if ok then Waiting (ForLogin code) else Away) (s\<lparr>ch_r := r\<rparr>))"
| mint_call: "ch_pc s i = Away \<Longrightarrow> usableToken (ch_r s) retire now = None \<Longrightarrow>
    chat_step s (set_pc i (Waiting (ForMint retire)) s)"
| lock: "ch_pc s i = Waiting p \<Longrightarrow> ch_lock s = None \<Longrightarrow> chat_step s (set_pc i (Holding p) (s\<lparr>ch_lock := Some i\<rparr>))"
| unneeded: "ch_pc s i = Holding (ForMint retire) \<Longrightarrow> decide (ch_r s) retire now = d \<Longrightarrow> d = Refuse \<or> d = UseToken tok \<Longrightarrow>
    chat_step s (set_pc i Away (s\<lparr>ch_lock := None\<rparr>))"
| refresh: "ch_pc s i = Holding (ForMint retire) \<Longrightarrow> decide (ch_r s) retire now = Refresh rt \<Longrightarrow>
    chat_step s (set_pc i (Asking (ForMint retire) rt) (s\<lparr>ch_r := log_sent (SentRefresh rt) (beginExchange (ch_r s))\<rparr>))"
| exchange: "ch_pc s i = Holding (ForLogin code) \<Longrightarrow>
    chat_step s (set_pc i (Asking (ForLogin code) code) (s\<lparr>ch_r := log_sent (SentCode code) (beginExchange (ch_r s))\<rparr>))"
| answer: "ch_pc s i = Asking p x \<Longrightarrow> platform p x (ch_valid s) rep V l \<Longrightarrow>
    chat_step s (set_pc i (Heard p rep) (s\<lparr>ch_valid := V, ch_lost := ch_lost s \<or> l\<rparr>))"
| adopted: "ch_pc s i = Heard p rep \<Longrightarrow> postToken rep now = Inr t \<Longrightarrow> \<not> (authorizes p \<and> missing_scope t) \<Longrightarrow>
    chat_step s (set_pc i (Saving t) (s\<lparr>ch_r := adopt_live t (authorizes p) (ch_r s)\<rparr>))"
| scope: "ch_pc s i = Heard (ForLogin code) rep \<Longrightarrow> postToken rep now = Inr t \<Longrightarrow> missing_scope t \<Longrightarrow>
    chat_step s (set_pc i Closing (s\<lparr>ch_lost := True\<rparr>))"
| discarded: "ch_pc s i = Heard (ForMint retire) rep \<Longrightarrow> postToken rep now = Inl InvalidGrant \<Longrightarrow>
    chat_step s (set_pc i (Saving zero_tokens) (s\<lparr>ch_r := (ch_r s)\<lparr>rs_tok := zero_tokens\<rparr>\<rparr>))"
| failure: "ch_pc s i = Heard p rep \<Longrightarrow> postToken rep now = Inl err \<Longrightarrow> authorizes p \<or> err \<noteq> InvalidGrant \<Longrightarrow>
    chat_step s (set_pc i Closing s)"
| saved: "ch_pc s i = Saving t \<Longrightarrow>
    chat_step s (set_pc i Closing (s\<lparr>ch_r := store_save ok t (ch_r s), ch_lost := ch_lost s \<or> \<not> ok\<rparr>))"
| finish: "ch_pc s i = Closing \<Longrightarrow> chat_step s (set_pc i Away (s\<lparr>ch_r := endExchange (ch_r s), ch_lock := None\<rparr>))"
| hold_off: "chat_step s (s\<lparr>ch_r := holdOff gen now (ch_r s)\<rparr>)"
| revoked: "chat_step s (s\<lparr>ch_valid := V, ch_lost := True\<rparr>)"

definition chat_init :: "restream \<Rightarrow> string set \<Rightarrow> chat_sys" where
  "chat_init r V = \<lparr>ch_r = r, ch_lock = None, ch_pc = (\<lambda>_. Away), ch_valid = V, ch_lost = False\<rparr>"

inductive chat_reachable :: "restream \<Rightarrow> string set \<Rightarrow> chat_sys \<Rightarrow> bool" for r V where
  init: "chat_reachable r V (chat_init r V)"
| step: "chat_reachable r V s \<Longrightarrow> chat_step s s' \<Longrightarrow> chat_reachable r V s'"

section \<open>The invariant\<close>

fun locked_pc :: "chat_pc \<Rightarrow> bool" where
  "locked_pc Away = False"
| "locked_pc (Waiting _) = False"
| "locked_pc _ = True"

fun exchanging :: "chat_pc \<Rightarrow> bool" where
  "exchanging (Asking _ _) = True"
| "exchanging (Heard _ _) = True"
| "exchanging (Saving _) = True"
| "exchanging Closing = True"
| "exchanging _ = False"

lemma exchanging_locked: "exchanging pc \<Longrightarrow> locked_pc pc"
  by (cases pc) auto

definition lock_inv :: "chat_sys \<Rightarrow> bool" where
  "lock_inv s \<longleftrightarrow> (\<forall>i. locked_pc (ch_pc s i) \<longleftrightarrow> ch_lock s = Some i) \<and>
     rs_tokenCalls (ch_r s) = (case ch_lock s of None \<Rightarrow> 0 | Some i \<Rightarrow> if exchanging (ch_pc s i) then 1 else 0)"

text \<open>A credential the platform honours, or none when there was none to begin with (\<open>new\<close>).\<close>

definition sound :: "bool \<Rightarrow> string set \<Rightarrow> tokens \<Rightarrow> bool" where
  "sound new V t \<longleftrightarrow> tk_RefreshToken t \<in> V \<or> new \<and> t = zero_tokens"

text \<open>What the holder of \<open>refreshMu\<close> knows, by where it is.\<close>

fun holder_inv :: "bool \<Rightarrow> string set \<Rightarrow> restream \<Rightarrow> chat_pc \<Rightarrow> bool" where
  "holder_inv new V r (Asking p x) =
     (sound new V (rs_tok r) \<and> rs_stored r = rs_tok r \<and> (\<not> authorizes p \<longrightarrow> x \<in> V))"
| "holder_inv new V r (Heard p rep) =
     (rs_stored r = rs_tok r \<and>
      ((\<exists>rt. issues rep rt \<and> rt \<in> V) \<or>
       turned_down rep \<and> (\<not> authorizes p \<longrightarrow> \<not> rejected rep zero_time) \<and> sound new V (rs_tok r)))"
| "holder_inv new V r (Saving t) = (rs_tok r = t \<and> sound new V t)"
| "holder_inv new V r _ = (sound new V (rs_tok r) \<and> rs_stored r = rs_tok r)"

definition credential_inv :: "bool \<Rightarrow> chat_sys \<Rightarrow> bool" where
  "credential_inv new s \<longleftrightarrow>
     ch_lost s \<or> holder_inv new (ch_valid s) (ch_r s) (case ch_lock s of None \<Rightarrow> Away | Some i \<Rightarrow> ch_pc s i)"


lemma token_frames [simp]:
  "rs_tok (fst (LoginURL now st r)) = rs_tok r" "rs_stored (fst (LoginURL now st r)) = rs_stored r"
  "rs_tokenCalls (fst (LoginURL now st r)) = rs_tokenCalls r"
  "rs_tok (fst (claim_login now st2 r)) = rs_tok r" "rs_stored (fst (claim_login now st2 r)) = rs_stored r"
  "rs_tokenCalls (fst (claim_login now st2 r)) = rs_tokenCalls r"
  "rs_tok (holdOff gen now r) = rs_tok r" "rs_stored (holdOff gen now r) = rs_stored r"
  "rs_tokenCalls (holdOff gen now r) = rs_tokenCalls r"
proof -
  have prune: "rs_tok (prunePending now r) = rs_tok r \<and> rs_stored (prunePending now r) = rs_stored r \<and>
      rs_tokenCalls (prunePending now r) = rs_tokenCalls r" for now and r :: restream
    by (simp add: prunePending_def)
  have evict: "rs_tok (evict_full r) = rs_tok r \<and> rs_stored (evict_full r) = rs_stored r \<and>
      rs_tokenCalls (evict_full r) = rs_tokenCalls r" for r
  proof (induction r rule: evict_full.induct)
    case (1 r)
    show ?case
      by (cases "length (rs_pending r) < maxPendingLogins"; subst (1 2 3) evict_full.simps) (use 1 in \<open>auto simp: evictOldestPending_def\<close>)
  qed
  show "rs_tok (fst (LoginURL now st r)) = rs_tok r" "rs_stored (fst (LoginURL now st r)) = rs_stored r"
    "rs_tokenCalls (fst (LoginURL now st r)) = rs_tokenCalls r"
    by (simp_all add: LoginURL_def Let_def evict prune split: option.splits)
  show "rs_tok (fst (claim_login now st2 r)) = rs_tok r" "rs_stored (fst (claim_login now st2 r)) = rs_stored r"
    "rs_tokenCalls (fst (claim_login now st2 r)) = rs_tokenCalls r"
    by (simp_all add: claim_login_def Let_def prune)
qed (simp_all add: holdOff_def)

lemma token_updates [simp]:
  "rs_tok (log_sent x r) = rs_tok r" "rs_stored (log_sent x r) = rs_stored r" "rs_tokenCalls (log_sent x r) = rs_tokenCalls r"
  "rs_tok (beginExchange r) = rs_tok r" "rs_stored (beginExchange r) = rs_stored r"
  "rs_tokenCalls (beginExchange r) = rs_tokenCalls r + 1"
  "rs_tok (endExchange r) = rs_tok r" "rs_stored (endExchange r) = rs_stored r"
  "rs_tokenCalls (endExchange r) = rs_tokenCalls r - 1"
  "rs_tok (adopt_live t a r) = t" "rs_stored (adopt_live t a r) = rs_stored r" "rs_tokenCalls (adopt_live t a r) = rs_tokenCalls r"
  "rs_tok (store_save ok t r) = rs_tok r" "rs_stored (store_save ok t r) = (if ok then t else rs_stored r)"
  "rs_tokenCalls (store_save ok t r) = rs_tokenCalls r"
  by (simp_all add: log_sent_def beginExchange_def endExchange_def adopt_live_def store_save_def)

lemma set_pc_simps [simp]:
  "ch_r (set_pc i pc s) = ch_r s" "ch_lock (set_pc i pc s) = ch_lock s" "ch_pc (set_pc i pc s) = (ch_pc s)(i := pc)"
  "ch_valid (set_pc i pc s) = ch_valid s" "ch_lost (set_pc i pc s) = ch_lost s"
  by (simp_all add: set_pc_def)

lemma lock_inv_D:
  assumes "lock_inv s"
  shows "locked_pc (ch_pc s i) \<Longrightarrow> ch_lock s = Some i" "ch_lock s = Some i \<Longrightarrow> locked_pc (ch_pc s i)"
  using assms by (auto simp: lock_inv_def)

lemma lock_inv_init: "rs_tokenCalls r = 0 \<Longrightarrow> lock_inv (chat_init r V)"
  by (simp add: lock_inv_def chat_init_def)

lemma claim_login_frame:
  "claim_login now st r = (r', ok) \<Longrightarrow>
     rs_tok r' = rs_tok r \<and> rs_stored r' = rs_stored r \<and> rs_tokenCalls r' = rs_tokenCalls r"
  using token_frames(4-6) [of now st r] by simp

lemma lock_inv_outside:
  assumes "lock_inv s" "\<not> locked_pc (ch_pc s i)" "\<not> locked_pc pc" "ch_lock s' = ch_lock s"
    "rs_tokenCalls (ch_r s') = rs_tokenCalls (ch_r s)" "ch_pc s' = (ch_pc s)(i := pc)"
  shows "lock_inv s'"
  using assms by (auto simp: lock_inv_def split: option.splits)

lemma lock_inv_inside:
  assumes "lock_inv s" "ch_pc s i = pc0" "locked_pc pc0" "ch_pc s' = (ch_pc s)(i := pc)"
    "ch_lock s' = (if locked_pc pc then Some i else None)"
    "rs_tokenCalls (ch_r s') = rs_tokenCalls (ch_r s) + (if exchanging pc then 1 else 0) - (if exchanging pc0 then 1 else 0)"
  shows "lock_inv s'"
proof -
  have l: "ch_lock s = Some i" using assms(1-3) lock_inv_D(1) by blast
  then have "rs_tokenCalls (ch_r s) = (if exchanging pc0 then 1 else 0)" using assms(1,2) by (simp add: lock_inv_def)
  with assms(6) have c: "rs_tokenCalls (ch_r s') = (if exchanging pc then 1 else 0)" by simp
  have "locked_pc (ch_pc s j) \<longleftrightarrow> j = i" for j using assms(1) l by (auto simp: lock_inv_def)
  with c assms(4,5) exchanging_locked [of pc] show ?thesis by (auto simp: lock_inv_def)
qed

lemma lock_inv_step:
  assumes "chat_step s s'" "lock_inv s"
  shows "lock_inv s'"
  using assms(1)
proof cases
  case (callback i code now st r ok)
  with claim_login_frame [OF callback(4)] show ?thesis by (intro lock_inv_outside [OF assms(2), of i]) auto
next
  case (mint_call i retire now)
  then show ?thesis by (intro lock_inv_outside [OF assms(2), of i]) auto
next
  case (lock i p)
  with assms(2) show ?thesis by (auto simp: lock_inv_def)
next
  case (unneeded i retire now d tok)
  then show ?thesis by (intro lock_inv_inside [OF assms(2) unneeded(2)]) auto
next
  case (refresh i retire now rt)
  then show ?thesis using lock_inv_D(1) [OF assms(2), of i] by (intro lock_inv_inside [OF assms(2) refresh(2)]) auto
next
  case (exchange i code)
  then show ?thesis using lock_inv_D(1) [OF assms(2), of i] by (intro lock_inv_inside [OF assms(2) exchange(2)]) auto
next
  case (answer i p x rep V l)
  then show ?thesis using lock_inv_D(1) [OF assms(2), of i] by (intro lock_inv_inside [OF assms(2) answer(2)]) auto
next
  case (adopted i p rep now t)
  then show ?thesis using lock_inv_D(1) [OF assms(2), of i] by (intro lock_inv_inside [OF assms(2) adopted(2)]) auto
next
  case (scope i code rep now t)
  then show ?thesis using lock_inv_D(1) [OF assms(2), of i] by (intro lock_inv_inside [OF assms(2) scope(2)]) auto
next
  case (discarded i retire rep now)
  then show ?thesis using lock_inv_D(1) [OF assms(2), of i] by (intro lock_inv_inside [OF assms(2) discarded(2)]) auto
next
  case (failure i p rep now err)
  then show ?thesis using lock_inv_D(1) [OF assms(2), of i] by (intro lock_inv_inside [OF assms(2) failure(2)]) auto
next
  case (saved i t ok)
  then show ?thesis using lock_inv_D(1) [OF assms(2), of i] by (intro lock_inv_inside [OF assms(2) saved(2)]) auto
next
  case (finish i)
  then show ?thesis by (intro lock_inv_inside [OF assms(2) finish(2)]) auto
qed (use assms(2) in \<open>simp_all add: lock_inv_def split: option.split\<close>)

text \<open>A step of a goroutine that does not hold the lock is one the holder does not see.\<close>

lemma credential_inv_other:
  assumes "credential_inv new s" "ch_lock s' = ch_lock s" "ch_valid s' = ch_valid s" "ch_lost s' = ch_lost s"
    "rs_tok (ch_r s') = rs_tok (ch_r s)" "rs_stored (ch_r s') = rs_stored (ch_r s)"
    "\<And>i. ch_lock s = Some i \<Longrightarrow> ch_pc s' i = ch_pc s i"
  shows "credential_inv new s'"
proof -
  have "holder_inv new V (ch_r s') pc = holder_inv new V (ch_r s) pc" for V pc
    using assms(5,6) by (cases pc) auto
  with assms show ?thesis by (cases "ch_lock s") (auto simp: credential_inv_def)
qed

text \<open>A step of the holder.\<close>

lemma credential_inv_holder:
  assumes "ch_pc s i = pc" "locked_pc pc" "lock_inv s" "credential_inv new s"
    and "ch_lost s \<or> holder_inv new (ch_valid s) (ch_r s) pc \<Longrightarrow> ch_lost s' \<or> holder_inv new (ch_valid s') (ch_r s') (ch_pc s' i)"
    and "ch_lock s' = Some i \<or> ch_lock s' = None \<and> ch_pc s' i = Away"
  shows "credential_inv new s'"
proof -
  have "ch_lock s = Some i" using lock_inv_D(1) [OF assms(3)] assms(1,2) by simp
  with assms show ?thesis by (auto simp: credential_inv_def)
qed

lemma issues_postToken: "issues rep rt \<Longrightarrow> \<exists>t. postToken rep now = Inr t \<and> tk_RefreshToken t = rt"
  by (auto simp: issues_def postToken_def token_response_def)

lemma turned_down_postToken: "turned_down rep \<Longrightarrow> \<exists>err. postToken rep now = Inl err"
  by (cases rep) (auto simp: postToken_def)

lemma rejected_any_time: "rejected rep now = rejected rep now'"
  by (simp add: rejected_iff)

lemma decide_refresh: "decide r retire now = Refresh rt \<Longrightarrow> rt = tk_RefreshToken (rs_tok r) \<and> rt \<noteq> ''''"
  by (auto simp: decide_def tokens_valid_def Let_def split: if_splits)

lemma credential_inv_step:
  assumes "chat_step s s'" "lock_inv s" "credential_inv new s"
  shows "credential_inv new s'"
  using assms(1)
proof cases
  case (start now st)
  with assms(3) show ?thesis by (intro credential_inv_other [OF assms(3)]) auto
next
  case (callback i code now st r ok)
  with lock_inv_D(2) [OF assms(2), of i] claim_login_frame [OF callback(4)] show ?thesis
    by (intro credential_inv_other [OF assms(3)]) auto
next
  case (mint_call i retire now)
  with lock_inv_D(2) [OF assms(2), of i] show ?thesis by (intro credential_inv_other [OF assms(3)]) auto
next
  case (lock i p)
  with assms(3) show ?thesis by (auto simp: credential_inv_def)
next
  case (unneeded i retire now d tok)
  then show ?thesis by (intro credential_inv_holder [OF unneeded(2) _ assms(2,3)]) auto
next
  case (refresh i retire now rt)
  then show ?thesis using decide_refresh [OF refresh(3)] lock_inv_D(1) [OF assms(2), of i]
    by (intro credential_inv_holder [OF refresh(2) _ assms(2,3)]) (auto simp: sound_def zero_tokens_def)
next
  case (exchange i code)
  then show ?thesis using lock_inv_D(1) [OF assms(2), of i]
    by (intro credential_inv_holder [OF exchange(2) _ assms(2,3)]) auto
next
  case (answer i p x rep V l)
  show ?thesis
  proof (rule credential_inv_holder [OF answer(2) _ assms(2,3)])
    show "ch_lost s' \<or> holder_inv new (ch_valid s') (ch_r s') (ch_pc s' i)"
      if "ch_lost s \<or> holder_inv new (ch_valid s) (ch_r s) (Asking p x)"
      using answer(3) that unfolding answer(1) by cases auto
  qed (use answer lock_inv_D(1) [OF assms(2), of i] in auto)
next
  case (adopted i p rep now t)
  show ?thesis
  proof (rule credential_inv_holder [OF adopted(2) _ assms(2,3)])
    show "ch_lost s' \<or> holder_inv new (ch_valid s') (ch_r s') (ch_pc s' i)"
      if "ch_lost s \<or> holder_inv new (ch_valid s) (ch_r s) (Heard p rep)"
      using that adopted(3) issues_postToken [of rep _ now] turned_down_postToken [of rep now]
      by (auto simp: adopted(1) sound_def)
  qed (use adopted lock_inv_D(1) [OF assms(2), of i] in auto)
next
  case (scope i code rep now t)
  then show ?thesis by (simp add: credential_inv_def)
next
  case (discarded i retire rep now)
  show ?thesis
  proof (rule credential_inv_holder [OF discarded(2) _ assms(2,3)])
    have "rejected rep zero_time" using discarded(3) rejected_any_time [of rep now zero_time] by (simp add: rejected_def)
    then show "ch_lost s' \<or> holder_inv new (ch_valid s') (ch_r s') (ch_pc s' i)"
      if "ch_lost s \<or> holder_inv new (ch_valid s) (ch_r s) (Heard (ForMint retire) rep)"
      using that discarded(3) issues_postToken [of rep _ now] by (auto simp: discarded(1))
  qed (use discarded lock_inv_D(1) [OF assms(2), of i] in auto)
next
  case (failure i p rep now err)
  show ?thesis
  proof (rule credential_inv_holder [OF failure(2) _ assms(2,3)])
    show "ch_lost s' \<or> holder_inv new (ch_valid s') (ch_r s') (ch_pc s' i)"
      if "ch_lost s \<or> holder_inv new (ch_valid s) (ch_r s) (Heard p rep)"
      using that failure(3) issues_postToken [of rep _ now] by (auto simp: failure(1))
  qed (use failure lock_inv_D(1) [OF assms(2), of i] in auto)
next
  case (saved i t ok)
  then show ?thesis using lock_inv_D(1) [OF assms(2), of i]
    by (intro credential_inv_holder [OF saved(2) _ assms(2,3)]) auto
next
  case (finish i)
  then show ?thesis by (intro credential_inv_holder [OF finish(2) _ assms(2,3)]) auto
next
  case (hold_off gen now)
  then show ?thesis by (intro credential_inv_other [OF assms(3)]) auto
next
  case (revoked V)
  then show ?thesis by (simp add: credential_inv_def)
qed

lemma chat_inv:
  assumes "chat_reachable r V s" "rs_tokenCalls r = 0" "rs_stored r = rs_tok r"
  shows "lock_inv s \<and> (sound new V (rs_tok r) \<longrightarrow> credential_inv new s)"
  using assms(1)
proof induction
  case init
  show ?case using assms lock_inv_init by (auto simp: credential_inv_def chat_init_def)
next
  case (step s s')
  then show ?case using lock_inv_step credential_inv_step by blast
qed


section \<open>Property\<close>

text \<open>
  C7: While no answer, no write and no grant of the platform is lost, any number of concurrent
  mints and authorizations leaves the server with a credential the platform honours: exchanges
  never overlap, every refresh carries a token still honoured, and whenever \<open>tokenCalls\<close> is
  zero, which is what \<open>Drain\<close> waits for, the stored copy is the live one and is honoured.
\<close>

theorem rotation_never_lost:
  assumes "chat_reachable r V s" "rs_tokenCalls r = 0" "rs_stored r = rs_tok r"
    and "tk_RefreshToken (rs_tok r) \<in> V" "\<not> ch_lost s"
  shows "(\<forall>i j. exchanging (ch_pc s i) \<and> exchanging (ch_pc s j) \<longrightarrow> i = j) \<and>
    (\<forall>i retire rt. ch_pc s i = Asking (ForMint retire) rt \<longrightarrow> rt \<in> ch_valid s) \<and>
    (\<forall>i. exchanging (ch_pc s i) \<longrightarrow> rs_tokenCalls (ch_r s) = 1) \<and>
    (rs_tokenCalls (ch_r s) = 0 \<longrightarrow>
       rs_stored (ch_r s) = rs_tok (ch_r s) \<and> tk_RefreshToken (rs_tok (ch_r s)) \<in> ch_valid s)"
proof -
  have l: "lock_inv s" and "credential_inv False s"
    using chat_inv [OF assms(1-3), of False] assms(4) by (auto simp: sound_def)
  then have h: "holder_inv False (ch_valid s) (ch_r s) (case ch_lock s of None \<Rightarrow> Away | Some i \<Rightarrow> ch_pc s i)"
    using assms(5) by (simp add: credential_inv_def)
  have held: "ch_lock s = Some i" if "exchanging (ch_pc s i)" for i
    using lock_inv_D(1) [OF l exchanging_locked [OF that]] .
  have "rs_stored (ch_r s) = rs_tok (ch_r s) \<and> tk_RefreshToken (rs_tok (ch_r s)) \<in> ch_valid s" if idle: "rs_tokenCalls (ch_r s) = 0"
  proof -
    define pc where "pc = (case ch_lock s of None \<Rightarrow> Away | Some i \<Rightarrow> ch_pc s i)"
    have "\<not> exchanging pc" using l idle by (auto simp: lock_inv_def pc_def split: option.splits if_splits)
    with h show ?thesis unfolding pc_def [symmetric] by (cases pc) (auto simp: sound_def)
  qed
  moreover have "rt \<in> ch_valid s" if "ch_pc s i = Asking (ForMint retire) rt" for i retire rt
    using h held [of i] that by simp
  moreover have "rs_tokenCalls (ch_r s) = 1" if "exchanging (ch_pc s i)" for i
    using l held [OF that] that by (simp add: lock_inv_def)
  moreover have "i = j" if "exchanging (ch_pc s i)" "exchanging (ch_pc s j)" for i j
    using held [OF that(1)] held [OF that(2)] by simp
  ultimately show ?thesis by blast
qed

text \<open>A mint that finds its access token about to expire, from the call to the end of the exchange.\<close>

lemma rotation_never_lost_witness:
  "\<exists>s. chat_reachable demo_restream {''r1''} s \<and> \<not> ch_lost s \<and> ch_valid s = {''r2''} \<and>
     rs_stored (ch_r s) = rs_tok (ch_r s) \<and> tk_RefreshToken (rs_tok (ch_r s)) = ''r2''"
proof -
  let ?now = "Time 9000" and ?p = "ForMint ''''" and ?rep = demo_token_reply
  define r1 where "r1 = log_sent (SentRefresh ''r1'') (beginExchange demo_restream)"
  define t where "t = token_response ?now (the (decode_token_payload (case ?rep of Reply _ b \<Rightarrow> bd_json b)))"
  define s1 where "s1 = set_pc 0 (Waiting ?p) (chat_init demo_restream {''r1''})"
  define s2 where "s2 = set_pc 0 (Holding ?p) (s1\<lparr>ch_lock := Some 0\<rparr>)"
  define s3 where "s3 = set_pc 0 (Asking ?p ''r1'') (s2\<lparr>ch_r := r1\<rparr>)"
  define s4 where "s4 = set_pc 0 (Heard ?p ?rep) (s3\<lparr>ch_valid := {''r2''}, ch_lost := ch_lost s3 \<or> False\<rparr>)"
  define s5 where "s5 = set_pc 0 (Saving t) (s4\<lparr>ch_r := adopt_live t False r1\<rparr>)"
  define s6 where "s6 = set_pc 0 Closing (s5\<lparr>ch_r := store_save True t (ch_r s5), ch_lost := ch_lost s5 \<or> \<not> True\<rparr>)"
  define s7 where "s7 = set_pc 0 Away (s6\<lparr>ch_r := endExchange (ch_r s6), ch_lock := None\<rparr>)"
  note defs = s1_def s2_def s3_def s4_def s5_def s6_def
  have facts: "usableToken demo_restream '''' ?now = None" "decide demo_restream '''' ?now = Refresh ''r1''"
    by code_simp+
  have tok: "postToken ?rep ?now = Inr t" "issues ?rep ''r2''" "tk_RefreshToken t = ''r2''"
  proof -
    have "map_option (\<lambda>p. (tp_AccessToken p, tp_RefreshToken p)) (decode_token_payload (case ?rep of Reply _ b \<Rightarrow> bd_json b)) = Some (''a2'', ''r2'')"
      by code_simp
    then show "postToken ?rep ?now = Inr t" "issues ?rep ''r2''" "tk_RefreshToken t = ''r2''"
      by (auto simp: t_def postToken_def issues_def token_response_def demo_token_reply_def)
  qed
  have "chat_step (chat_init demo_restream {''r1''}) s1"
    unfolding s1_def by (rule chat_step.mint_call) (use facts in \<open>simp_all add: chat_init_def\<close>)
  moreover have "chat_step s1 s2" unfolding s2_def by (rule chat_step.lock) (simp_all add: defs chat_init_def)
  moreover have "chat_step s2 s3"
    using chat_step.refresh [of s2 0 "''''" ?now "''r1''"] facts by (simp add: s3_def r1_def s2_def s1_def chat_init_def)
  moreover have "platform ?p ''r1'' (ch_valid s3) ?rep {''r2''} False"
    using platform.rotate [of "''r1''" "{''r1''}" ?rep "''r2''"] tok(2) by (simp add: defs chat_init_def)
  then have "chat_step s3 s4" unfolding s4_def by (intro chat_step.answer) (simp_all add: s3_def)
  moreover have "chat_step s4 s5"
    using chat_step.adopted [of s4 0 ?p ?rep ?now t] tok(1) by (simp add: s5_def s4_def s3_def)
  moreover have "chat_step s5 s6" unfolding s6_def by (rule chat_step.saved) (simp add: s5_def)
  moreover have "chat_step s6 s7" unfolding s7_def by (rule chat_step.finish) (simp add: s6_def)
  ultimately have reach: "chat_reachable demo_restream {''r1''} s7"
    by (meson chat_reachable.init chat_reachable.step)
  have s: "\<not> ch_lost s7" "ch_valid s7 = {''r2''}" "rs_tokenCalls (ch_r s7) = 0"
    by (simp_all add: s7_def defs chat_init_def r1_def demo_restream_def)
  have "rs_tokenCalls demo_restream = 0" "rs_stored demo_restream = rs_tok demo_restream" "tk_RefreshToken (rs_tok demo_restream) \<in> {''r1''}"
    by (simp_all add: demo_restream_def demo_tokens_def)
  with rotation_never_lost [OF reach] s reach show ?thesis by blast
qed

end
