(* ===== verification/ChatRoutes.thy ===== *)
theory ChatRoutes
  imports Http ChatSystem RateLimiter Connection
begin

text \<open>
  server/internal/api/chat.go: the routes that mint a chat URL, start an authorization and
  complete it, and the chat status published in the state.  A handler maps the request, the
  headers already set and the API's state to the new state and a response.  The provider is a
  value of the Go interface \<open>chat.Provider\<close>; \<open>restream_provider\<close> is the implementation there is.
\<close>

section \<open>The provider interface\<close>

text \<open>\<open>'e\<close> is what a call meets (the clock, the network), \<open>'p\<close> the provider's state.\<close>

record ('e, 'p) provider =
  pv_Name :: string
  pv_Authorized :: "'e \<Rightarrow> 'p \<Rightarrow> bool"
  pv_URL :: "'e \<Rightarrow> 'p \<Rightarrow> 'p \<times> (chat_error, string) result"
  pv_LoginURL :: "'e \<Rightarrow> 'p \<Rightarrow> 'p \<times> (chat_error, string) result"
  pv_Complete :: "'e \<Rightarrow> string \<Rightarrow> string \<Rightarrow> 'p \<Rightarrow> 'p \<times> chat_error option"

text \<open>
  \<open>en_now\<close> is the reading \<open>LoginURL\<close> or \<open>Authorized\<close> takes, which one request calls one of; \<open>en_held\<close>
  the one \<open>holdOff\<close> takes.
\<close>

record chat_env =
  en_now :: time
  en_held :: time
  en_mint1 :: mint_env
  en_mint2 :: mint_env
  en_random :: "string option"
  en_complete :: complete_env

definition restream_provider :: "(chat_env, restream) provider" where
  "restream_provider =
     \<lparr>pv_Name = Restream_Name,
      pv_Authorized = (\<lambda>e r. Authorized r (en_now e)),
      pv_URL = (\<lambda>e. URL (en_mint1 e) (en_mint2 e) (en_held e)),
      pv_LoginURL = (\<lambda>e. LoginURL (en_now e) (en_random e)),
      pv_Complete = (\<lambda>e. Complete (en_complete e))\<rparr>"

section \<open>State and constants\<close>

definition chatURLPath :: string where "chatURLPath = ''/chat/url''"
definition chatAuthPath :: string where "chatAuthPath = ''/chat/auth/start''"
definition chatCallbackSlots :: nat where "chatCallbackSlots = 4"
definition chatStartBurst :: int where "chatStartBurst = 5"
definition chatStartEvery :: int where "chatStartEvery = 12 * Second"

text \<open>\<open>ca_callbacks\<close> is how many slots of the channel \<open>chatCallbacks\<close> are taken.\<close>

record 'p chat_api =
  ca_server :: server
  ca_provider :: 'p
  ca_starts :: rate_limiter
  ca_callbacks :: nat

section \<open>Guards\<close>

text \<open>
  \<open>strings.EqualFold\<close>, exact on ASCII and on the two runes that fold into it; other
  letters are compared as they are.
\<close>

definition EqualFold :: "string \<Rightarrow> string \<Rightarrow> bool" where
  "EqualFold s t \<longleftrightarrow> fold_name s = fold_name t"

definition chatHostAllowed :: "url_parser \<Rightarrow> config \<Rightarrow> http_request \<Rightarrow> bool" where
  "chatHostAllowed parse cfg rq =
     (let hosts = Hosts parse (PublicURL (cfg_Chat cfg))
      in hosts = [] \<or> (\<exists>host \<in> set hosts. EqualFold host (hq_Host rq)))"

definition chatSiteAllowed :: "http_request \<Rightarrow> bool" where
  "chatSiteAllowed rq \<longleftrightarrow> Header_Get (hq_Header rq) ''Sec-Fetch-Site'' \<noteq> ''cross-site''"

text \<open>The two refusals both guarded and unguarded routes give.\<close>

definition refuse_method_or_site :: "headers \<Rightarrow> http_request \<Rightarrow> response option" where
  "refuse_method_or_site h rq =
     (if hq_Method rq \<noteq> ''GET'' then Some (http_Error (gm_put ''Allow'' ''GET'' h) ''method not allowed'' 405)
      else if \<not> chatSiteAllowed rq then Some (http_Error h ''cross-site requests are not accepted here'' 403)
      else None)"

text \<open>\<open>None\<close> lets the request pass.\<close>

definition chatGuard :: "url_parser \<Rightarrow> config \<Rightarrow> headers \<Rightarrow> http_request \<Rightarrow> response option" where
  "chatGuard parse cfg h rq =
     (case refuse_method_or_site h rq of
        Some rp \<Rightarrow> Some rp
      | None \<Rightarrow>
          if \<not> chatHostAllowed parse cfg rq then Some (http_Error h ''not the configured chat address'' 403)
          else None)"

section \<open>Status and bodies\<close>

definition set_chat :: "string \<Rightarrow> string \<Rightarrow> state \<Rightarrow> state" where
  "set_chat name stat st =
     (let str = (case st_stream st of Some s \<Rightarrow> s | None \<Rightarrow> \<lparr>str_platform = '''', str_viewers = 0, str_chat = None\<rparr>)
      in st\<lparr>st_stream := Some (str\<lparr>str_chat := Some \<lparr>ch_provider = name, ch_status = stat\<rparr>\<rparr>)\<rparr>)"

definition publishChatStatus :: "('e, 'p) provider \<Rightarrow> 'e \<Rightarrow> 'p chat_api \<Rightarrow> 'p chat_api" where
  "publishChatStatus P e a =
     (case StatusOf (Some (pv_Authorized P e (ca_provider a))) of
        None \<Rightarrow> a
      | Some stat \<Rightarrow> a\<lparr>ca_server := applyState (set_chat (pv_Name P) (status_string stat)) (ca_server a)\<rparr>)"

definition writeJSON :: "headers \<Rightarrow> int \<Rightarrow> (string, string) gomap \<Rightarrow> response" where
  "writeJSON h code payload =
     \<lparr>rp_Status = code,
      rp_Header = gm_put ''Cache-Control'' ''no-store'' (gm_put ''Content-Type'' ''application/json'' h),
      rp_Content = JsonOf payload\<rparr>"

definition renderChatCallback :: "headers \<Rightarrow> int \<Rightarrow> string \<Rightarrow> string \<Rightarrow> response" where
  "renderChatCallback h code title msg =
     \<lparr>rp_Status = code,
      rp_Header = gm_put ''Referrer-Policy'' ''no-referrer'' (gm_put ''Cache-Control'' ''no-store''
        (gm_put ''Content-Type'' ''text/html; charset=utf-8'' h)),
      rp_Content = CallbackPage title msg\<rparr>"

section \<open>The routes\<close>

definition serveChatURL ::
  "url_parser \<Rightarrow> ('e, 'p) provider \<Rightarrow> 'e \<Rightarrow> headers \<Rightarrow> http_request \<Rightarrow> 'p chat_api \<Rightarrow> 'p chat_api \<times> response" where
  "serveChatURL parse P e h rq a =
     (case chatGuard parse (sv_cfg (ca_server a)) h rq of
        Some rp \<Rightarrow> (a, rp)
      | None \<Rightarrow>
          let (p, res) = pv_URL P e (ca_provider a);
              a1 = a\<lparr>ca_provider := p\<rparr>
          in case res of
               Inl err \<Rightarrow>
                 if err = NeedsAuth
                 then (publishChatStatus P e a1,
                       writeJSON h 409 [(''auth_start'', chatAuthPath), (''status'', status_string StatusNeedsAuth)])
                 else (a1, writeJSON h 502 [(''error'', ''chat provider unavailable'')])
             | Inr chatURL \<Rightarrow> (publishChatStatus P e a1, writeJSON h 200 [(''url'', chatURL)]))"

definition chatAuthPublicRedirect :: "url_parser \<Rightarrow> config \<Rightarrow> http_request \<Rightarrow> string option" where
  "chatAuthPublicRedirect parse cfg rq =
     (let primary = Primary (PublicURL (cfg_Chat cfg)) in
      if primary = '''' then None
      else case parse primary of
             Some u \<Rightarrow> if EqualFold (url_Host u) (hq_Host rq) then None else Some (primary @ chatAuthPath)
           | None \<Rightarrow> Some (primary @ chatAuthPath))"

text \<open>No response: the handler panicked.\<close>

definition serveChatAuthStart ::
  "url_parser \<Rightarrow> ('e, 'p) provider \<Rightarrow> 'e \<Rightarrow> time \<Rightarrow> headers \<Rightarrow> http_request \<Rightarrow> 'p chat_api \<Rightarrow> 'p chat_api \<times> response option" where
  "serveChatAuthStart parse P e now h rq a =
     (case refuse_method_or_site h rq of
        Some rp \<Rightarrow> (a, Some rp)
      | None \<Rightarrow>
          (case chatAuthPublicRedirect parse (sv_cfg (ca_server a)) rq of
             Some target \<Rightarrow> (a, Some (http_Redirect h target 302))
           | None \<Rightarrow>
               (case allow now (ca_starts a) of
                  None \<Rightarrow> (a, None)
                | Some (l, granted) \<Rightarrow>
                    let a1 = a\<lparr>ca_starts := l\<rparr> in
                    if \<not> granted
                    then (a1, Some (http_Error (gm_put ''Retry-After'' ''12'' h)
                           ''too many authorization attempts; wait a moment and try again'' 429))
                    else
                      let (p, res) = pv_LoginURL P e (ca_provider a1);
                          a2 = a1\<lparr>ca_provider := p\<rparr>
                      in case res of
                           Inl _ \<Rightarrow> (a2, Some (http_Error h ''could not start chat authorization'' 500))
                         | Inr loginURL \<Rightarrow> (a2, Some (http_Redirect h loginURL 302)))))"

definition callback_cancelled :: "headers \<Rightarrow> response" where
  "callback_cancelled h = renderChatCallback h 200 ''Authorization cancelled''
     ''CueBooth was not granted access. You can close this tab and try again from the client.''"

definition callback_missing_scope :: "headers \<Rightarrow> response" where
  "callback_missing_scope h = renderChatCallback h 400 ''Missing permission''
     (''The account signed in, but the application was not granted permission to read chat. '' @
      ''Grant it chat read access at developers.restream.io, then try again. '' @
      ''The server log names the scopes the account actually granted.'')"

definition callback_failed :: "headers \<Rightarrow> response" where
  "callback_failed h = renderChatCallback h 400 ''Authorization failed''
     ''CueBooth could not complete the sign-in. Close this tab and start again from the client.''"

definition callback_connected :: "headers \<Rightarrow> response" where
  "callback_connected h = renderChatCallback h 200 ''Chat connected''
     ''CueBooth can now show your stream chat. You can close this tab.''"

text \<open>The part of the callback that holds a slot.\<close>

definition completeCallback ::
  "('e, 'p) provider \<Rightarrow> 'e \<Rightarrow> headers \<Rightarrow> http_request \<Rightarrow> 'p chat_api \<Rightarrow> 'p chat_api \<times> response" where
  "completeCallback P e h rq a =
     (let code = Header_Get (hq_Query rq) ''code'' in
      if code = '''' then (a, callback_cancelled h)
      else
        let (p, res) = pv_Complete P e code (Header_Get (hq_Query rq) ''state'') (ca_provider a);
            a1 = a\<lparr>ca_provider := p\<rparr>
        in case res of
             Some err \<Rightarrow> (a1, if err = MissingScope then callback_missing_scope h else callback_failed h)
           | None \<Rightarrow> (publishChatStatus P e a1, callback_connected h))"

definition serveChatAuthCallback ::
  "url_parser \<Rightarrow> ('e, 'p) provider \<Rightarrow> 'e \<Rightarrow> headers \<Rightarrow> http_request \<Rightarrow> 'p chat_api \<Rightarrow> 'p chat_api \<times> response" where
  "serveChatAuthCallback parse P e h rq a =
     (case chatGuard parse (sv_cfg (ca_server a)) h rq of
        Some rp \<Rightarrow> (a, rp)
      | None \<Rightarrow>
          if chatCallbackSlots \<le> ca_callbacks a
          then (a, http_Error h ''too many authorizations in flight'' 429)
          else
            let (a1, rp) = completeCallback P e h rq (a\<lparr>ca_callbacks := ca_callbacks a + 1\<rparr>)
            in (a1\<lparr>ca_callbacks := ca_callbacks a1 - 1\<rparr>, rp))"


section \<open>What a provider promises\<close>

text \<open>
  The two things the routes rely on: \<open>ErrNeedsAuth\<close> is only reported by a provider that is
  indeed not authorized, or was not until the refusal lapsed, so the prompt it leads to is the
  one the state shows; and a minted URL is not empty.
\<close>

locale chat_provider =
  fixes P :: "('e, 'p) provider" and lapsed :: "'e \<Rightarrow> 'p \<Rightarrow> bool"
  assumes needs_auth_honest: "pv_URL P e p = (p', Inl NeedsAuth) \<Longrightarrow> \<not> lapsed e p' \<Longrightarrow> \<not> pv_Authorized P e p'"
    and minted_not_empty: "pv_URL P e p = (p', Inr u) \<Longrightarrow> u \<noteq> ''''"

text \<open>The readings of the clock that a mint decides by.\<close>

definition mint_readings :: "chat_env \<Rightarrow> time set" where
  "mint_readings e = {me_lockNow (en_mint1 e), me_lockNow (en_mint2 e), en_held e}"

text \<open>The provider was not authorized at such a reading, and its cooldown ended since.\<close>

definition refusal_lapsed :: "chat_env \<Rightarrow> restream \<Rightarrow> bool" where
  "refusal_lapsed e r \<longleftrightarrow>
     (\<exists>t0 \<in> mint_readings e. \<not> Authorized r t0 \<and> (en_now e < t0 \<or> t0 < rs_refusedUntil r \<and> rs_refusedUntil r \<le> en_now e))"

lemma mint_not_empty: "mint e retire r = (r', used, Inr u) \<Longrightarrow> u \<noteq> ''''"
  by (auto simp: mint_def webchat_result_def split: prod.splits sum.splits reply.splits option.splits if_splits)

lemma URL_not_empty: "URL e1 e2 now r = (r', Inr u) \<Longrightarrow> u \<noteq> ''''"
  by (auto simp: URL_def Let_def split: prod.splits if_splits dest: mint_not_empty)

lemma URL_honest:
  assumes "URL (en_mint1 e) (en_mint2 e) (en_held e) r = (r', Inl NeedsAuth)" "Authorized r' (en_now e)"
  shows "refusal_lapsed e r'"
proof -
  from URL_needs_auth [OF assms(1)] obtain t0 where t0: "t0 \<in> mint_readings e" "\<not> Authorized r' t0"
    by (auto simp: mint_readings_def)
  with unauthorized_until [OF t0(2) _ assms(2)] show ?thesis
    unfolding refusal_lapsed_def lapsed_between_def by (meson leI)
qed

interpretation restream: chat_provider restream_provider refusal_lapsed
  by unfold_locales (auto simp: restream_provider_def dest: URL_honest URL_not_empty)

section \<open>Lemmas\<close>

lemma set_chat_ok [inv_intros]: "mutator_ok (set_chat name stat)"
  by (auto simp: mutator_ok_def set_chat_def state_ok_def Let_def)

text \<open>The chat entry of a server's state.\<close>

definition chat_shown :: "server \<Rightarrow> chat_state option" where
  "chat_shown s = (case st_stream (so_st (sv_store s)) of Some str \<Rightarrow> str_chat str | None \<Rightarrow> None)"

lemma applyState_store:
  "so_st (sv_store (applyState f s)) = normalize (f (so_st (sv_store s)))" "sv_cfg (applyState f s) = sv_cfg s"
  by (auto simp: applyState_def Update_def Let_def split: prod.splits option.splits)

lemma normalize_stream: "st_stream (normalize st) = st_stream st"
  by (simp add: normalize_def split: option.split)

lemma publish_shown:
  "chat_shown (ca_server (publishChatStatus P e a)) =
     Some \<lparr>ch_provider = pv_Name P,
           ch_status = status_string (if pv_Authorized P e (ca_provider a) then StatusReady else StatusNeedsAuth)\<rparr>"
  by (simp add: publishChatStatus_def StatusOf_def chat_shown_def applyState_store normalize_stream set_chat_def Let_def)

lemma publish_frame [simp]:
  "ca_provider (publishChatStatus P e a) = ca_provider a" "ca_callbacks (publishChatStatus P e a) = ca_callbacks a"
  "ca_starts (publishChatStatus P e a) = ca_starts a" "sv_cfg (ca_server (publishChatStatus P e a)) = sv_cfg (ca_server a)"
  by (simp_all add: publishChatStatus_def StatusOf_def applyState_store)

text \<open>\<open>/chat/url\<close> by the outcome of the mint.\<close>

lemma serveChatURL_cases:
  assumes "serveChatURL parse P e h rq a = (a', rp)"
  obtains
    (refused) rp' where "chatGuard parse (sv_cfg (ca_server a)) h rq = Some rp'" "a' = a" "rp = rp'"
  | (conflict) p where "chatGuard parse (sv_cfg (ca_server a)) h rq = None" "pv_URL P e (ca_provider a) = (p, Inl NeedsAuth)"
      "a' = publishChatStatus P e (a\<lparr>ca_provider := p\<rparr>)"
      "rp = writeJSON h 409 [(''auth_start'', chatAuthPath), (''status'', ''needs_auth'')]"
  | (unavailable) p err where "chatGuard parse (sv_cfg (ca_server a)) h rq = None" "pv_URL P e (ca_provider a) = (p, Inl err)"
      "err \<noteq> NeedsAuth" "a' = a\<lparr>ca_provider := p\<rparr>" "rp = writeJSON h 502 [(''error'', ''chat provider unavailable'')]"
  | (minted) p u where "chatGuard parse (sv_cfg (ca_server a)) h rq = None" "pv_URL P e (ca_provider a) = (p, Inr u)"
      "a' = publishChatStatus P e (a\<lparr>ca_provider := p\<rparr>)" "rp = writeJSON h 200 [(''url'', u)]"
  using assms by (auto simp: serveChatURL_def Let_def split: option.splits prod.splits sum.splits if_splits)

lemma chatGuard_None:
  "chatGuard parse cfg h rq = None \<longleftrightarrow> hq_Method rq = ''GET'' \<and> chatSiteAllowed rq \<and> chatHostAllowed parse cfg rq"
  by (auto simp: chatGuard_def refuse_method_or_site_def)

lemma chatGuard_Some: "chatGuard parse cfg h rq = Some rp \<Longrightarrow> rp_Status rp \<in> {403, 405} \<and> (\<exists>msg. rp_Content rp = Plain msg)"
  by (auto simp: chatGuard_def refuse_method_or_site_def http_Error_def split: if_splits)

text \<open>The client's lemma: the status in a conflict answer is the one the state shows, unless it lapsed.\<close>

context chat_provider begin

lemma conflict_shown:
  assumes "serveChatURL parse P e h rq a = (a', rp)" "rp_Status rp = 409"
  shows "chat_shown (ca_server a') = Some \<lparr>ch_provider = pv_Name P,
      ch_status = status_string (if pv_Authorized P e (ca_provider a') then StatusReady else StatusNeedsAuth)\<rparr> \<and>
    rp_Content rp = JsonOf [(''auth_start'', chatAuthPath), (''status'', ''needs_auth'')] \<and>
    (\<not> lapsed e (ca_provider a') \<longrightarrow> \<not> pv_Authorized P e (ca_provider a'))"
  using assms(1)
proof (cases rule: serveChatURL_cases)
  case (refused rp')
  with assms(2) chatGuard_Some show ?thesis by fastforce
next
  case (conflict p)
  with needs_auth_honest [OF conflict(2)] show ?thesis by (simp add: publish_shown writeJSON_def)
qed (use assms(2) in \<open>simp_all add: writeJSON_def\<close>)

lemma url_shown:
  assumes "serveChatURL parse P e h rq a = (a', rp)" "rp_Status rp = 200"
  shows "chat_shown (ca_server a') = Some \<lparr>ch_provider = pv_Name P,
      ch_status = status_string (if pv_Authorized P e (ca_provider a') then StatusReady else StatusNeedsAuth)\<rparr> \<and>
    (\<exists>u. u \<noteq> '''' \<and> rp_Content rp = JsonOf [(''url'', u)])"
  using assms(1)
proof (cases rule: serveChatURL_cases)
  case (refused rp')
  with assms(2) chatGuard_Some show ?thesis by fastforce
next
  case (minted p u)
  with minted_not_empty [OF minted(2)] show ?thesis by (simp add: publish_shown writeJSON_def)
qed (use assms(2) in \<open>simp_all add: writeJSON_def\<close>)

end


text \<open>The response of a completion, and what it leaves of the slots.\<close>

lemma completeCallback_cases:
  assumes "completeCallback P e h rq a = (a', rp)"
  obtains
    (cancelled) "Header_Get (hq_Query rq) ''code'' = ''''" "a' = a" "rp = callback_cancelled h"
  | (failed) p err where "pv_Complete P e (Header_Get (hq_Query rq) ''code'') (Header_Get (hq_Query rq) ''state'') (ca_provider a) = (p, Some err)"
      "a' = a\<lparr>ca_provider := p\<rparr>" "rp = (if err = MissingScope then callback_missing_scope h else callback_failed h)"
  | (connected) p where "pv_Complete P e (Header_Get (hq_Query rq) ''code'') (Header_Get (hq_Query rq) ''state'') (ca_provider a) = (p, None)"
      "a' = publishChatStatus P e (a\<lparr>ca_provider := p\<rparr>)" "rp = callback_connected h"
proof (cases "Header_Get (hq_Query rq) ''code'' = ''''")
  case True
  with assms show thesis by (intro cancelled) (simp_all add: completeCallback_def)
next
  case False
  obtain p res where c: "pv_Complete P e (Header_Get (hq_Query rq) ''code'') (Header_Get (hq_Query rq) ''state'') (ca_provider a) = (p, res)"
    by force
  show thesis
  proof (cases res)
    case None
    with assms False c show thesis by (intro connected) (auto simp: completeCallback_def)
  next
    case (Some err)
    with assms False c show thesis by (intro failed) (auto simp: completeCallback_def)
  qed
qed

lemma callback_keeps_slots:
  "ca_callbacks (fst (serveChatAuthCallback parse P e h rq a)) = ca_callbacks a"
  by (auto simp: serveChatAuthCallback_def completeCallback_def Let_def split: option.splits prod.splits)

text \<open>
  A start request that arrives elsewhere is sent to the public address and costs nothing;
  arriving there it is not sent on again.
\<close>

lemma auth_redirect_settles:
  assumes "refuse_method_or_site h rq = None" "chatAuthPublicRedirect parse (sv_cfg (ca_server a)) rq = Some target"
  shows "serveChatAuthStart parse P e now h rq a = (a, Some (http_Redirect h target 302))"
    "target = Primary (PublicURL (cfg_Chat (sv_cfg (ca_server a)))) @ chatAuthPath"
    "parse (Primary (PublicURL (cfg_Chat (sv_cfg (ca_server a))))) = Some u \<Longrightarrow>
       chatAuthPublicRedirect parse (sv_cfg (ca_server a)) (rq\<lparr>hq_Host := url_Host u\<rparr>) = None"
  using assms by (auto simp: serveChatAuthStart_def chatAuthPublicRedirect_def EqualFold_def Let_def split: option.splits if_splits)

definition reaches_limiter :: "url_parser \<Rightarrow> config \<Rightarrow> http_request \<Rightarrow> bool" where
  "reaches_limiter parse cfg rq \<longleftrightarrow>
     hq_Method rq = ''GET'' \<and> chatSiteAllowed rq \<and> chatAuthPublicRedirect parse cfg rq = None"

lemma serveChatAuthStart_skips:
  assumes "\<not> reaches_limiter parse (sv_cfg (ca_server a)) rq"
  shows "\<exists>rp. serveChatAuthStart parse P e now h rq a = (a, Some rp)"
  using assms
  by (auto simp: serveChatAuthStart_def reaches_limiter_def refuse_method_or_site_def split: option.splits)

lemma serveChatAuthStart_limited:
  assumes "reaches_limiter parse (sv_cfg (ca_server a)) rq" "allow now (ca_starts a) = Some (l, granted)"
  shows "\<exists>a' rp. serveChatAuthStart parse P e now h rq a = (a', Some rp) \<and> ca_starts a' = l \<and>
    ca_server a' = ca_server a \<and>
    ca_provider a' = (if granted then fst (pv_LoginURL P e (ca_provider a)) else ca_provider a)"
  using assms
  by (auto simp: serveChatAuthStart_def reaches_limiter_def refuse_method_or_site_def Let_def split: option.splits prod.splits sum.splits)

text \<open>
  A sequence of start requests, each with what it meets, its clock reading and its request;
  the number of authorizations begun, \<open>None\<close> if a handler panicked.
\<close>

fun serve_starts :: "url_parser \<Rightarrow> ('e, 'p) provider \<Rightarrow> headers \<Rightarrow> ('e \<times> time \<times> http_request) list \<Rightarrow> 'p chat_api \<Rightarrow>
    ('p chat_api \<times> nat) option" where
  "serve_starts parse P h [] a = Some (a, 0)"
| "serve_starts parse P h ((e, now, rq) # rqs) a =
     (case serveChatAuthStart parse P e now h rq a of
        (a1, None) \<Rightarrow> None
      | (a1, Some _) \<Rightarrow>
          map_option (\<lambda>(a2, n). (a2, n + (if reaches_limiter parse (sv_cfg (ca_server a)) rq \<and>
               map_option snd (allow now (ca_starts a)) = Some True then 1 else 0)))
            (serve_starts parse P h rqs a1))"

lemma serve_starts_allow_all:
  assumes "allow_all (map (\<lambda>(_, now, _). now) (filter (\<lambda>(_, _, rq). reaches_limiter parse cfg rq) rqs)) (ca_starts a) = Some (l, n)"
    and "sv_cfg (ca_server a) = cfg"
  shows "\<exists>a'. serve_starts parse P h rqs a = Some (a', n) \<and> ca_starts a' = l"
  using assms
proof (induction rqs arbitrary: a n)
  case (Cons x rqs)
  obtain e now rq where x: "x = (e, now, rq)" by (cases x)
  show ?case
  proof (cases "reaches_limiter parse cfg rq")
    case False
    with serveChatAuthStart_skips [of parse a rq P e now h] Cons show ?thesis by (auto simp: x)
  next
    case True
    with Cons.prems(1) obtain l1 granted m where l1: "allow now (ca_starts a) = Some (l1, granted)"
      "allow_all (map (\<lambda>(_, now, _). now) (filter (\<lambda>(_, _, rq). reaches_limiter parse cfg rq) rqs)) l1 = Some (l, m)"
      "n = m + (if granted then 1 else 0)"
      by (auto simp: x split: option.splits)
    with serveChatAuthStart_limited [of parse a rq now l1 granted P e h] True Cons.prems(2)
    obtain a1 rp where "serveChatAuthStart parse P e now h rq a = (a1, Some rp)" "ca_starts a1 = l1" "ca_server a1 = ca_server a"
      by auto
    with Cons.IH [of a1 m] l1 True Cons.prems(2) show ?thesis by (auto simp: x)
  qed
qed simp

section \<open>Properties\<close>

text \<open>
  C29: The credential in a chat URL only leaves in a \<open>200\<close> answer marked \<open>no-store\<close>, to a GET that
  a browser did not mark \<open>cross-site\<close> and whose Host is that of a configured \<open>public_url\<close> up to
  case, any Host when none is configured; it is then the URL the provider minted for this
  request.  A request that fails one of the three is refused before anything is asked of the
  provider, with the state untouched.
\<close>

theorem chat_url_guarded:
  assumes "serveChatURL parse P e h rq a = (a', rp)" "gm_wf h" "urls = PublicURL (cfg_Chat (sv_cfg (ca_server a)))"
  shows "(if hq_Method rq = ''GET'' \<and> gm_get (hq_Header rq) ''Sec-Fetch-Site'' \<noteq> Some ''cross-site'' \<and>
       (Hosts parse urls = [] \<or> (\<exists>host \<in> set (Hosts parse urls). fold_name host = fold_name (hq_Host rq)))
     then rp_Status rp \<in> {200, 409, 502} \<and> ca_provider a' = fst (pv_URL P e (ca_provider a)) \<and>
       gm_get (rp_Header rp) ''Cache-Control'' = Some ''no-store''
     else rp_Status rp \<in> {403, 405} \<and> a' = a) \<and>
    (\<forall>kv u. rp_Content rp = JsonOf kv \<and> gm_get kv ''url'' = Some u \<longrightarrow>
       rp_Status rp = 200 \<and> pv_URL P e (ca_provider a) = (ca_provider a', Inr u))"
proof -
  have passes: "chatGuard parse (sv_cfg (ca_server a)) h rq = None \<longleftrightarrow>
      hq_Method rq = ''GET'' \<and> gm_get (hq_Header rq) ''Sec-Fetch-Site'' \<noteq> Some ''cross-site'' \<and>
      (Hosts parse urls = [] \<or> (\<exists>host \<in> set (Hosts parse urls). fold_name host = fold_name (hq_Host rq)))"
    by (auto simp: chatGuard_None chatSiteAllowed_def chatHostAllowed_def EqualFold_def Header_Get_def assms(3) Let_def split: option.splits)
  from assms(1) show ?thesis
  proof (cases rule: serveChatURL_cases)
    case (refused rp')
    with chatGuard_Some [OF refused(1)] passes show ?thesis by auto
  qed (use assms(2) passes in \<open>auto simp: writeJSON_def chatAuthPath_def gomap_simps\<close>)
qed

definition demo_call :: chat_env where
  "demo_call = \<lparr>en_now = Time 0, en_held = Time 0, en_mint1 = demo_mint\<lparr>me_now := Time 0, me_lockNow := Time 0,
       me_web := Reply 200 \<lparr>bd_text = '''', bd_json = Some (RObj [(''webchatUrl'', RStr ''https://chat/x'')])\<rparr>\<rparr>,
     en_mint2 = demo_mint\<lparr>me_lockNow := Time 0\<rparr>, en_random = Some ''xyz'', en_complete = demo_complete\<rparr>"

definition demo_api :: "restream chat_api" where
  "demo_api = \<lparr>ca_server = NewServer witness_chat '''' ''id'' None, ca_provider = demo_restream,
     ca_starts = newRateLimiter chatStartBurst chatStartEvery, ca_callbacks = 0\<rparr>"

definition demo_get :: http_request where
  "demo_get = \<lparr>hq_Method = ''GET'', hq_Host = ''Booth:7878'', hq_Path = ''/chat/url'', hq_Query = [], hq_Header = []\<rparr>"

lemma demo_api_cfg [simp]: "sv_cfg (ca_server demo_api) = witness_chat" "ca_provider demo_api = demo_restream"
  by (simp_all add: demo_api_def NewServer_def)

lemma demo_get_passes:
  "hq_Method demo_get = ''GET''" "chatSiteAllowed demo_get" "chatHostAllowed witness_parse witness_chat demo_get"
  by code_simp+

lemma demo_get_guard: "chatGuard witness_parse witness_chat [] demo_get = None"
  by (simp add: chatGuard_None demo_get_passes)

lemma chat_url_guarded_witness:
  "(\<exists>a' rp. serveChatURL witness_parse restream_provider demo_call [] demo_get demo_api = (a', rp) \<and>
     rp_Content rp = JsonOf [(''url'', ''https://chat/x'')] \<and> gm_get (rp_Header rp) ''Cache-Control'' = Some ''no-store'') \<and>
   (\<exists>rp. serveChatURL witness_parse restream_provider demo_call [] (demo_get\<lparr>hq_Host := ''evil''\<rparr>) demo_api = (demo_api, rp) \<and>
     rp_Status rp \<in> {403, 405})"
proof -
  obtain a' rp where s: "serveChatURL witness_parse restream_provider demo_call [] demo_get demo_api = (a', rp)" by force
  have "snd (URL (en_mint1 demo_call) (en_mint2 demo_call) (en_held demo_call) demo_restream) = Inr ''https://chat/x''"
    by code_simp
  then have "snd (pv_URL restream_provider demo_call (ca_provider demo_api)) = Inr ''https://chat/x''"
    by (simp add: restream_provider_def)
  with s have c: "rp_Content rp = JsonOf [(''url'', ''https://chat/x'')]"
    by (cases rule: serveChatURL_cases) (auto simp: demo_get_guard writeJSON_def)
  have urls: "Hosts witness_parse (PublicURL (cfg_Chat (sv_cfg (ca_server demo_api)))) = [''booth:7878'']"
    unfolding demo_api_cfg by code_simp
  have get: "hq_Method demo_get = ''GET''" "hq_Header demo_get = []" "fold_name ''booth:7878'' = fold_name (hq_Host demo_get)" by code_simp+
  obtain a'' rp' where s': "serveChatURL witness_parse restream_provider demo_call [] (demo_get\<lparr>hq_Host := ''evil''\<rparr>) demo_api = (a'', rp')"
    by force
  have "fold_name ''booth:7878'' \<noteq> fold_name ''evil''" by code_simp
  with chat_url_guarded [OF s' _ refl] urls have "a'' = demo_api" "rp_Status rp' \<in> {403, 405}" by auto
  with c s s' chat_url_guarded [OF s _ refl] urls get show ?thesis by simp
qed

text \<open>
  C32: What the state shows after \<open>/chat/url\<close>, and what the client was told.  After a minted URL
  or a conflict, \<open>stream.chat\<close> names the provider and the status it has at the reading of the
  clock it was published by.  A conflict tells the client \<open>needs_auth\<close> and the start route, and
  comes only from a provider that was not authorized at some reading of the mint; the state then
  shows \<open>needs_auth\<close> too, unless the cooldown of a refusal ended between that reading and the
  publishing.  A minted URL is never empty.  One request runs at a time here.
\<close>

theorem chat_status_published:
  assumes "serveChatURL parse restream_provider e h rq a = (a', rp)" "rp_Status rp \<in> {200, 409}"
  shows "chat_shown (ca_server a') = Some \<lparr>ch_provider = ''restream'',
      ch_status = (if Authorized (ca_provider a') (en_now e) then ''ready'' else ''needs_auth'')\<rparr> \<and>
    (rp_Status rp = 409 \<longrightarrow>
       rp_Content rp = JsonOf [(''auth_start'', ''/chat/auth/start''), (''status'', ''needs_auth'')] \<and>
       (\<exists>t0 \<in> {me_lockNow (en_mint1 e), me_lockNow (en_mint2 e), en_held e}. \<not> Authorized (ca_provider a') t0 \<and>
          (t0 \<le> en_now e \<longrightarrow> \<not> Authorized (ca_provider a') (en_now e) \<or>
             t0 < rs_refusedUntil (ca_provider a') \<and> rs_refusedUntil (ca_provider a') \<le> en_now e))) \<and>
    (rp_Status rp = 200 \<longrightarrow> (\<exists>u. u \<noteq> '''' \<and> rp_Content rp = JsonOf [(''url'', u)]))"
proof (cases "rp_Status rp = 200")
  case True
  with restream.url_shown [OF assms(1)] show ?thesis
    by (simp add: restream_provider_def Restream_Name_def)
next
  case False
  then have conflict: "rp_Status rp = 409" using assms(2) by simp
  from assms(1) have "\<exists>t0 \<in> mint_readings e. \<not> Authorized (ca_provider a') t0"
  proof (cases rule: serveChatURL_cases)
    case (refused rp')
    with conflict chatGuard_Some show ?thesis by fastforce
  next
    case (conflict p)
    with URL_needs_auth show ?thesis by (fastforce simp: restream_provider_def mint_readings_def)
  qed (use conflict in \<open>simp_all add: writeJSON_def\<close>)
  then obtain t0 where "t0 \<in> mint_readings e" "\<not> Authorized (ca_provider a') t0" by blast
  with unauthorized_until [of "ca_provider a'" t0 "en_now e"] have "\<exists>t0 \<in> mint_readings e. \<not> Authorized (ca_provider a') t0 \<and>
      (t0 \<le> en_now e \<longrightarrow> \<not> Authorized (ca_provider a') (en_now e) \<or>
         t0 < rs_refusedUntil (ca_provider a') \<and> rs_refusedUntil (ca_provider a') \<le> en_now e)"
    unfolding lapsed_between_def by blast
  with conflict restream.conflict_shown [OF assms(1) conflict] show ?thesis
    unfolding mint_readings_def by (simp add: restream_provider_def Restream_Name_def chatAuthPath_def)
qed

text \<open>A mint the platform refuses for want of permission.\<close>

definition demo_forbidden :: chat_env where
  "demo_forbidden = demo_call\<lparr>en_mint1 := (en_mint1 demo_call)\<lparr>me_web := Reply 403 \<lparr>bd_text = '''',
     bd_json = Some (RObj [(''error'', RObj [(''name'', RStr ''insufficient_scope''), (''message'', RStr ''no'')])])\<rparr>\<rparr>\<rparr>"

lemma chat_status_published_witness:
  "chat_shown (ca_server (fst (serveChatURL witness_parse restream_provider demo_forbidden [] demo_get demo_api))) =
     Some \<lparr>ch_provider = ''restream'', ch_status = ''needs_auth''\<rparr>"
proof -
  obtain a' rp where s: "serveChatURL witness_parse restream_provider demo_forbidden [] demo_get demo_api = (a', rp)" by force
  have "snd (URL (en_mint1 demo_forbidden) (en_mint2 demo_forbidden) (en_held demo_forbidden) demo_restream) = Inl NeedsAuth"
    by code_simp
  then have "snd (pv_URL restream_provider demo_forbidden (ca_provider demo_api)) = Inl NeedsAuth"
    by (simp add: restream_provider_def)
  with s have "rp_Status rp = 409"
    by (cases rule: serveChatURL_cases) (auto simp: demo_get_guard writeJSON_def)
  moreover have "rs_refusedUntil (fst (URL (en_mint1 demo_forbidden) (en_mint2 demo_forbidden) (en_held demo_forbidden) demo_restream)) =
      Time (5 * Minute)" by code_simp
  moreover have "ca_provider a' = fst (URL (en_mint1 demo_forbidden) (en_mint2 demo_forbidden) (en_held demo_forbidden) demo_restream)"
    using s calculation(1) by (cases rule: serveChatURL_cases) (auto simp: demo_get_guard restream_provider_def writeJSON_def)
  moreover have "en_now demo_forbidden = Time 0" by (simp add: demo_forbidden_def demo_call_def)
  ultimately show ?thesis using chat_status_published [OF s] s by (auto simp: less_eq_time_def Authorized_def less_time_def Minute_def Second_def)
qed

text \<open>
  The exception happens: a cooldown that ends between the mint and the publishing leaves the
  client told \<open>needs_auth\<close> beside a state that shows \<open>ready\<close>.
\<close>

definition demo_lapse :: chat_env where
  "demo_lapse = demo_call\<lparr>en_now := Time 10, en_mint1 := (en_mint1 demo_call)\<lparr>me_now := Time 9, me_lockNow := Time 9\<rparr>\<rparr>"

lemma conflict_beside_ready:
  "\<exists>a' rp. serveChatURL witness_parse restream_provider demo_lapse [] demo_get
       (demo_api\<lparr>ca_provider := demo_restream\<lparr>rs_refusedUntil := Time 10\<rparr>\<rparr>) = (a', rp) \<and>
     rp_Status rp = 409 \<and> chat_shown (ca_server a') = Some \<lparr>ch_provider = ''restream'', ch_status = ''ready''\<rparr>"
proof -
  let ?r = "demo_restream\<lparr>rs_refusedUntil := Time 10\<rparr>"
  have u: "URL (en_mint1 demo_lapse) (en_mint2 demo_lapse) (en_held demo_lapse) ?r = (?r, Inl NeedsAuth)" by code_simp
  have "Authorized ?r (en_now demo_lapse)" by code_simp
  with u show ?thesis
    by (simp add: serveChatURL_def demo_get_guard restream_provider_def Let_def publish_shown writeJSON_def Restream_Name_def)
qed

text \<open>
  However many start requests arrive, whatever their hosts and clock readings, the limiter
  never panics, and at most five authorizations plus one per twelve seconds are begun.
\<close>

lemma auth_starts_bounded:
  assumes "ca_starts a = newRateLimiter chatStartBurst chatStartEvery"
    and "\<forall>(e, now, rq) \<in> set rqs. zero_time < t0 \<and> t0 \<le> now \<and> now \<le> t1" "t0 \<le> t1"
  shows "\<exists>a' n. serve_starts parse P h rqs a = Some (a', n) \<and>
    int n \<le> 5 + (time_ns t1 - time_ns t0) div (12 * Second)"
proof -
  define ts where "ts = map (\<lambda>(_, now, _). now) (filter (\<lambda>(_, _, rq). reaches_limiter parse (sv_cfg (ca_server a)) rq) rqs)"
  have ts: "zero_time < t \<and> t0 \<le> t \<and> t \<le> t1" if "t \<in> set ts" for t
    using that assms(2) by (auto simp: ts_def intro: less_le_trans)
  have sizes: "2 \<le> chatStartEvery" "chatStartEvery \<le> maxInt64" "0 \<le> chatStartBurst" "chatStartBurst < 2 ^ 62"
    by (simp_all add: chatStartEvery_def chatStartBurst_def Second_def maxInt64_def)
  have "\<exists>l n. allow_all ts (ca_starts a) = Some (l, n) \<and> (int n - 5) * chatStartEvery \<le> time_ns t1 - time_ns t0"
  proof (cases ts)
    case Nil
    with assms(3) show ?thesis by (auto simp: chatStartEvery_def Second_def less_eq_time_def)
  next
    case (Cons u us)
    with ts allow_all_bound [OF sizes, of u us t1] obtain l n where
      "allow_all ts (ca_starts a) = Some (l, n)" "(int n - 5) * chatStartEvery \<le> time_ns t1 - time_ns u"
      by (auto simp: assms(1) chatStartBurst_def simp del: allow_all.simps)
    moreover have "time_ns t0 \<le> time_ns u" using ts [of u] Cons by (simp add: less_eq_time_def)
    ultimately show ?thesis by force
  qed
  then obtain l n where n: "allow_all ts (ca_starts a) = Some (l, n)" "(int n - 5) * chatStartEvery \<le> time_ns t1 - time_ns t0"
    by blast
  have "int n - 5 \<le> (time_ns t1 - time_ns t0) div chatStartEvery"
    using zdiv_mono1 [OF n(2), of chatStartEvery] sizes(1) by simp
  with serve_starts_allow_all [OF n(1) [unfolded ts_def] refl, of P h] show ?thesis
    by (auto simp: chatStartEvery_def)
qed

definition demo_start :: http_request where
  "demo_start = demo_get\<lparr>hq_Path := ''/chat/auth/start''\<rparr>"

text \<open>Eight requests at one instant.\<close>

lemma auth_starts_bounded_witness:
  "\<exists>a' n. serve_starts witness_parse restream_provider [] (replicate 8 (demo_call, Time 1, demo_start)) demo_api = Some (a', n) \<and> n \<le> 5"
proof -
  have "\<exists>a' n. serve_starts witness_parse restream_provider [] (replicate 8 (demo_call, Time 1, demo_start)) demo_api = Some (a', n) \<and>
      int n \<le> 5 + (time_ns (Time 1) - time_ns (Time 1)) div (12 * Second)"
    by (rule auth_starts_bounded) (auto simp: demo_api_def zero_time_def less_time_def)
  then show ?thesis by simp
qed

end
