(* ===== verification/WebUI.thy ===== *)
theory WebUI
  imports Http
begin

text \<open>
  server/internal/webui/webui.go: the bundled web client.  The bundle is a map from slash-separated
  names to directories and file contents; SHA-256, the host's MIME table and content sniffing are
  parameters.  Of \<open>http.ServeContent\<close>, the validator, the type, the method and the body are
  modelled, for requests without \<open>Range\<close>, \<open>If-Match\<close> and \<open>If-Unmodified-Since\<close>; files of an
  \<open>embed.FS\<close> have no modification time.
\<close>

section \<open>Paths\<close>

text \<open>\<open>path.Clean\<close> of a rooted path: empty and dot segments go, a double dot takes the one before.\<close>

definition clean_step :: "string \<Rightarrow> string list \<Rightarrow> string list" where
  "clean_step seg st = (if seg = '''' \<or> seg = ''.'' then st else if seg = ''..'' then butlast st else st @ [seg])"

definition clean_segments :: "string \<Rightarrow> string list" where
  "clean_segments p = fold clean_step (Split p (CHR ''/'')) []"

definition path_Clean :: "string \<Rightarrow> string" where
  "path_Clean p = CHR ''/'' # Join (clean_segments p) (CHR ''/'')"

text \<open>\<open>path.Ext\<close>: from the last dot of the last element.\<close>

definition path_Ext :: "string \<Rightarrow> string" where
  "path_Ext p =
     (let base = last (Split p (CHR ''/'')) in
      if CHR ''.'' \<in> set base then CHR ''.'' # last (Split base (CHR ''.'')) else '''')"

section \<open>The bundle\<close>

datatype node = DirNode | FileNode string

type_synonym web_files = "(string, node) gomap"

record web_lib =
  wl_sha256 :: "string \<Rightarrow> string"
  wl_mime :: "string \<Rightarrow> string"
  wl_sniff :: "string \<Rightarrow> string"

definition ValidPath :: "string \<Rightarrow> bool" where
  "ValidPath name \<longleftrightarrow> name = ''.'' \<or> (\<forall>seg \<in> set (Split name (CHR ''/'')). seg \<notin> {'''', ''.'', ''..''})"

definition fs_Stat :: "web_files \<Rightarrow> string \<Rightarrow> node option" where
  "fs_Stat files name = (if ValidPath name then gm_get files name else None)"

definition entry_name :: string where "entry_name = ''index.html''"

definition bundledIn :: "web_files \<Rightarrow> bool" where
  "bundledIn files = (case fs_Stat files entry_name of Some (FileNode _) \<Rightarrow> True | _ \<Rightarrow> False)"

definition hex_encode :: "string \<Rightarrow> string" where
  "hex_encode s = concat (map (\<lambda>c. [lower_hex (byte c div 16), lower_hex (byte c mod 16)]) s)"

definition etag_of :: "web_lib \<Rightarrow> string \<Rightarrow> string" where
  "etag_of lib body = CHR 0x22 # hex_encode (take 16 (wl_sha256 lib body)) @ [CHR 0x22]"

text \<open>Every file of the walk; the bundle is in memory, so no file fails to open or read.\<close>

fun etags :: "web_lib \<Rightarrow> web_files \<Rightarrow> (string, string) gomap" where
  "etags lib [] = []"
| "etags lib ((name, DirNode) # files) = etags lib files"
| "etags lib ((name, FileNode body) # files) = (name, etag_of lib body) # etags lib files"

section \<open>Serving\<close>

definition serveable :: "web_files \<Rightarrow> string \<Rightarrow> bool" where
  "serveable files name \<longleftrightarrow>
     (\<forall>segment \<in> set (Split name (CHR ''/'')). \<not> HasPrefix segment ''.'') \<and>
     (case fs_Stat files name of Some (FileNode _) \<Rightarrow> True | _ \<Rightarrow> False)"

fun Contains :: "string \<Rightarrow> string \<Rightarrow> bool" where
  "Contains [] sub \<longleftrightarrow> sub = []"
| "Contains (c # s) sub \<longleftrightarrow> prefix sub (c # s) \<or> Contains s sub"

definition acceptsHTML :: "http_request \<Rightarrow> bool" where
  "acceptsHTML rq \<longleftrightarrow>
     (let accept = Header_Get (hq_Header rq) ''Accept'' in accept = '''' \<or> Contains accept ''text/html'')"

definition contentTypes :: "(string \<times> string) list" where
  "contentTypes =
     [(''.html'', ''text/html; charset=utf-8''), (''.js'', ''text/javascript; charset=utf-8''),
      (''.mjs'', ''text/javascript; charset=utf-8''), (''.json'', ''application/json''),
      (''.wasm'', ''application/wasm''), (''.css'', ''text/css; charset=utf-8''), (''.png'', ''image/png''),
      (''.jpg'', ''image/jpeg''), (''.jpeg'', ''image/jpeg''), (''.gif'', ''image/gif''),
      (''.svg'', ''image/svg+xml''), (''.ico'', ''image/x-icon''), (''.otf'', ''font/otf''),
      (''.ttf'', ''font/ttf''), (''.woff'', ''font/woff''), (''.woff2'', ''font/woff2''),
      (''.txt'', ''text/plain; charset=utf-8''), (''.bin'', ''application/octet-stream''),
      (''.map'', ''application/json'')]"

definition contentType :: "web_lib \<Rightarrow> string \<Rightarrow> string" where
  "contentType lib name =
     (case map_of contentTypes (ToLower (path_Ext name)) of
        Some t \<Rightarrow> t
      | None \<Rightarrow> wl_mime lib (ToLower (path_Ext name)))"

text \<open>\<open>scanETag\<close> and \<open>checkIfNoneMatch\<close> of \<open>net/http\<close>.\<close>

definition http_space :: "char \<Rightarrow> bool" where
  "http_space c \<longleftrightarrow> c \<in> {CHR '' '', CHR 0x09, CHR 0x0A, CHR 0x0D}"

definition TrimString :: "string \<Rightarrow> string" where
  "TrimString s = rev (dropWhile http_space (rev (dropWhile http_space s)))"

definition etag_char :: "char \<Rightarrow> bool" where
  "etag_char c \<longleftrightarrow> (let n = byte c in n = 0x21 \<or> 0x23 \<le> n \<and> n \<le> 0x7E \<or> 0x80 \<le> n)"

text \<open>The tag and what follows it; \<open>None\<close> is the empty result.\<close>

definition scanETag :: "string \<Rightarrow> (string \<times> string) option" where
  "scanETag s0 =
     (let s = TrimString s0;
          weak = (if prefix ''W/'' s then ''W/'' else '''');
          s1 = drop (length weak) s
      in case s1 of
           q # s2 \<Rightarrow>
             (if q \<noteq> CHR 0x22 then None
              else (case dropWhile etag_char s2 of
                      q' # remain \<Rightarrow>
                        if q' = CHR 0x22 then Some (weak @ q # takeWhile etag_char s2 @ [q'], remain) else None
                    | [] \<Rightarrow> None))
         | [] \<Rightarrow> None)"

lemma TrimString_length: "length (TrimString s) \<le> length s"
  unfolding TrimString_def by (metis length_dropWhile_le length_rev order_trans)

lemma scanETag_shorter:
  assumes "scanETag s = Some (t, remain)"
  shows "length remain < length s"
proof -
  define weak where "weak = (if prefix ''W/'' (TrimString s) then ''W/'' else '''')"
  obtain q s2 q' where s: "drop (length weak) (TrimString s) = q # s2" "dropWhile etag_char s2 = q' # remain"
    using assms by (auto simp: scanETag_def Let_def weak_def split: list.splits if_splits)
  have "Suc (length remain) \<le> length s2" using length_dropWhile_le [of etag_char s2] by (simp add: s(2))
  moreover have "Suc (length s2) \<le> length (TrimString s)"
    using arg_cong [OF s(1), of length] by simp
  ultimately show ?thesis using TrimString_length [of s] by linarith
qed

text \<open>Whether one of the listed tags matches \<open>tag\<close>, weakly.\<close>

function none_match_hits :: "string \<Rightarrow> string \<Rightarrow> bool" where
  "none_match_hits tag buf =
     (case TrimString buf of
        [] \<Rightarrow> False
      | c # rest \<Rightarrow>
          if c = CHR '','' then none_match_hits tag rest
          else if c = CHR ''*'' then True
          else (case scanETag (c # rest) of
                  None \<Rightarrow> False
                | Some (t, remain) \<Rightarrow>
                    if TrimPrefix t ''W/'' = TrimPrefix tag ''W/'' then True else none_match_hits tag remain))"
  by auto
termination
proof (relation "measure (\<lambda>(_, buf). length buf)")
  fix tag buf :: string and c rest
  assume "TrimString buf = c # rest"
  with TrimString_length [of buf] show "((tag, rest), (tag, buf)) \<in> measure (\<lambda>(_, buf). length buf)" by simp
next
  fix tag buf :: string and c rest x t remain
  assume "TrimString buf = c # rest" "scanETag (c # rest) = Some x" "(t, remain) = x"
  with TrimString_length [of buf] scanETag_shorter [of "c # rest" t remain]
  show "((tag, remain), (tag, buf)) \<in> measure (\<lambda>(_, buf). length buf)" by simp
qed simp

declare none_match_hits.simps [simp del]

definition ServeContent :: "web_lib \<Rightarrow> headers \<Rightarrow> http_request \<Rightarrow> string \<Rightarrow> string \<Rightarrow> response" where
  "ServeContent lib h rq name body =
     (let inm = Header_Get (hq_Header rq) ''If-None-Match'' in
      if inm \<noteq> '''' \<and> none_match_hits (Header_Get h ''Etag'') inm
      then \<lparr>rp_Status = 304, rp_Header = gm_del ''Content-Length'' (gm_del ''Content-Type'' h), rp_Content = NoContent\<rparr>
      else
        let ctype = (case gm_get h ''Content-Type'' of
                       Some t \<Rightarrow> t
                     | None \<Rightarrow> if wl_mime lib (path_Ext name) \<noteq> '''' then wl_mime lib (path_Ext name) else wl_sniff lib body)
        in \<lparr>rp_Status = 200,
            rp_Header = gm_put ''Content-Length'' (nat_string (length body)) (gm_put ''Accept-Ranges'' ''bytes'' (gm_put ''Content-Type'' ctype h)),
            rp_Content = (if hq_Method rq = ''HEAD'' then NoContent else FileBytes body)\<rparr>)"

definition web_serve :: "web_lib \<Rightarrow> headers \<Rightarrow> http_request \<Rightarrow> web_files \<Rightarrow> string \<Rightarrow> response" where
  "web_serve lib h rq files name =
     (case fs_Stat files name of
        Some (FileNode body) \<Rightarrow>
          ServeContent lib (if contentType lib name \<noteq> '''' then gm_put ''Content-Type'' (contentType lib name) h else h) rq name body
      | Some DirNode \<Rightarrow>
          http_Error (if contentType lib name \<noteq> '''' then gm_put ''Content-Type'' (contentType lib name) h else h)
            ''could not read bundled client'' 500
      | None \<Rightarrow> http_NotFound h)"

definition resolve_name :: "http_request \<Rightarrow> string" where
  "resolve_name rq =
     (let name = TrimPrefix (path_Clean (CHR ''/'' # hq_Path rq)) ''/''
      in if name = '''' \<or> name = ''.'' then entry_name else name)"

definition handleWith :: "web_lib \<Rightarrow> web_files \<Rightarrow> (string, string) gomap \<Rightarrow> headers \<Rightarrow> http_request \<Rightarrow> response" where
  "handleWith lib files tags h rq =
     (let name = resolve_name rq in
      if \<not> serveable files name \<and> \<not> acceptsHTML rq then http_NotFound h
      else
        let name = (if serveable files name then name else entry_name);
            tag = Header_Get tags name;
            h1 = (if tag \<noteq> '''' then gm_put ''Etag'' tag h else h)
        in web_serve lib (gm_put ''Cache-Control'' ''no-cache'' h1) rq files name)"

definition serveMissing :: "headers \<Rightarrow> response" where
  "serveMissing h =
     \<lparr>rp_Status = 404,
      rp_Header = gm_put ''Cache-Control'' ''no-cache'' (gm_put ''Content-Type'' ''text/html; charset=utf-8'' h),
      rp_Content = MissingPage\<rparr>"

definition guard :: "(headers \<Rightarrow> http_request \<Rightarrow> response) \<Rightarrow> headers \<Rightarrow> http_request \<Rightarrow> response" where
  "guard inner h rq =
     (let h1 = gm_put ''X-Content-Type-Options'' ''nosniff'' (gm_put ''X-Frame-Options'' ''DENY''
                 (gm_put ''Content-Security-Policy'' no_framing h)) in
      if hq_Method rq \<noteq> ''GET'' \<and> hq_Method rq \<noteq> ''HEAD''
      then http_Error (gm_put ''Allow'' ''GET, HEAD'' h1) ''method not allowed'' 405
      else inner h1 rq)"

definition handlerFrom :: "web_lib \<Rightarrow> web_files \<Rightarrow> headers \<Rightarrow> http_request \<Rightarrow> response" where
  "handlerFrom lib files =
     (if \<not> bundledIn files then guard (\<lambda>h rq. serveMissing h)
      else guard (\<lambda>h rq. handleWith lib files (etags lib files) h rq))"


section \<open>Which files are reached\<close>

lemma Split_segments: "seg \<in> set (Split p c) \<Longrightarrow> c \<notin> set seg"
  by (induction p arbitrary: seg) (auto split: list.splits if_splits)

definition plain_segment :: "string \<Rightarrow> bool" where
  "plain_segment seg \<longleftrightarrow> seg \<noteq> '''' \<and> seg \<noteq> ''.'' \<and> seg \<noteq> ''..'' \<and> CHR ''/'' \<notin> set seg"

lemma clean_step_plain:
  "list_all plain_segment st \<Longrightarrow> CHR ''/'' \<notin> set seg \<Longrightarrow> list_all plain_segment (clean_step seg st)"
  by (auto simp: clean_step_def plain_segment_def list_all_iff dest: in_set_butlastD)

lemma clean_segments_plain: "list_all plain_segment (clean_segments p)"
proof -
  have all: "list_all plain_segment (fold clean_step segs st)"
    if "list_all plain_segment st" "\<forall>seg \<in> set segs. CHR ''/'' \<notin> set seg" for segs st
    using that by (induction segs arbitrary: st) (auto intro: clean_step_plain)
  show ?thesis unfolding clean_segments_def by (rule all) (auto dest: Split_segments)
qed

text \<open>However the request spells it, the name looked up has only plain segments.\<close>

lemma resolve_name_plain: "list_all plain_segment (Split (resolve_name rq) (CHR ''/''))"
proof -
  define segs where "segs = clean_segments (CHR ''/'' # hq_Path rq)"
  have plain: "list_all plain_segment segs" unfolding segs_def by (rule clean_segments_plain)
  have name: "resolve_name rq = (if Join segs (CHR ''/'') = '''' \<or> Join segs (CHR ''/'') = ''.'' then entry_name else Join segs (CHR ''/''))"
    by (simp add: resolve_name_def path_Clean_def segs_def TrimPrefix_def Let_def)
  have "list_all plain_segment (Split entry_name (CHR ''/''))" by code_simp
  moreover have "list_all plain_segment (Split (Join segs (CHR ''/'')) (CHR ''/''))" if "segs \<noteq> []"
    using plain that by (subst Split_Join) (auto simp: list_all_iff plain_segment_def)
  ultimately show ?thesis unfolding name by (cases "segs = []") auto
qed

lemma serveable_iff:
  "serveable files name \<longleftrightarrow>
     (\<forall>seg \<in> set (Split name (CHR ''/'')). \<not> HasPrefix seg ''.'' \<and> seg \<noteq> '''') \<and> (\<exists>body. gm_get files name = Some (FileNode body))"
  (is "?l \<longleftrightarrow> ?r")
proof
  assume ?l
  then have dots: "\<forall>seg \<in> set (Split name (CHR ''/'')). \<not> HasPrefix seg ''.''"
    and stat: "ValidPath name" "\<exists>body. gm_get files name = Some (FileNode body)"
    by (auto simp: serveable_def fs_Stat_def split: option.splits node.splits if_splits)
  have "name \<noteq> ''.''" using dots by auto
  with stat have "\<forall>seg \<in> set (Split name (CHR ''/'')). seg \<noteq> ''''" by (auto simp: ValidPath_def)
  with dots stat show ?r by blast
next
  assume r: ?r
  then have "ValidPath name" by (fastforce simp: ValidPath_def)
  with r show ?l by (auto simp: serveable_def fs_Stat_def)
qed

lemma entry_serveable: "bundledIn files \<Longrightarrow> serveable files entry_name"
proof -
  have "\<forall>seg \<in> set (Split entry_name (CHR ''/'')). \<not> HasPrefix seg ''.''" by code_simp
  then show "bundledIn files \<Longrightarrow> serveable files entry_name"
    by (auto simp: bundledIn_def serveable_def split: option.splits node.splits)
qed

lemma etags_get:
  "gm_wf files \<Longrightarrow> gm_get files name = Some (FileNode body) \<Longrightarrow> Header_Get (etags lib files) name = etag_of lib body"
proof (induction files rule: etags.induct)
  case (2 lib n files)
  then show ?case by (auto simp: gm_wf_Cons split: if_splits)
next
  case (3 lib n b files)
  then show ?case by (auto simp: gm_wf_Cons Header_Get_def split: if_splits)
qed simp

lemma etag_of_not_empty: "etag_of lib body \<noteq> ''''"
  by (simp add: etag_of_def)

text \<open>What a file that is there is answered with.\<close>

lemma web_serve_file:
  assumes "gm_wf files" "serveable files name" "gm_get files name = Some (FileNode body)"
  shows "\<exists>h'. web_serve lib h rq files name = ServeContent lib h' rq name body \<and>
    (h' = h \<or> (\<exists>t. h' = gm_put ''Content-Type'' t h))"
proof -
  have "fs_Stat files name = Some (FileNode body)"
    using assms(2,3) by (auto simp: serveable_def fs_Stat_def split: option.splits if_splits)
  then show ?thesis by (auto simp: web_serve_def)
qed

lemma Header_Get_del [simp]: "k' \<noteq> k \<Longrightarrow> Header_Get (gm_del k h) k' = Header_Get h k'"
  by (simp add: Header_Get_def gomap_simps)

lemma ServeContent_headers:
  "gm_wf h \<Longrightarrow> k \<notin> {''Content-Type'', ''Content-Length'', ''Accept-Ranges''} \<Longrightarrow>
     Header_Get (rp_Header (ServeContent lib h rq name body)) k = Header_Get h k"
  by (simp add: ServeContent_def Let_def)

definition guard_headers :: "headers \<Rightarrow> headers" where
  "guard_headers h = gm_put ''X-Content-Type-Options'' ''nosniff'' (gm_put ''X-Frame-Options'' ''DENY''
     (gm_put ''Content-Security-Policy'' no_framing h))"

definition unframed :: "headers \<Rightarrow> bool" where
  "unframed h \<longleftrightarrow> Header_Get h ''Content-Security-Policy'' = no_framing \<and> Header_Get h ''X-Frame-Options'' = ''DENY'' \<and>
     Header_Get h ''X-Content-Type-Options'' = ''nosniff''"

lemma guard_headers_unframed: "gm_wf h \<Longrightarrow> unframed (guard_headers h) \<and> gm_wf (guard_headers h)"
  by (simp add: unframed_def guard_headers_def)

lemma unframed_simps:
  "gm_wf h \<Longrightarrow> unframed h \<Longrightarrow> k \<notin> {''Content-Security-Policy'', ''X-Frame-Options'', ''X-Content-Type-Options''} \<Longrightarrow> unframed (gm_put k v h)"
  "gm_wf h \<Longrightarrow> unframed h \<Longrightarrow> unframed (rp_Header (http_Error h msg code))"
  "gm_wf h \<Longrightarrow> unframed h \<Longrightarrow> unframed (rp_Header (ServeContent lib h rq name body))"
  by (auto simp: unframed_def http_Error_def ServeContent_headers)

lemma resolve_name_serveable_or_entry:
  assumes "bundledIn files" "name = (if serveable files (resolve_name rq) then resolve_name rq else entry_name)"
  shows "serveable files name"
  using assms entry_serveable by simp

text \<open>The answer to a GET or HEAD for a file, with the headers it carries.\<close>

lemma handler_serves:
  assumes "gm_wf files" "gm_wf h" "bundledIn files" "hq_Method rq \<in> {''GET'', ''HEAD''}"
    and "serveable files (resolve_name rq) \<or> acceptsHTML rq"
    and "name = (if serveable files (resolve_name rq) then resolve_name rq else entry_name)"
    and "gm_get files name = Some (FileNode body)"
  shows "\<exists>h'. handlerFrom lib files h rq = ServeContent lib h' rq name body \<and> gm_wf h' \<and> unframed h' \<and>
    Header_Get h' ''Etag'' = etag_of lib body"
proof -
  have s: "serveable files name" by (rule resolve_name_serveable_or_entry [OF assms(3,6)])
  let ?h1 = "gm_put ''Cache-Control'' ''no-cache'' (gm_put ''Etag'' (etag_of lib body) (guard_headers h))"
  have h1: "gm_wf ?h1" "unframed ?h1" "Header_Get ?h1 ''Etag'' = etag_of lib body"
    using guard_headers_unframed [OF assms(2)] by (auto simp: unframed_simps)
  have "handlerFrom lib files h rq = web_serve lib ?h1 rq files name"
    using assms(3-6) etags_get [OF assms(1,7), of lib] etag_of_not_empty [of lib body]
    by (auto simp: handlerFrom_def guard_def handleWith_def guard_headers_def Let_def)
  moreover obtain h' where "web_serve lib ?h1 rq files name = ServeContent lib h' rq name body"
      "h' = ?h1 \<or> (\<exists>t. h' = gm_put ''Content-Type'' t ?h1)"
    using web_serve_file [OF assms(1) s assms(7)] by blast
  moreover from this(2) h1 have "gm_wf h' \<and> unframed h' \<and> Header_Get h' ''Etag'' = etag_of lib body"
    by (auto simp: unframed_simps)
  ultimately show ?thesis by auto
qed

text \<open>Every other answer carries no file.\<close>

lemma handler_refuses:
  assumes "gm_wf h" "\<not> (bundledIn files \<and> hq_Method rq \<in> {''GET'', ''HEAD''} \<and> (serveable files (resolve_name rq) \<or> acceptsHTML rq))"
  shows "rp_Status (handlerFrom lib files h rq) \<in> {404, 405} \<and> unframed (rp_Header (handlerFrom lib files h rq)) \<and>
    (\<forall>body. rp_Content (handlerFrom lib files h rq) \<noteq> FileBytes body)"
proof -
  note g = guard_headers_unframed [OF assms(1)]
  have e: "rp_Status (http_Error h0 msg code) = code" "rp_Content (http_Error h0 msg code) = Plain (msg @ [CHR 0x0A])" for h0 msg code
    by (simp_all add: http_Error_def)
  have "handlerFrom lib files h rq = http_Error (gm_put ''Allow'' ''GET, HEAD'' (guard_headers h)) ''method not allowed'' 405 \<or>
      handlerFrom lib files h rq = serveMissing (guard_headers h) \<or> handlerFrom lib files h rq = http_NotFound (guard_headers h)"
  proof (cases "hq_Method rq \<in> {''GET'', ''HEAD''}")
    case False
    then show ?thesis by (simp add: handlerFrom_def guard_def guard_headers_def Let_def)
  next
    case True
    show ?thesis
    proof (cases "bundledIn files")
      case b: True
      with assms(2) True have "\<not> serveable files (resolve_name rq)" "\<not> acceptsHTML rq" by blast+
      then have "handleWith lib files (etags lib files) (guard_headers h) rq = http_NotFound (guard_headers h)"
        by (simp add: handleWith_def Let_def)
      with True b show ?thesis by (auto simp: handlerFrom_def guard_def guard_headers_def Let_def)
    qed (use True in \<open>auto simp: handlerFrom_def guard_def guard_headers_def Let_def\<close>)
  qed
  moreover have "unframed (rp_Header (serveMissing (guard_headers h)))" using g by (simp add: serveMissing_def unframed_simps)
  moreover have "unframed (rp_Header (http_Error (gm_put ''Allow'' ''GET, HEAD'' (guard_headers h)) ''method not allowed'' 405))"
      "unframed (rp_Header (http_NotFound (guard_headers h)))"
    using g by (simp_all add: http_NotFound_def unframed_simps)
  moreover have "rp_Status (serveMissing (guard_headers h)) = 404" "rp_Content (serveMissing (guard_headers h)) = MissingPage"
      "rp_Status (http_NotFound (guard_headers h)) = 404" "\<exists>m. rp_Content (http_NotFound (guard_headers h)) = Plain m"
    by (simp_all add: serveMissing_def http_NotFound_def e)
  ultimately show ?thesis using e by (elim disjE) auto
qed

section \<open>Revalidation\<close>

lemma byte_lower_hex: "d < 16 \<Longrightarrow> byte (lower_hex d) = (if d < 10 then 48 + d else 87 + d)"
  by (simp add: lower_hex_def)

lemma lower_hex_inj:
  assumes "d < 16" "d' < 16" "lower_hex d = lower_hex d'"
  shows "d = d'"
proof -
  have "(if d < 10 then 48 + d else 87 + d) = (if d' < 10 then 48 + d' else 87 + d')"
    using byte_lower_hex [OF assms(1)] byte_lower_hex [OF assms(2)] assms(3) by metis
  then show ?thesis by presburger
qed

lemma lower_hex_etag_char: "d < 16 \<Longrightarrow> etag_char (lower_hex d)"
  using byte_lower_hex [of d] by (auto simp: etag_char_def Let_def)

lemma byte_less: "byte c < 256"
  using nat_of_char_less_256 [of c] by simp

lemma hex_encode_inj: "hex_encode s = hex_encode t \<Longrightarrow> s = t"
proof (induction s arbitrary: t)
  case Nil
  then show ?case by (cases t) (auto simp: hex_encode_def)
next
  case (Cons c s)
  then obtain d t' where t: "t = d # t'" by (cases t) (auto simp: hex_encode_def)
  have "byte c div 16 < 16" "byte d div 16 < 16" using byte_less [of c] byte_less [of d] by linarith+
  then have "byte c div 16 = byte d div 16" "byte c mod 16 = byte d mod 16"
    using Cons.prems lower_hex_inj [of "byte c div 16" "byte d div 16"] lower_hex_inj [of "byte c mod 16" "byte d mod 16"]
    by (auto simp: t hex_encode_def)
  then have "byte c = byte d" by (metis div_mult_mod_eq)
  then have "c = d" by simp
  with Cons t show ?case by (auto simp: hex_encode_def)
qed

lemma hex_encode_etag_char: "c \<in> set (hex_encode s) \<Longrightarrow> etag_char c"
proof -
  have "byte x div 16 < 16" for x using byte_less [of x] by linarith
  then show "c \<in> set (hex_encode s) \<Longrightarrow> etag_char c"
    by (auto simp: hex_encode_def intro: lower_hex_etag_char)
qed

lemma etag_of_inj: "etag_of lib b = etag_of lib b' \<longleftrightarrow> take 16 (wl_sha256 lib b) = take 16 (wl_sha256 lib b')"
  by (auto simp: etag_of_def dest: hex_encode_inj)

lemma scanETag_etag_of: "scanETag (etag_of lib b) = Some (etag_of lib b, '''') \<and> TrimString (etag_of lib b) = etag_of lib b"
proof -
  define hex where "hex = hex_encode (take 16 (wl_sha256 lib b))"
  have e: "etag_of lib b = CHR 0x22 # hex @ [CHR 0x22]" by (simp add: etag_of_def hex_def)
  have chars: "\<forall>c \<in> set hex. etag_char c" unfolding hex_def using hex_encode_etag_char by blast
  have "\<not> http_space (CHR 0x22)" "\<not> etag_char (CHR 0x22)" by code_simp+
  then have "TrimString (etag_of lib b) = etag_of lib b" "dropWhile etag_char (hex @ [CHR 0x22]) = [CHR 0x22]"
      "takeWhile etag_char (hex @ [CHR 0x22]) = hex"
    using chars by (simp_all add: TrimString_def e takeWhile_append2 dropWhile_append2)
  then have "scanETag (CHR 0x22 # hex @ [CHR 0x22]) = Some (CHR 0x22 # hex @ [CHR 0x22], '''')"
    unfolding scanETag_def Let_def e by simp
  with \<open>TrimString (etag_of lib b) = etag_of lib b\<close> show ?thesis by (simp only: e)
qed

lemma none_match_own:
  "none_match_hits (etag_of lib b) (etag_of lib b') \<longleftrightarrow> take 16 (wl_sha256 lib b) = take 16 (wl_sha256 lib b')"
proof -
  obtain rest where e: "etag_of lib b' = CHR 0x22 # rest" by (simp add: etag_of_def)
  have plain: "TrimPrefix (etag_of lib x) ''W/'' = etag_of lib x" for x by (simp add: TrimPrefix_def etag_of_def)
  have "none_match_hits (etag_of lib b) '''' = False" by (subst none_match_hits.simps) (simp add: TrimString_def)
  moreover have "TrimString (etag_of lib b') = CHR 0x22 # rest" "scanETag (CHR 0x22 # rest) = Some (etag_of lib b', '''')"
    using scanETag_etag_of [of lib b'] by (simp_all add: e)
  ultimately have "none_match_hits (etag_of lib b) (etag_of lib b') \<longleftrightarrow> etag_of lib b' = etag_of lib b"
    by (subst none_match_hits.simps) (simp add: plain)
  then show ?thesis using etag_of_inj [of lib b b'] by auto
qed


section \<open>Properties\<close>

text \<open>
  C30: Whatever path a request spells, every answer forbids framing, and the only file contents it
  can carry are those of a bundled file whose name has no empty and no dot segment: the file
  the path resolves to, or the entry document for a navigation when that is not a file.  Such
  a file is carried, with its validator, whenever a GET names it and holds no copy; a missing
  asset is not answered with the entry document.
\<close>

theorem webui_confined:
  assumes "gm_wf files" "gm_wf h" "handlerFrom lib files h rq = rp"
  shows "unframed (rp_Header rp) \<and>
    (\<forall>body. rp_Content rp = FileBytes body \<longrightarrow>
       hq_Method rq = ''GET'' \<and> rp_Status rp = 200 \<and> Header_Get (rp_Header rp) ''Etag'' = etag_of lib body \<and>
       (\<exists>name. gm_get files name = Some (FileNode body) \<and>
          (\<forall>seg \<in> set (Split name (CHR ''/'')). \<not> HasPrefix seg ''.'' \<and> seg \<noteq> '''') \<and>
          (name = resolve_name rq \<or> name = entry_name \<and> acceptsHTML rq \<and> \<not> serveable files (resolve_name rq)))) \<and>
    (bundledIn files \<and> hq_Method rq = ''GET'' \<and> Header_Get (hq_Header rq) ''If-None-Match'' = '''' \<and>
       serveable files (resolve_name rq) \<longrightarrow>
       (\<exists>body. gm_get files (resolve_name rq) = Some (FileNode body) \<and> rp_Content rp = FileBytes body)) \<and>
    (\<not> serveable files (resolve_name rq) \<and> \<not> acceptsHTML rq \<longrightarrow> rp_Status rp \<in> {404, 405})"
  (is "?A \<and> ?B \<and> ?C \<and> ?D")
proof (cases "bundledIn files \<and> hq_Method rq \<in> {''GET'', ''HEAD''} \<and> (serveable files (resolve_name rq) \<or> acceptsHTML rq)")
  case False
  from handler_refuses [OF assms(2) this, of lib]
  have r: "rp_Status rp \<in> {404, 405}" "unframed (rp_Header rp)" "\<And>body. rp_Content rp \<noteq> FileBytes body"
    unfolding assms(3) by blast+
  then have ?B by simp
  moreover from False have ?C by blast
  ultimately show ?thesis using r(1,2) by blast
next
  case True
  define name where "name = (if serveable files (resolve_name rq) then resolve_name rq else entry_name)"
  then have s: "serveable files name" using True resolve_name_serveable_or_entry by blast
  then obtain body where body: "gm_get files name = Some (FileNode body)" by (auto simp: serveable_iff)
  from True have t: "bundledIn files" "hq_Method rq \<in> {''GET'', ''HEAD''}" "serveable files (resolve_name rq) \<or> acceptsHTML rq" by blast+
  from handler_serves [OF assms(1,2) t name_def body, of lib] assms(3) obtain h' where
    h': "rp = ServeContent lib h' rq name body" "gm_wf h'" "unframed h'" "Header_Get h' ''Etag'' = etag_of lib body"
    by blast
  have content: "b = body \<and> hq_Method rq = ''GET'' \<and> rp_Status rp = 200" if "rp_Content rp = FileBytes b" for b
    using that t(2) unfolding h'(1) by (auto simp: ServeContent_def Let_def split: if_splits)
  have etag: "Header_Get (rp_Header rp) ''Etag'' = etag_of lib body"
    using ServeContent_headers [OF h'(2), of "''Etag''" lib rq name body] h'(1,4) by simp
  have "\<forall>seg \<in> set (Split name (CHR ''/'')). \<not> HasPrefix seg ''.'' \<and> seg \<noteq> ''''"
      "name = resolve_name rq \<or> name = entry_name \<and> acceptsHTML rq \<and> \<not> serveable files (resolve_name rq)"
    using s t(3) unfolding serveable_iff [of files name] by (blast, auto simp: name_def)
  with content etag body have ?B by metis
  moreover have ?C
  proof
    assume c: "bundledIn files \<and> hq_Method rq = ''GET'' \<and> Header_Get (hq_Header rq) ''If-None-Match'' = '''' \<and> serveable files (resolve_name rq)"
    then have "rp_Content rp = FileBytes body" "name = resolve_name rq" by (simp_all add: h'(1) ServeContent_def Let_def name_def)
    with body show "\<exists>body. gm_get files (resolve_name rq) = Some (FileNode body) \<and> rp_Content rp = FileBytes body" by blast
  qed
  moreover have ?A unfolding h'(1) by (rule unframed_simps(3) [OF h'(2,3)])
  ultimately show ?thesis using t(3) by blast
qed

definition demo_bundle :: web_files where
  "demo_bundle = [(''.gitkeep'', FileNode ''''), (''assets'', DirNode), (''assets/a.js'', FileNode ''js''), (''index.html'', FileNode ''page'')]"

definition demo_lib :: web_lib where
  "demo_lib = \<lparr>wl_sha256 = (\<lambda>s. s), wl_mime = (\<lambda>_. ''''), wl_sniff = (\<lambda>_. ''text/plain'')\<rparr>"

definition web_get :: "string \<Rightarrow> headers \<Rightarrow> http_request" where
  "web_get p h = \<lparr>hq_Method = ''GET'', hq_Host = ''booth'', hq_Path = p, hq_Query = [], hq_Header = h\<rparr>"

text \<open>A climbing path reaches a bundled file, a dotfile and a missing script do not leave the bundle.\<close>

lemma webui_confined_witness:
  "rp_Content (handlerFrom demo_lib demo_bundle [] (web_get ''/../../assets/x/../a.js'' [])) = FileBytes ''js'' \<and>
   unframed (rp_Header (handlerFrom demo_lib demo_bundle [] (web_get ''/.gitkeep'' [(''Accept'', ''*/*'')]))) \<and>
   rp_Status (handlerFrom demo_lib demo_bundle [] (web_get ''/.gitkeep'' [(''Accept'', ''*/*'')])) \<in> {404, 405}"
proof -
  have wf: "gm_wf demo_bundle" by code_simp
  have "bundledIn demo_bundle" "resolve_name (web_get ''/../../assets/x/../a.js'' []) = ''assets/a.js''"
      "serveable demo_bundle ''assets/a.js''" "map_of demo_bundle ''assets/a.js'' = Some (FileNode ''js'')"
    by code_simp+
  moreover have "\<not> serveable demo_bundle (resolve_name (web_get ''/.gitkeep'' [(''Accept'', ''*/*'')]))"
      "\<not> acceptsHTML (web_get ''/.gitkeep'' [(''Accept'', ''*/*'')])"
    by code_simp+
  ultimately show ?thesis
    using webui_confined [OF wf gm_wf_Nil refl, of demo_lib "web_get ''/../../assets/x/../a.js'' []"]
      webui_confined [OF wf gm_wf_Nil refl, of demo_lib "web_get ''/.gitkeep'' [(''Accept'', ''*/*'')]"]
    by (simp add: web_get_def Header_Get_def)
qed

text \<open>
  A client that revalidates its copy of a file is told it is current exactly when the
  truncated digest of the file in this build is that of the copy; otherwise it gets the file.
\<close>

lemma etag_revalidates:
  assumes "gm_wf files" "gm_wf h" "bundledIn files" "hq_Method rq = ''GET''"
    and "serveable files (resolve_name rq)" "gm_get files (resolve_name rq) = Some (FileNode body)"
    and "Header_Get (hq_Header rq) ''If-None-Match'' = etag_of lib copy"
  shows "if take 16 (wl_sha256 lib copy) = take 16 (wl_sha256 lib body)
    then rp_Status (handlerFrom lib files h rq) = 304 \<and> rp_Content (handlerFrom lib files h rq) = NoContent
    else rp_Status (handlerFrom lib files h rq) = 200 \<and> rp_Content (handlerFrom lib files h rq) = FileBytes body"
proof -
  have m: "hq_Method rq \<in> {''GET'', ''HEAD''}" "serveable files (resolve_name rq) \<or> acceptsHTML rq"
      "resolve_name rq = (if serveable files (resolve_name rq) then resolve_name rq else entry_name)"
    using assms(4,5) by simp_all
  from handler_serves [OF assms(1-3) m assms(6), of lib] obtain h' where
    h': "handlerFrom lib files h rq = ServeContent lib h' rq (resolve_name rq) body" "Header_Get h' ''Etag'' = etag_of lib body"
    by blast
  have "none_match_hits (Header_Get h' ''Etag'') (etag_of lib copy) \<longleftrightarrow> take 16 (wl_sha256 lib copy) = take 16 (wl_sha256 lib body)"
    unfolding h'(2) none_match_own by auto
  then show ?thesis using assms(4,7) etag_of_not_empty [of lib copy] by (simp add: h'(1) ServeContent_def Let_def)
qed

lemma etag_revalidates_witness:
  "rp_Status (handlerFrom demo_lib demo_bundle [] (web_get ''/'' [(''If-None-Match'', etag_of demo_lib ''page'')])) = 304 \<and>
   rp_Content (handlerFrom demo_lib demo_bundle [] (web_get ''/'' [(''If-None-Match'', etag_of demo_lib ''old'')])) = FileBytes ''page''"
proof -
  have wf: "gm_wf demo_bundle" and b: "bundledIn demo_bundle" by code_simp+
  have r: "resolve_name (web_get ''/'' hd) = ''index.html''" for hd
    by (simp add: resolve_name_def web_get_def path_Clean_def clean_segments_def clean_step_def TrimPrefix_def entry_name_def)
  have s: "serveable demo_bundle ''index.html''" "map_of demo_bundle ''index.html'' = Some (FileNode ''page'')" by code_simp+
  have d: "take 16 (wl_sha256 demo_lib ''old'') \<noteq> take 16 (wl_sha256 demo_lib ''page'')" by (simp add: demo_lib_def)
  show ?thesis
    using etag_revalidates [OF wf gm_wf_Nil b, of "web_get ''/'' [(''If-None-Match'', etag_of demo_lib ''page'')]" "''page''" demo_lib "''page''"]
      etag_revalidates [OF wf gm_wf_Nil b, of "web_get ''/'' [(''If-None-Match'', etag_of demo_lib ''old'')]" "''page''" demo_lib "''old''"]
      r s d by (simp add: web_get_def Header_Get_def)
qed

end
