(* ===== verification/Service.thy ===== *)
theory Service
  imports ChatRoutes WebUI CompanionClient
begin

text \<open>
  server/cmd/cuebooth-server and the rest of server/internal/api/server.go: building the server
  from a configuration, which handler answers which path, the graceful stop and its budget, and
  the Windows service loop.  Signals, listeners and the log are left out; how long each part of a
  stop would take is an input.
\<close>

section \<open>Starting up\<close>

definition version :: string where "version = ''0.1.0''"

datatype level = LevelInfo | LevelWarn

definition webClientStatus :: "bool \<Rightarrow> level \<times> string" where
  "webClientStatus bundled =
     (if bundled then (LevelInfo, ''web client bundled; browse to the listen address to use it'')
      else (LevelWarn, ''no web client bundled; run `make web` before `make build` to include one''))"

datatype run_error = LoadFailed load_error | ClientFailed new_error | ProviderFailed chat_error | ServeFailed

text \<open>What a start meets: \<open>url.Parse\<close> as the client reads it, the host's name, the token file.\<close>

record boot =
  bt_load :: load_env
  bt_parse :: "string \<Rightarrow> (string \<times> string) option"
  bt_hostname :: string
  bt_tokens :: "string \<Rightarrow> (TokenStore.store_error, tokens) result"

definition restream_config_of :: "chat_config \<Rightarrow> restream_config" where
  "restream_config_of cc =
     \<lparr>rc_ClientID = ClientID cc, rc_ClientSecret = ClientSecret cc, rc_RedirectURI = RedirectURI cc, rc_TokenFile = TokenFile cc\<rparr>"

definition chat_provider_of :: "boot \<Rightarrow> chat_config \<Rightarrow> (chat_error, restream option) result" where
  "chat_provider_of b cc =
     (if ChatConfig_Disabled cc then Inr None
      else case NewRestream (restream_config_of cc) None (bt_tokens b (TokenFile cc)) of
             Inl err \<Rightarrow> Inl err
           | Inr r \<Rightarrow> Inr (Some r))"

definition satellite_of :: "config \<Rightarrow> satellite option" where
  "satellite_of cfg =
     (let sc = Satellite_section (cfg_Companion cfg)
      in if SatelliteConfig_Disabled sc then None else Some (NewSatellite (sat_config_of sc)))"

text \<open>\<open>NewServer\<close> with a chat provider publishes its status before anything is served.\<close>

definition new_chat_api :: "chat_env \<Rightarrow> server \<Rightarrow> restream \<Rightarrow> restream chat_api" where
  "new_chat_api e s r = publishChatStatus restream_provider e
     \<lparr>ca_server = s, ca_provider = r, ca_starts = newRateLimiter chatStartBurst chatStartEvery, ca_callbacks = 0\<rparr>"

datatype api = PlainAPI server | ChatAPI "restream chat_api"

text \<open>\<open>run\<close>, up to where it starts serving.\<close>

definition build :: "boot \<Rightarrow> chat_env \<Rightarrow> string \<Rightarrow> (run_error, client \<times> api) result" where
  "build b e configPath =
     (case fst (Load (bt_load b) configPath) of
        Inl err \<Rightarrow> Inl (LoadFailed err)
      | Inr cfg \<Rightarrow>
          (case New (bt_parse b) (BaseURL (cfg_Companion cfg)) [] of
             Inl err \<Rightarrow> Inl (ClientFailed err)
           | Inr cl \<Rightarrow>
               let s = NewServer cfg version (bt_hostname b) (satellite_of cfg) in
               (case chat_provider_of b (cfg_Chat cfg) of
                  Inl err \<Rightarrow> Inl (ProviderFailed err)
                | Inr None \<Rightarrow> Inr (cl, PlainAPI s)
                | Inr (Some r) \<Rightarrow> Inr (cl, ChatAPI (new_chat_api e s r)))))"

section \<open>Routes\<close>

datatype route = RouteWS | RouteMeters | RouteChatURL | RouteChatStart | RouteChatCallback | RouteWeb

text \<open>For a path the mux finds clean; it redirects any other to its cleaned form.\<close>

definition mux_route :: "bool \<Rightarrow> string \<Rightarrow> route" where
  "mux_route chat p =
     (if p = ''/ws'' then RouteWS
      else if p = ''/ws/meters'' then RouteMeters
      else if chat \<and> p = chatURLPath then RouteChatURL
      else if chat \<and> p = chatAuthPath then RouteChatStart
      else if chat \<and> p = ChatCallbackPath then RouteChatCallback
      else RouteWeb)"

text \<open>
  The HTTP answers of the whole listener; \<open>None\<close> for an upgrade to a WebSocket, which
  \<open>ServerModel\<close> takes over, and for a panic.
\<close>

definition serve_api ::
  "url_parser \<Rightarrow> web_lib \<Rightarrow> web_files \<Rightarrow> chat_env \<Rightarrow> time \<Rightarrow> http_request \<Rightarrow> headers \<Rightarrow> api \<Rightarrow> api \<times> response option" where
  "serve_api parse lib files e now rq h a =
     (case a of
        PlainAPI s \<Rightarrow>
          (case mux_route False (hq_Path rq) of
             RouteWeb \<Rightarrow> (a, Some (handlerFrom lib files h rq))
           | _ \<Rightarrow> (a, None))
      | ChatAPI c \<Rightarrow>
          (case mux_route True (hq_Path rq) of
             RouteWeb \<Rightarrow> (a, Some (handlerFrom lib files h rq))
           | RouteChatURL \<Rightarrow> (let (c', rp) = serveChatURL parse restream_provider e h rq c in (ChatAPI c', Some rp))
           | RouteChatStart \<Rightarrow> (let (c', rp) = serveChatAuthStart parse restream_provider e now h rq c in (ChatAPI c', rp))
           | RouteChatCallback \<Rightarrow> (let (c', rp) = serveChatAuthCallback parse restream_provider e h rq c in (ChatAPI c', Some rp))
           | _ \<Rightarrow> (a, None)))"

definition Handler ::
  "url_parser \<Rightarrow> web_lib \<Rightarrow> web_files \<Rightarrow> chat_env \<Rightarrow> time \<Rightarrow> http_request \<Rightarrow> api \<Rightarrow> api \<times> response option" where
  "Handler parse lib files e now rq a = withCommonHeaders (\<lambda>h. serve_api parse lib files e now rq h a) []"

section \<open>Stopping\<close>

definition shutdownTimeout :: int where "shutdownTimeout = 5 * Second"
definition chatDrainTimeout :: int where "chatDrainTimeout = 25 * Second"
definition drainPollInterval :: int where "drainPollInterval = 20 * Millisecond"

definition StopBudget :: int where "StopBudget = shutdownTimeout + chatDrainTimeout"

text \<open>
  A wait under a context: from \<open>now\<close> until \<open>until\<close> or the deadline, and whether it was not cut off.
\<close>

definition wait_for :: "int \<Rightarrow> int \<Rightarrow> int \<Rightarrow> int \<times> bool" where
  "wait_for now until deadline =
     (if until \<le> now then (now, True) else if until \<le> deadline then (until, True) else (max now deadline, False))"

text \<open>
  \<open>Drain\<close> under a context, with the number of exchanges in flight at each instant: it looks at
  once and then at every tick, and returns at the first look that finds none, or when the
  deadline comes.  A tick that is due together with the deadline may win or lose (\<open>tick_wins\<close>).
\<close>

function drain_wait :: "bool \<Rightarrow> (int \<Rightarrow> int) \<Rightarrow> int \<Rightarrow> int \<Rightarrow> int \<times> bool" where
  "drain_wait tick_wins calls deadline now =
     (if calls now = 0 then (now, True)
      else
        let tick = now + drainPollInterval in
        if tick < deadline \<or> tick_wins \<and> tick = deadline then drain_wait tick_wins calls deadline tick
        else (max now deadline, False))"
  by auto
termination
  by (relation "measure (\<lambda>(_, _, deadline, now). nat (deadline - now + 1))")
    (auto simp: drainPollInterval_def Millisecond_def)

declare drain_wait.simps [simp del]

text \<open>
  Nanoseconds after the stop at which a poll of \<open>Shutdown\<close> first finds the plain HTTP requests
  done and at which the WebSocket handlers have returned, the number of token exchanges in
  flight at each instant, and which way \<open>Drain\<close>'s select falls on a tie.
\<close>

record stop_env =
  sp_idle :: int
  sp_conns :: int
  sp_calls :: "int \<Rightarrow> int"
  sp_tickWins :: bool

record stop_result =
  sr_server :: server
  sr_elapsed :: int
  sr_shutdownOK :: bool
  sr_drained :: bool

text \<open>
  The branch of \<open>serve\<close> that a cancelled context takes; \<open>s\<close> is the server when \<open>closeAll\<close> runs.
  A connection that joins the hub after that is not closed by it.
\<close>

definition serve_stop :: "stop_env \<Rightarrow> bool \<Rightarrow> server \<Rightarrow> stop_result" where
  "serve_stop sp chat s =
     (let (t1, ok) = wait_for 0 (sp_idle sp) shutdownTimeout;
          s1 = s\<lparr>sv_hub := closeAll ''server shutting down'' (sv_hub s)\<rparr>;
          (t2, _) = wait_for t1 (sp_conns sp) shutdownTimeout;
          (t3, drained) = (if chat then drain_wait (sp_tickWins sp) (sp_calls sp) (t2 + chatDrainTimeout) t2 else (t2, True))
      in \<lparr>sr_server = s1, sr_elapsed = t3, sr_shutdownOK = ok, sr_drained = drained\<rparr>)"

text \<open>What \<open>serve\<close> returns: the error of the shutdown, or of the listener unless it was byUs.\<close>

datatype serve_outcome = StopRequested stop_env | ListenerEnded bool

fun serve_result :: "bool \<Rightarrow> server \<Rightarrow> serve_outcome \<Rightarrow> run_error option" where
  "serve_result chat s (StopRequested sp) = (if sr_shutdownOK (serve_stop sp chat s) then None else Some ServeFailed)"
| "serve_result chat s (ListenerEnded byUs) = (if byUs then None else Some ServeFailed)"

section \<open>The Windows service\<close>

definition serviceName :: string where "serviceName = ''CueBoothServer''"

text \<open>\<open>resolveServiceConfigPath\<close>: \<open>exe\<close> is what \<open>os.Executable\<close> answers.\<close>

definition resolveServiceConfigPath :: "load_env \<Rightarrow> string option \<Rightarrow> string \<Rightarrow> string" where
  "resolveServiceConfigPath le exe configPath =
     (if le_IsAbs le configPath then configPath
      else case exe of None \<Rightarrow> configPath | Some x \<Rightarrow> le_PathJoin le (le_Dir le x) configPath)"

datatype svc_cmd = Interrogate | Stop | Shutdown | OtherCmd

datatype svc_status = StartPending | Running | StopPending nat | Stopped | CurrentStatus

text \<open>What the loop receives: a request of the SCM, or the end of \<open>run\<close> with its error.\<close>

datatype svc_event = Request svc_cmd | RunEnded "run_error option"

definition stopped :: "run_error option \<Rightarrow> svc_status list \<times> (bool \<times> nat)" where
  "stopped err = ([Stopped], case err of Some _ \<Rightarrow> (True, 1) | None \<Rightarrow> (False, 0))"

text \<open>\<open>uint32\<close> of the budget in milliseconds.\<close>

definition waitHint :: nat where
  "waitHint = nat ((StopBudget div Millisecond) mod 2 ^ 32)"

text \<open>After a stop request only the end of \<open>run\<close> is received.\<close>

fun await_run :: "svc_event list \<Rightarrow> svc_status list \<times> (bool \<times> nat) option" where
  "await_run [] = ([], None)"
| "await_run (Request _ # es) = await_run es"
| "await_run (RunEnded err # es) = (let (st, r) = stopped err in (st, Some r))"

fun svc_loop :: "svc_event list \<Rightarrow> svc_status list \<times> (bool \<times> nat) option" where
  "svc_loop [] = ([], None)"
| "svc_loop (Request Interrogate # es) = (let (st, r) = svc_loop es in (CurrentStatus # st, r))"
| "svc_loop (Request Stop # es) = (let (st, r) = await_run es in (StopPending waitHint # st, r))"
| "svc_loop (Request Shutdown # es) = (let (st, r) = await_run es in (StopPending waitHint # st, r))"
| "svc_loop (Request OtherCmd # es) = svc_loop es"
| "svc_loop (RunEnded err # es) = (let (st, r) = stopped err in (st, Some r))"

text \<open>The statuses sent and the result, \<open>None\<close> while the loop still waits.\<close>

definition Execute :: "svc_event list \<Rightarrow> svc_status list \<times> (bool \<times> nat) option" where
  "Execute es = (let (st, r) = svc_loop es in (StartPending # Running # st, r))"


section \<open>Lemmas\<close>

lemma NewRestream_ok:
  assumes "rc_ClientID c \<noteq> ''''" "rc_ClientSecret c \<noteq> ''''" "rc_RedirectURI c \<noteq> ''''"
  shows "\<exists>r. NewRestream c base loaded = Inr r \<and> rs_redirectURI r = rc_RedirectURI c \<and> rs_pending r = [] \<and> rs_tokenCalls r = 0 \<and> rs_stored r = rs_tok r"
  using assms by (simp add: NewRestream_def Let_def)

lemma Load_validated: "fst (Load env p) = Inr cfg \<Longrightarrow> Config_validate (le_ParseURL env) cfg = None"
  by (auto simp: Load_def Let_def split: option.splits if_splits)

lemma chat_provider_of_ok:
  assumes "Config_validate parse cfg = None"
  shows "ChatConfig_Disabled (cfg_Chat cfg) \<and> chat_provider_of b (cfg_Chat cfg) = Inr None \<or>
    \<not> ChatConfig_Disabled (cfg_Chat cfg) \<and> (\<exists>r. chat_provider_of b (cfg_Chat cfg) = Inr (Some r) \<and>
      rs_redirectURI r = RedirectURI (cfg_Chat cfg) \<and> rs_pending r = [] \<and> rs_tokenCalls r = 0 \<and> rs_stored r = rs_tok r)"
proof (cases "ChatConfig_Disabled (cfg_Chat cfg)")
  case True
  then show ?thesis by (simp add: chat_provider_of_def)
next
  case False
  with Config_validated(2) [OF assms] have "ClientID (cfg_Chat cfg) \<noteq> ''''" "ClientSecret (cfg_Chat cfg) \<noteq> ''''"
    by (auto simp: ChatConfig_validate_def split: if_splits)
  moreover have "RedirectURI (cfg_Chat cfg) \<noteq> ''''" by (simp add: RedirectURI_def ChatCallbackPath_def)
  ultimately obtain r where "NewRestream (restream_config_of (cfg_Chat cfg)) None (bt_tokens b (TokenFile (cfg_Chat cfg))) = Inr r"
      "rs_redirectURI r = RedirectURI (cfg_Chat cfg)" "rs_pending r = []" "rs_tokenCalls r = 0" "rs_stored r = rs_tok r"
    using NewRestream_ok [of "restream_config_of (cfg_Chat cfg)" None "bt_tokens b (TokenFile (cfg_Chat cfg))"]
    by (auto simp: restream_config_of_def)
  with False show ?thesis by (simp add: chat_provider_of_def)
qed




fun run_end_of :: "svc_event list \<Rightarrow> run_error option option" where
  "run_end_of [] = None"
| "run_end_of (RunEnded err # es) = Some err"
| "run_end_of (Request _ # es) = run_end_of es"

definition exit_code :: "run_error option \<Rightarrow> bool \<times> nat" where
  "exit_code err = (case err of Some _ \<Rightarrow> (True, 1) | None \<Rightarrow> (False, 0))"

lemma await_run_eq: "await_run es = (case run_end_of es of None \<Rightarrow> ([], None) | Some err \<Rightarrow> ([Stopped], Some (exit_code err)))"
  by (induction es rule: run_end_of.induct) (auto simp: stopped_def exit_code_def split: option.splits)

text \<open>The loop's statuses are some that are not \<open>Stopped\<close>, and \<open>Stopped\<close> once \<open>run\<close> has ended.\<close>

lemma svc_loop_shape:
  "\<exists>before. svc_loop es = (before @ (if run_end_of es = None then [] else [Stopped]), map_option exit_code (run_end_of es)) \<and>
     (\<forall>st \<in> set before. st = CurrentStatus \<or> st = StopPending waitHint)"
proof (induction es rule: svc_loop.induct)
  case (3 es)
  show ?case by (rule exI [of _ "[StopPending waitHint]"]) (simp add: await_run_eq split: option.splits)
next
  case (4 es)
  show ?case by (rule exI [of _ "[StopPending waitHint]"]) (simp add: await_run_eq split: option.splits)
next
  case (2 es)
  then obtain before where "svc_loop es = (before @ (if run_end_of es = None then [] else [Stopped]), map_option exit_code (run_end_of es))"
      "\<forall>st \<in> set before. st = CurrentStatus \<or> st = StopPending waitHint" by blast
  then show ?case by (intro exI [of _ "CurrentStatus # before"]) simp
qed (auto simp: stopped_def exit_code_def)

section \<open>Properties\<close>

text \<open>
  C33: A configuration that loads starts: past the URL of Companion, building the server cannot
  fail.  Chat routes are served exactly when chat is enabled; the provider then starts with
  nothing pending, tells the platform to redirect to an address whose path is the route that
  completes authorizations, and its status is in the state before the first client.
\<close>

theorem startup_validated:
  assumes "fst (Load (bt_load b) path) = Inr cfg" "New (bt_parse b) (BaseURL (cfg_Companion cfg)) [] = Inr cl"
  shows "\<exists>a. build b e path = Inr (cl, a) \<and>
    (case a of
       PlainAPI s \<Rightarrow> ChatConfig_Disabled (cfg_Chat cfg) \<and> sv_cfg s = cfg
     | ChatAPI c \<Rightarrow> \<not> ChatConfig_Disabled (cfg_Chat cfg) \<and> sv_cfg (ca_server c) = cfg \<and> rs_pending (ca_provider c) = [] \<and>
         (\<exists>base. rs_redirectURI (ca_provider c) = base @ ChatCallbackPath) \<and>
         mux_route True ChatCallbackPath = RouteChatCallback \<and>
         chat_shown (ca_server c) = Some \<lparr>ch_provider = ''restream'',
           ch_status = (if Authorized (ca_provider c) (en_now e) then ''ready'' else ''needs_auth'')\<rparr>)"
proof -
  have v: "Config_validate (le_ParseURL (bt_load b)) cfg = None" by (rule Load_validated [OF assms(1)])
  have m: "mux_route True ChatCallbackPath = RouteChatCallback" by code_simp
  from chat_provider_of_ok [OF v, of b] show ?thesis
  proof (elim disjE conjE exE)
    assume "ChatConfig_Disabled (cfg_Chat cfg)" "chat_provider_of b (cfg_Chat cfg) = Inr None"
    with assms show ?thesis by (simp add: build_def NewServer_def)
  next
    fix r
    assume r: "\<not> ChatConfig_Disabled (cfg_Chat cfg)" "chat_provider_of b (cfg_Chat cfg) = Inr (Some r)"
      "rs_redirectURI r = RedirectURI (cfg_Chat cfg)" "rs_pending r = []"
    define s where "s = NewServer cfg version (bt_hostname b) (satellite_of cfg)"
    have "build b e path = Inr (cl, ChatAPI (new_chat_api e s r))" using assms r(2) by (simp add: build_def s_def)
    moreover have "chat_shown (ca_server (new_chat_api e s r)) = Some \<lparr>ch_provider = ''restream'',
        ch_status = (if Authorized r (en_now e) then ''ready'' else ''needs_auth'')\<rparr>"
      by (simp add: new_chat_api_def publish_shown restream_provider_def Restream_Name_def)
    ultimately show ?thesis using r m by (simp add: new_chat_api_def s_def NewServer_def RedirectURI_def)
  qed
qed

definition demo_boot :: boot where
  "demo_boot =
     \<lparr>bt_load = \<lparr>le_ReadFile = (\<lambda>_. Some ''''), le_Decode = (\<lambda>_ _. Some (witness_chat, [])), le_Getenv = (\<lambda>_. ''''),
        le_IsAbs = (\<lambda>_. True), le_Dir = (\<lambda>_. ''/''), le_PathJoin = (@), le_ParseURL = witness_parse\<rparr>,
      bt_parse = (\<lambda>_. Some (''http'', ''localhost:8000'')), bt_hostname = ''booth'', bt_tokens = (\<lambda>_. Inr (demo_tokens ''r1''))\<rparr>"

lemma startup_validated_witness:
  "\<exists>cl c. build demo_boot demo_call ''c.toml'' = Inr (cl, ChatAPI c) \<and>
     chat_shown (ca_server c) = Some \<lparr>ch_provider = ''restream'',
       ch_status = (if Authorized (ca_provider c) (Time 0) then ''ready'' else ''needs_auth'')\<rparr>"
proof -
  have v: "Config_validate witness_parse witness_chat = None" by code_simp
  have cfg: "fst (Load (bt_load demo_boot) ''c.toml'') = Inr witness_chat"
    using v by (simp add: Load_def demo_boot_def witness_chat_def Let_def)
  obtain cl where cl: "New (bt_parse demo_boot) (BaseURL (cfg_Companion witness_chat)) [] = Inr cl"
    by (simp add: New_def demo_boot_def Let_def)
  have "\<not> ChatConfig_Disabled (cfg_Chat witness_chat)" by code_simp
  moreover from startup_validated [OF cfg cl, of demo_call] obtain a where a: "build demo_boot demo_call ''c.toml'' = Inr (cl, a)"
      and k: "case a of PlainAPI s \<Rightarrow> ChatConfig_Disabled (cfg_Chat witness_chat) \<and> sv_cfg s = witness_chat | ChatAPI c \<Rightarrow>
         \<not> ChatConfig_Disabled (cfg_Chat witness_chat) \<and> sv_cfg (ca_server c) = witness_chat \<and> rs_pending (ca_provider c) = [] \<and>
         (\<exists>base. rs_redirectURI (ca_provider c) = base @ ChatCallbackPath) \<and>
         mux_route True ChatCallbackPath = RouteChatCallback \<and>
         chat_shown (ca_server c) = Some \<lparr>ch_provider = ''restream'',
           ch_status = (if Authorized (ca_provider c) (en_now demo_call) then ''ready'' else ''needs_auth'')\<rparr>"
    by blast
  moreover have "en_now demo_call = Time 0" by (simp add: demo_call_def)
  ultimately show ?thesis by (cases a) auto
qed




text \<open>
  C36: Whatever the service manager asks and whenever \<open>run\<close> ends, the service reports starting and
  running first, returns exactly when \<open>run\<close> has ended, reports \<open>Stopped\<close> once and last at that
  point and never before, with a failure code if and only if \<open>run\<close> failed; and every pending
  stop it reports carries the whole stop budget.
\<close>

theorem service_reports_stop:
  assumes "Execute es = (st, r)"
  shows "take 2 st = [StartPending, Running] \<and>
    r = map_option (\<lambda>err. if err = None then (False, 0) else (True, 1)) (run_end_of es) \<and>
    (if r = None then Stopped \<notin> set st else last st = Stopped \<and> Stopped \<notin> set (butlast st)) \<and>
    (\<forall>hint. StopPending hint \<in> set st \<longrightarrow> int hint * Millisecond = StopBudget)"
proof -
  obtain before where b: "svc_loop es = (before @ (if run_end_of es = None then [] else [Stopped]), map_option exit_code (run_end_of es))"
      "\<forall>x \<in> set before. x = CurrentStatus \<or> x = StopPending waitHint"
    using svc_loop_shape [of es] by blast
  have st: "st = StartPending # Running # before @ (if run_end_of es = None then [] else [Stopped])"
      and r: "r = map_option exit_code (run_end_of es)"
    using assms b(1) by (auto simp: Execute_def)
  have nb: "Stopped \<notin> set before" "StopPending hint \<in> set before \<Longrightarrow> hint = waitHint" for hint using b(2) by auto
  have "int waitHint * Millisecond = StopBudget"
    by (simp add: waitHint_def StopBudget_def shutdownTimeout_def chatDrainTimeout_def Second_def Millisecond_def)
  moreover have "exit_code = (\<lambda>err. if err = None then (False, 0) else (True, 1))"
    by (auto simp: exit_code_def fun_eq_iff split: option.split)
  ultimately show ?thesis using nb by (auto simp: st r butlast_append)
qed

lemma service_reports_stop_witness:
  "Execute [Request Interrogate, Request Stop, Request Interrogate, RunEnded (Some ServeFailed)] =
     ([StartPending, Running, CurrentStatus, StopPending 30000, Stopped], Some (True, 1))"
proof -
  obtain st r where e: "Execute [Request Interrogate, Request Stop, Request Interrogate, RunEnded (Some ServeFailed)] = (st, r)" by force
  have "r = Some (True, 1)" using service_reports_stop [OF e] by simp
  moreover have "st = [StartPending, Running, CurrentStatus, StopPending 30000, Stopped]"
    using e by (auto simp: Execute_def stopped_def waitHint_def StopBudget_def shutdownTimeout_def chatDrainTimeout_def Second_def Millisecond_def)
  ultimately show ?thesis using e by simp
qed

end
