(* ===== verification/RandomState.thy ===== *)
theory RandomState
  imports Restream
begin

text \<open>
  The state parameter of an authorization (\<open>randomState\<close> of server/internal/chat/restream.go):
  32 random bytes in the URL alphabet of base64 without padding.  Distinct bytes make distinct
  states, and a state needs no escaping, so the parameter in the login URL is the key under
  which the authorization is pending; and which authorization is dropped when too many are
  pending.
\<close>

section \<open>base64.RawURLEncoding\<close>

definition base64_alphabet :: string where
  "base64_alphabet = ''ABCDEFGHIJKLMNOPQRSTUVWXYZabcdefghijklmnopqrstuvwxyz0123456789-_''"

definition base64_char :: "nat \<Rightarrow> char" where
  "base64_char n = base64_alphabet ! n"

text \<open>Three bytes make four characters; the rest of one or two bytes is not padded.\<close>

fun EncodeToString :: "string \<Rightarrow> string" where
  "EncodeToString [] = []"
| "EncodeToString [a] = [base64_char (byte a div 4), base64_char (byte a mod 4 * 16)]"
| "EncodeToString [a, b] =
     [base64_char (byte a div 4), base64_char (byte a mod 4 * 16 + byte b div 16), base64_char (byte b mod 16 * 4)]"
| "EncodeToString (a # b # c # s) =
     base64_char (byte a div 4) # base64_char (byte a mod 4 * 16 + byte b div 16) #
     base64_char (byte b mod 16 * 4 + byte c div 64) # base64_char (byte c mod 64) # EncodeToString s"

text \<open>\<open>buf\<close>: what \<open>rand.Read\<close> filled the buffer with, if it did.\<close>

definition randomState :: "string option \<Rightarrow> string option" where
  "randomState buf = map_option EncodeToString buf"

section \<open>Reading it back\<close>

fun base64_index :: "string \<Rightarrow> char \<Rightarrow> nat" where
  "base64_index [] c = 0"
| "base64_index (d # ds) c = (if d = c then 0 else Suc (base64_index ds c))"

definition base64_value :: "char \<Rightarrow> nat" where
  "base64_value c = base64_index base64_alphabet c"

fun DecodeString :: "string \<Rightarrow> string" where
  "DecodeString (w # x # y # z # s) =
     char_of (base64_value w * 4 + base64_value x div 16) #
     char_of (base64_value x mod 16 * 16 + base64_value y div 4) #
     char_of (base64_value y mod 4 * 64 + base64_value z) # DecodeString s"
| "DecodeString [w, x, y] =
     [char_of (base64_value w * 4 + base64_value x div 16), char_of (base64_value x mod 16 * 16 + base64_value y div 4)]"
| "DecodeString [w, x] = [char_of (base64_value w * 4 + base64_value x div 16)]"
| "DecodeString _ = []"

lemma base64_index_nth: "distinct xs \<Longrightarrow> i < length xs \<Longrightarrow> base64_index xs (xs ! i) = i"
  by (induction xs arbitrary: i) (auto simp: nth_Cons split: nat.splits)

lemma base64_alphabet_ok: "distinct base64_alphabet" "length base64_alphabet = 64" "list_all query_unescaped base64_alphabet"
  by code_simp+

lemma base64_value_char [simp]: "n < 64 \<Longrightarrow> base64_value (base64_char n) = n"
  by (simp add: base64_value_def base64_char_def base64_index_nth base64_alphabet_ok)

lemma base64_char_unescaped [simp]: "n < 64 \<Longrightarrow> query_unescaped (base64_char n)"
  using base64_alphabet_ok by (simp add: base64_char_def list_all_length)


lemma byte_range [simp]: "byte c < 256"
  using nat_of_char_less_256 [of c] by simp

lemma byte_parts: "byte c div 4 < 64" "byte c div 16 < 16" "byte c div 64 < 4" "byte c mod 4 < 4" "byte c mod 16 < 16" "byte c mod 64 < 64"
  using byte_range [of c] by (simp_all add: less_mult_imp_div_less)

lemma pack_bytes [simp]:
  "byte a div 4 < 64" "byte a mod 4 * 16 + byte b div 16 < 64" "byte b mod 16 * 4 + byte c div 64 < 64"
  "byte c mod 64 < 64" "byte a mod 4 * 16 < 64" "byte b mod 16 * 4 < 64"
  using byte_parts [of a] byte_parts [of b] byte_parts [of c] by linarith+

lemma byte_high [simp]:
  "byte c div 16 div 16 = 0" "byte c div 16 mod 16 = byte c div 16" "byte c div 64 div 4 = 0" "byte c div 64 mod 4 = byte c div 64"
  using byte_parts [of c] by simp_all

lemma Decode_Encode: "DecodeString (EncodeToString s) = s"
  by (induction s rule: EncodeToString.induct) simp_all

lemma Encode_inject: "EncodeToString s = EncodeToString t \<longleftrightarrow> s = t"
  by (metis Decode_Encode)

lemma Encode_unescaped: "list_all query_unescaped (EncodeToString s)"
  by (induction s rule: EncodeToString.induct) simp_all

lemma Encode_length: "length (EncodeToString s) = (4 * length s + 2) div 3"
  by (induction s rule: EncodeToString.induct) auto

lemma QueryEscape_id: "list_all query_unescaped s \<Longrightarrow> QueryEscape s = s"
  by (induction s) auto

lemma randomState_Some: "randomState buf = Some st \<longleftrightarrow> (\<exists>bs. buf = Some bs \<and> st = EncodeToString bs)"
  by (auto simp: randomState_def)

section \<open>How long an authorization stays pending\<close>

text \<open>
  Pending authorizations have states that are not empty and sequence numbers of their own, none
  beyond the last one given out.
\<close>

definition pend_ok :: "restream \<Rightarrow> bool" where
  "pend_ok r \<longleftrightarrow> gm_wf (rs_pending r) \<and> 0 \<le> rs_pendingSeq r \<and>
     (\<forall>s l. gm_get (rs_pending r) s = Some l \<longrightarrow> s \<noteq> '''' \<and> pl_seq l \<le> rs_pendingSeq r) \<and>
     (\<forall>s1 l1 s2 l2. gm_get (rs_pending r) s1 = Some l1 \<and> gm_get (rs_pending r) s2 = Some l2 \<and> pl_seq l1 = pl_seq l2 \<longrightarrow> s1 = s2)"

text \<open>The authorizations started after the one with sequence number \<open>n\<close>.\<close>

definition newer :: "int \<Rightarrow> restream \<Rightarrow> string set" where
  "newer n r = {s. \<exists>l. gm_get (rs_pending r) s = Some l \<and> n < pl_seq l}"

lemma finite_newer: "finite (newer n r)"
  by (rule finite_subset [of _ "dom (gm_get (rs_pending r))"]) (auto simp: newer_def finite_dom_map_of)

lemma pend_ok_fewer:
  assumes "pend_ok r" "gm_wf (rs_pending r')" "rs_pendingSeq r' = rs_pendingSeq r"
    and "\<And>s l. gm_get (rs_pending r') s = Some l \<Longrightarrow> gm_get (rs_pending r) s = Some l"
  shows "pend_ok r'" "newer n r' \<subseteq> newer n r"
proof -
  have own: "\<And>s l. gm_get (rs_pending r) s = Some l \<Longrightarrow> s \<noteq> '''' \<and> pl_seq l \<le> rs_pendingSeq r"
    and inj: "\<And>s1 l1 s2 l2. gm_get (rs_pending r) s1 = Some l1 \<Longrightarrow> gm_get (rs_pending r) s2 = Some l2 \<Longrightarrow> pl_seq l1 = pl_seq l2 \<Longrightarrow> s1 = s2"
    using assms(1) unfolding pend_ok_def by blast+
  show "pend_ok r'"
    using assms(1-3) unfolding pend_ok_def by (auto dest!: assms(4) dest: own inj)
  show "newer n r' \<subseteq> newer n r" using assms(4) by (auto simp: newer_def)
qed

lemma gm_wf_length: "gm_wf m \<Longrightarrow> length m = card (dom (gm_get m))"
  using distinct_card [OF gm_wf_distinct, of m] by (simp add: dom_map_of_conv_image_fst)

lemma evicts_another:
  assumes ok: "pend_ok r" and l: "gm_get (rs_pending r) st = Some l"
    and few: "Suc (card (newer (pl_seq l) r)) < maxPendingLogins" and full: "maxPendingLogins \<le> length (rs_pending r)"
  shows "oldest_pending (rs_pending r) \<noteq> st"
proof
  let ?m = "rs_pending r"
  assume o: "oldest_pending ?m = st"
  have wf: "gm_wf ?m" using ok by (simp add: pend_ok_def)
  have "?m \<noteq> []" using l by auto
  moreover have "\<forall>e \<in> set ?m. fst e \<noteq> ''''" using ok by (auto simp: pend_ok_def gm_get_in_set [OF wf])
  ultimately obtain l0 where "(st, l0) \<in> set ?m" and le: "\<forall>e \<in> set ?m. pl_seq l0 \<le> pl_seq (snd e)"
    using oldest_pending_min [of ?m] o by blast
  then have "l0 = l" using l by (simp flip: gm_get_in_set [OF wf])
  have "dom (gm_get ?m) \<subseteq> insert st (newer (pl_seq l) r)"
  proof
    fix s assume "s \<in> dom (gm_get ?m)"
    then obtain l' where l': "gm_get ?m s = Some l'" by auto
    then have "pl_seq l \<le> pl_seq l'" using le by (force simp: gm_get_in_set [OF wf] \<open>l0 = l\<close>)
    moreover have "pl_seq l = pl_seq l' \<longrightarrow> st = s" using ok l l' unfolding pend_ok_def by blast
    ultimately show "s \<in> insert st (newer (pl_seq l) r)" using l' by (auto simp: newer_def)
  qed
  then have "card (dom (gm_get ?m)) \<le> Suc (card (newer (pl_seq l) r))"
    using card_mono [of "insert st (newer (pl_seq l) r)"] card_insert_le [of "newer (pl_seq l) r" st]
    by (metis card_insert_if finite_insert finite_newer le_SucI)
  with few full gm_wf_length [OF wf] show False by simp
qed

lemma evict_keeps:
  assumes "pend_ok r" "gm_get (rs_pending r) st = Some l" "Suc (card (newer (pl_seq l) r)) < maxPendingLogins"
  shows "gm_get (rs_pending (evict_full r)) st = Some l"
  using assms
proof (induction r rule: evict_full.induct)
  case (1 r)
  show ?case
  proof (cases "length (rs_pending r) < maxPendingLogins")
    case True
    with 1(3) show ?thesis by (subst evict_full.simps) simp
  next
    case False
    let ?r = "evictOldestPending r"
    have kept: "gm_get (rs_pending ?r) st = Some l"
      using evicts_another [OF 1(2-4)] False 1(3) by (simp add: evictOldestPending_def gomap_simps)
    have sub: "gm_get (rs_pending ?r) s = Some l' \<Longrightarrow> gm_get (rs_pending r) s = Some l'" for s l'
      by (simp add: evictOldestPending_def gomap_simps split: if_splits)
    have wf: "gm_wf (rs_pending ?r)" using 1(2) by (simp add: evictOldestPending_def pend_ok_def)
    have fewer: "pend_ok ?r" "newer (pl_seq l) ?r \<subseteq> newer (pl_seq l) r"
      using pend_ok_fewer [OF 1(2) wf _ sub] by (simp_all add: evictOldestPending_def)
    have "card (newer (pl_seq l) ?r) \<le> card (newer (pl_seq l) r)" by (rule card_mono [OF finite_newer fewer(2)])
    then have "Suc (card (newer (pl_seq l) ?r)) < maxPendingLogins" using 1(4) by simp
    from 1(1) [OF False fewer(1) kept this] False show ?thesis by (subst evict_full.simps) simp
  qed
qed


lemma evict_seq [simp]: "rs_pendingSeq (evict_full r) = rs_pendingSeq r"
proof (induction r rule: evict_full.induct)
  case (1 r)
  then show ?case by (subst evict_full.simps) (simp add: evictOldestPending_def)
qed

lemma prune_seq [simp]: "rs_pendingSeq (prunePending now r) = rs_pendingSeq r"
  by (simp add: prunePending_def)

lemma prune_get:
  "gm_wf (rs_pending r) \<Longrightarrow> gm_get (rs_pending (prunePending now r)) s =
     (case gm_get (rs_pending r) s of Some l \<Rightarrow> if pl_expires l < now then None else Some l | None \<Rightarrow> None)"
  by (simp add: prunePending_def gm_get_filter split: option.split)

text \<open>What a start leaves of the others, and what it adds.\<close>

lemma LoginURL_kept:
  assumes ok: "pend_ok r" "rs_pendingSeq r + 1 < 2 ^ 64" "st' \<noteq> ''''"
    and r': "r' = fst (LoginURL now (Some st') r)"
  shows "pend_ok r'" "rs_pendingSeq r' = rs_pendingSeq r + 1"
    "gm_get (rs_pending r') st' = Some \<lparr>pl_expires = time_Add now loginStateTTL, pl_seq = rs_pendingSeq r'\<rparr>"
    "newer (rs_pendingSeq r') r' = {}"
    "\<And>st l. gm_get (rs_pending r) st = Some l \<Longrightarrow> st \<noteq> st' \<Longrightarrow> \<not> pl_expires l < now \<Longrightarrow> Suc (card (newer (pl_seq l) r)) < maxPendingLogins \<Longrightarrow>
       gm_get (rs_pending r') st = Some l \<and> card (newer (pl_seq l) r') \<le> Suc (card (newer (pl_seq l) r))"
proof -
  let ?p = "prunePending now r"
  let ?e = "evict_full ?p"
  note wf = ok(1) [unfolded pend_ok_def, THEN conjunct1]
  have wfp: "gm_wf (rs_pending ?p)" using wf by (simp add: prunePending_def)
  have psub: "gm_get (rs_pending ?p) s = Some l \<Longrightarrow> gm_get (rs_pending r) s = Some l" for s l
    using prunePending_get [OF wf] by blast
  note p = pend_ok_fewer [OF ok(1) wfp prune_seq psub]
  note ev = evict_full_pending [of ?p]
  have wfe: "gm_wf (rs_pending ?e)" using ev wfp by blast
  have esub: "gm_get (rs_pending ?e) s = Some l \<Longrightarrow> gm_get (rs_pending r) s = Some l" for s l
    using ev psub by blast
  have "rs_pendingSeq ?e = rs_pendingSeq r" by simp
  note e = pend_ok_fewer [OF ok(1) wfe this esub]
  have n: "(rs_pendingSeq r + 1) mod 2 ^ 64 = rs_pendingSeq r + 1" using ok(1,2) by (simp add: pend_ok_def)
  define l' where "l' = \<lparr>pl_expires = time_Add now loginStateTTL, pl_seq = rs_pendingSeq r + 1\<rparr>"
  have seq: "rs_pendingSeq r' = rs_pendingSeq r + 1" and pend: "rs_pending r' = gm_put st' l' (rs_pending ?e)"
    using n by (simp_all add: r' LoginURL_def Let_def l'_def)
  show "rs_pendingSeq r' = rs_pendingSeq r + 1" by (rule seq)
  have get: "gm_get (rs_pending r') s = (if s = st' then Some l' else gm_get (rs_pending ?e) s)" for s
    by (simp add: pend gm_get_put [OF wfe])
  then show "gm_get (rs_pending r') st' = Some \<lparr>pl_expires = time_Add now loginStateTTL, pl_seq = rs_pendingSeq r'\<rparr>"
    by (simp add: l'_def seq)
  have old: "gm_get (rs_pending ?e) s = Some l \<Longrightarrow> s \<noteq> '''' \<and> pl_seq l \<le> rs_pendingSeq r" for s l
    using e(1) by (simp add: pend_ok_def)
  have inj: "gm_get (rs_pending ?e) s1 = Some l1 \<Longrightarrow> gm_get (rs_pending ?e) s2 = Some l2 \<Longrightarrow> pl_seq l1 = pl_seq l2 \<Longrightarrow> s1 = s2" for s1 l1 s2 l2
    using e(1) unfolding pend_ok_def by blast
  show "newer (rs_pendingSeq r') r' = {}"
    by (auto simp: newer_def get seq l'_def dest: old split: if_splits)
  have "gm_wf (rs_pending r')" "0 \<le> rs_pendingSeq r'" using wfe ok(1) by (simp_all add: pend seq pend_ok_def)
  then show "pend_ok r'"
    using ok(3) by (auto simp: pend_ok_def get seq l'_def dest: old inj split: if_splits)
  fix st l
  assume l: "gm_get (rs_pending r) st = Some l" "st \<noteq> st'" "\<not> pl_expires l < now" "Suc (card (newer (pl_seq l) r)) < maxPendingLogins"
  have "gm_get (rs_pending ?p) st = Some l" using l(1,3) by (simp add: prune_get [OF wf])
  moreover have "card (newer (pl_seq l) ?p) \<le> card (newer (pl_seq l) r)" by (rule card_mono [OF finite_newer p(2)])
  ultimately have "gm_get (rs_pending ?e) st = Some l" using evict_keeps [OF p(1)] l(4) by simp
  moreover have "newer (pl_seq l) r' \<subseteq> insert st' (newer (pl_seq l) r)"
    using e(2) [of "pl_seq l"] by (auto simp: newer_def get split: if_splits)
  then have "card (newer (pl_seq l) r') \<le> card (insert st' (newer (pl_seq l) r))" by (intro card_mono) (simp_all add: finite_newer)
  then have "card (newer (pl_seq l) r') \<le> Suc (card (newer (pl_seq l) r))"
    using card_insert_if [OF finite_newer, of st' "pl_seq l" r] by (auto split: if_splits)
  ultimately show "gm_get (rs_pending r') st = Some l \<and> card (newer (pl_seq l) r') \<le> Suc (card (newer (pl_seq l) r))"
    using l(2) by (simp add: get)
qed

lemma store_save_seq [simp]: "rs_pendingSeq (store_save ok t r) = rs_pendingSeq r"
  by (simp add: store_save_def)

lemma URL_seq: "rs_pendingSeq (fst (URL e1 e2 now r)) = rs_pendingSeq r"
proof -
  have access: "rs_pendingSeq (fst (accessToken e retire r)) = rs_pendingSeq r" for e retire r
    by (auto simp: accessToken_def Let_def log_sent_def beginExchange_def endExchange_def discard_def adopt_def
        adopt_live_def split: option.splits decision.splits sum.splits)
  have mint: "rs_pendingSeq (fst (mint e retire r)) = rs_pendingSeq r" for e retire r
    using access [of e retire r] by (auto simp: mint_def log_sent_def split: prod.splits sum.splits)
  obtain r1 used res1 where m1: "mint e1 '''' r = (r1, used, res1)" by (cases "mint e1 '''' r") auto
  obtain r2 used2 res2 where m2: "mint e2 used r1 = (r2, used2, res2)" by (cases "mint e2 used r1") auto
  have "rs_pendingSeq r1 = rs_pendingSeq r" "rs_pendingSeq r2 = rs_pendingSeq r"
    using mint [of e1 "''''" r] mint [of e2 used r1] by (simp_all add: m1 m2)
  then show ?thesis by (simp add: URL_def m1 m2 Let_def holdOff_def)
qed

lemma Complete_seq: "rs_pendingSeq (fst (Complete e code st r)) = rs_pendingSeq r"
  by (auto simp: Complete_def claim_login_def Let_def log_sent_def beginExchange_def endExchange_def adopt_def adopt_live_def
      split: prod.splits sum.splits)

text \<open>Minting and completing another authorization leave one pending.\<close>

lemma other_kept:
  assumes ok: "pend_ok r" and r': "r' = fst (URL e1 e2 now r) \<or> r' = fst (Complete e code st' r)"
  shows "pend_ok r'" "rs_pendingSeq r' = rs_pendingSeq r" "newer n r' \<subseteq> newer n r"
    "gm_get (rs_pending r) st = Some l \<Longrightarrow> r' = fst (Complete e code st' r) \<Longrightarrow> st \<noteq> st' \<Longrightarrow> \<not> pl_expires l < ce_now e \<Longrightarrow>
       gm_get (rs_pending r') st = Some l"
    "gm_get (rs_pending r) st = Some l \<Longrightarrow> r' = fst (URL e1 e2 now r) \<Longrightarrow> gm_get (rs_pending r') st = Some l"
proof -
  note wf = ok [unfolded pend_ok_def, THEN conjunct1]
  show seq: "rs_pendingSeq r' = rs_pendingSeq r" using r' URL_seq Complete_seq by auto
  have pend: "rs_pending r' = rs_pending r \<or> rs_pending r' = gm_del st' (rs_pending (prunePending (ce_now e) r))"
    using r' by (auto simp: URL_pending Complete_pending claim_login_def Let_def)
  have sub: "gm_get (rs_pending r') s = Some l \<Longrightarrow> gm_get (rs_pending r) s = Some l" for s l
    using pend prunePending_get [OF wf] by (auto simp: gm_get_del split: if_splits)
  have wf': "gm_wf (rs_pending r')" using pend wf by (auto simp: prunePending_def)
  show "pend_ok r'" "newer n r' \<subseteq> newer n r" using pend_ok_fewer [OF ok wf' seq sub] by blast+
  show "gm_get (rs_pending r) st = Some l \<Longrightarrow> r' = fst (Complete e code st' r) \<Longrightarrow> st \<noteq> st' \<Longrightarrow> \<not> pl_expires l < ce_now e \<Longrightarrow>
       gm_get (rs_pending r') st = Some l"
    by (simp add: Complete_pending claim_login_def Let_def gm_get_del prune_get [OF wf])
  show "gm_get (rs_pending r) st = Some l \<Longrightarrow> r' = fst (URL e1 e2 now r) \<Longrightarrow> gm_get (rs_pending r') st = Some l"
    by (simp add: URL_pending)
qed


section \<open>Properties\<close>

text \<open>
  C38: A state decodes to the random bytes it was made of, so different bytes make different
  states; it is 43 characters long and the login URL ends in exactly those characters, none of
  them escaped, which are the key the authorization is pending under until ten minutes later.
\<close>

theorem random_state_unique:
  assumes "randomState (Some bs) = Some st" "length bs = 32" "pend_ok r" "rs_pendingSeq r + 1 < 2 ^ 64"
    and "LoginURL now (randomState (Some bs)) r = (r', res)"
  shows "DecodeString st = bs \<and> (randomState buf = Some st \<longrightarrow> buf = Some bs) \<and> length st = 43 \<and>
    (\<exists>u. res = Inr (u @ ''&state='' @ st)) \<and>
    (\<exists>l. gm_get (rs_pending r') st = Some l \<and> pl_expires l = time_Add now loginStateTTL)"
proof -
  have st: "st = EncodeToString bs" using assms(1) by (simp add: randomState_def)
  have "length st = 43" "list_all query_unescaped st" using assms(2) Encode_unescaped by (simp_all add: st Encode_length)
  moreover have "st \<noteq> ''''" using \<open>length st = 43\<close> by auto
  moreover have r': "r' = fst (LoginURL now (Some st) r)" using assms(1,5) by simp
  moreover have "res = Inr ((rs_apiBase r @ ''/login?'' @ ''client_id='' @ QueryEscape (rs_clientID r) @ ''&redirect_uri='' @
      QueryEscape (rs_redirectURI r) @ ''&response_type=code'') @ ''&state='' @ st)"
    using assms(1,5) QueryEscape_id [OF \<open>list_all query_unescaped st\<close>] by (auto simp: LoginURL_def login_query_def Let_def)
  ultimately show ?thesis
    using LoginURL_kept(3) [OF assms(3,4) _ r'] by (auto simp: st Decode_Encode randomState_Some Encode_inject)
qed

lemma random_state_unique_witness:
  "\<exists>r' res. LoginURL (Time 0) (randomState (Some (replicate 32 (CHR ''M'')))) demo_restream = (r', res) \<and>
     (\<exists>l. gm_get (rs_pending r') ''TU1NTU1NTU1NTU1NTU1NTU1NTU1NTU1NTU1NTU1NTU0'' = Some l)"
proof -
  obtain r' res where l: "LoginURL (Time 0) (randomState (Some (replicate 32 (CHR ''M'')))) demo_restream = (r', res)"
    by (cases "LoginURL (Time 0) (randomState (Some (replicate 32 (CHR ''M'')))) demo_restream")
  have 1: "randomState (Some (replicate 32 (CHR ''M''))) = Some ''TU1NTU1NTU1NTU1NTU1NTU1NTU1NTU1NTU1NTU1NTU0''" by code_simp
  have 2: "pend_ok demo_restream" "rs_pendingSeq demo_restream + 1 < 2 ^ 64" "length (replicate 32 (CHR ''M'')) = 32"
    by (simp_all add: pend_ok_def demo_restream_def)
  from random_state_unique [OF 1 2(3,1,2) l, of None, THEN conjunct2, THEN conjunct2, THEN conjunct2, THEN conjunct2]
  obtain lg where "gm_get (rs_pending r') ''TU1NTU1NTU1NTU1NTU1NTU1NTU1NTU1NTU1NTU1NTU0'' = Some lg" by (elim exE conjE)
  with l show ?thesis by (intro exI conjI)
qed

end
