(* ===== verification/LoginFlow.thy ===== *)
theory LoginFlow
  imports Service RandomState
begin

text \<open>
  An authorization from its start to its callback, through the whole listener: the mux, the
  guards of the chat routes, the rate limiter and the provider's pending authorizations.  The
  limiter exists so that strangers who may call the start route cannot push an operator's
  pending authorization out of the 64 that are kept; this theory puts the two together.
\<close>

section \<open>The listener over a stream of requests\<close>

text \<open>What a request met, when the limiter read the clock, and the request.\<close>

type_synonym call = "chat_env \<times> time \<times> http_request"

definition serve_call :: "url_parser \<Rightarrow> web_lib \<Rightarrow> web_files \<Rightarrow> call \<Rightarrow> api \<Rightarrow> api" where
  "serve_call parse lib files = (\<lambda>(e, now, rq) a. fst (Handler parse lib files e now rq a))"

definition serve_calls :: "url_parser \<Rightarrow> web_lib \<Rightarrow> web_files \<Rightarrow> call list \<Rightarrow> api \<Rightarrow> api" where
  "serve_calls parse lib files calls a = fold (serve_call parse lib files) calls a"

text \<open>What a request can do to the limiter and the provider.\<close>

lemma serve_call_cases:
  assumes "serve_call parse lib files (e, now, rq) (ChatAPI c) = a'"
  obtains
    (idle) c' where "a' = ChatAPI c'" "ca_starts c' = ca_starts c" "ca_provider c' = ca_provider c"
  | (mints) c' where "a' = ChatAPI c'" "ca_starts c' = ca_starts c"
      "ca_provider c' = fst (URL (en_mint1 e) (en_mint2 e) (en_held e) (ca_provider c))"
  | (completes) c' where "a' = ChatAPI c'" "ca_starts c' = ca_starts c"
      "ca_provider c' = fst (Complete (en_complete e) (Header_Get (hq_Query rq) ''code'') (Header_Get (hq_Query rq) ''state'') (ca_provider c))"
  | (limited) c' l where "a' = ChatAPI c'" "allow now (ca_starts c) = Some (l, False)" "ca_starts c' = l" "ca_provider c' = ca_provider c"
  | (starts) c' l where "a' = ChatAPI c'" "allow now (ca_starts c) = Some (l, True)" "ca_starts c' = l"
      "ca_provider c' = fst (LoginURL (en_now e) (en_random e) (ca_provider c))"
proof -
  obtain h where a': "a' = fst (serve_api parse lib files e now rq h (ChatAPI c))"
    using assms by (auto simp: serve_call_def Handler_def withCommonHeaders_def)
  show thesis
  proof (cases "mux_route True (hq_Path rq)")
    case RouteChatURL
    obtain c' rp where s: "serveChatURL parse restream_provider e h rq c = (c', rp)" by force
    with RouteChatURL a' have "a' = ChatAPI c'" by (simp add: serve_api_def)
    with s show ?thesis
      by (cases rule: serveChatURL_cases) (auto simp: restream_provider_def intro: idle mints)
  next
    case RouteChatStart
    obtain c' rp where s: "serveChatAuthStart parse restream_provider e now h rq c = (c', rp)" by force
    with RouteChatStart a' have a: "a' = ChatAPI c'" by (simp add: serve_api_def)
    show ?thesis
    proof (cases "reaches_limiter parse (sv_cfg (ca_server c)) rq")
      case False
      from serveChatAuthStart_skips [OF this, of restream_provider e now h] s have "c' = c" by auto
      with a show ?thesis by (intro idle) simp_all
    next
      case True
      show ?thesis
      proof (cases "allow now (ca_starts c)")
        case None
        with True s have "c' = c" by (auto simp: serveChatAuthStart_def reaches_limiter_def refuse_method_or_site_def)
        with a show ?thesis by (intro idle) simp_all
      next
        case (Some x)
        obtain l granted where x: "x = (l, granted)" by force
        from serveChatAuthStart_limited [OF True, of now l granted restream_provider e h] Some x s
        have "ca_starts c' = l" "ca_provider c' = (if granted then fst (pv_LoginURL restream_provider e (ca_provider c)) else ca_provider c)" by auto
        with a Some x show ?thesis by (cases granted) (auto simp: restream_provider_def intro: limited starts)
      qed
    qed
  next
    case RouteChatCallback
    obtain c' rp where s: "serveChatAuthCallback parse restream_provider e h rq c = (c', rp)" by force
    with RouteChatCallback a' have a: "a' = ChatAPI c'" by (simp add: serve_api_def)
    show ?thesis
    proof (cases "chatGuard parse (sv_cfg (ca_server c)) h rq = None \<and> \<not> chatCallbackSlots \<le> ca_callbacks c")
      case False
      with s have "c' = c" by (auto simp: serveChatAuthCallback_def split: option.splits)
      with a show ?thesis by (intro idle) simp_all
    next
      case True
      obtain c1 rp1 where cb: "completeCallback restream_provider e h rq (c\<lparr>ca_callbacks := ca_callbacks c + 1\<rparr>) = (c1, rp1)" by force
      with s True have "c' = c1\<lparr>ca_callbacks := ca_callbacks c1 - 1\<rparr>" by (auto simp: serveChatAuthCallback_def)
      then have same: "ca_starts c' = ca_starts c1" "ca_provider c' = ca_provider c1" by simp_all
      from cb show ?thesis
        by (cases rule: completeCallback_cases) (use a same in \<open>auto simp: restream_provider_def intro: idle completes\<close>)
    qed
  qed (use a' in \<open>auto simp: serve_api_def intro: idle\<close>)
qed


section \<open>The limiter keeps up with the clock\<close>

lemma refill_recent:
  assumes ok: "limiter_ok l" and now: "time_ns now - time_ns (rl_last l) \<le> maxInt64" and r: "refill now l = Some l'"
  shows "time_ns now - time_ns (rl_last l') < rl_interval l"
proof (cases "rl_interval l \<le> time_Sub now (rl_last l)")
  case False
  with r have "l' = l" by (simp add: refill_def)
  moreover have "\<not> rl_interval l \<le> time_ns now - time_ns (rl_last l)"
    using False time_Sub_ge [of "rl_interval l" now "rl_last l"] ok by (auto simp: limiter_ok_def)
  ultimately show ?thesis by simp
next
  case True
  let ?e = "time_Sub now (rl_last l)" and ?i = "rl_interval l"
  have i: "2 \<le> ?i" "0 \<le> ?e" using ok True by (auto simp: limiter_ok_def)
  have e: "?e = time_ns now - time_ns (rl_last l)"
    using i(2) now by (auto simp: time_Sub_def minInt64_def maxInt64_def)
  have "0 \<le> ?e div ?i" using i by (simp add: pos_imp_zdiv_nonneg_iff)
  then have "0 \<le> ?e div ?i * ?i" using i(1) by simp
  moreover have "?e div ?i * ?i \<le> ?e"
    using pos_mod_sign [of ?i ?e] i by (simp add: minus_mod_eq_div_mult [symmetric])
  ultimately have "wrap64 (?e div ?i * ?i) = ?e div ?i * ?i"
    using e now by (intro wrap64_id) (simp add: in_int64_def minInt64_def maxInt64_def)
  then have "rl_last l' = time_Add (rl_last l) (?e div ?i * ?i)"
    using r True i by (auto simp: refill_def Let_def go_div_pos)
  then have "time_ns now - time_ns (rl_last l') = ?e mod ?i" by (simp add: e minus_div_mult_eq_mod [symmetric])
  then show ?thesis using pos_mod_bound [of ?i ?e] i by simp
qed

lemma allow_recent:
  assumes "limiter_ok l" "rl_last l = zero_time \<or> time_ns now - time_ns (rl_last l) \<le> maxInt64" "allow now l = Some (l', granted)"
  shows "time_ns now - time_ns (rl_last l') < rl_interval l"
proof -
  define l1 where "l1 = (if time_IsZero (rl_last l) then l\<lparr>rl_last := now\<rparr> else l)"
  have "limiter_ok l1" "rl_interval l1 = rl_interval l" "time_ns now - time_ns (rl_last l1) \<le> maxInt64"
    using assms(1,2) by (auto simp: l1_def limiter_ok_def time_IsZero_def maxInt64_def)
  moreover obtain l2 where "refill now l1 = Some l2" "rl_last l' = rl_last l2"
    using assms(3) by (auto simp: allow_def l1_def [symmetric] Let_def split: option.splits if_splits)
  ultimately show ?thesis using refill_recent [of l1 now l2] by simp
qed

section \<open>Invariant of the listener\<close>

definition random_ok :: "chat_env \<Rightarrow> bool" where
  "random_ok e \<longleftrightarrow> (\<exists>buf. en_random e = randomState buf \<and> (\<forall>bs. buf = Some bs \<longrightarrow> length bs = 32))"

lemma random_ok_nonempty: "random_ok e \<Longrightarrow> en_random e = Some st \<Longrightarrow> st \<noteq> ''''"
proof -
  assume "random_ok e" "en_random e = Some st"
  then obtain buf where "randomState buf = Some st" "\<forall>bs. buf = Some bs \<longrightarrow> length bs = 32"
    unfolding random_ok_def by metis
  then obtain bs where "st = EncodeToString bs" "length bs = 32" by (auto simp: randomState_Some)
  then have "length st = 43" by (simp add: Encode_length)
  then show "st \<noteq> ''''" by auto
qed

text \<open>After \<open>k\<close> requests, the limiter having been asked since \<open>t0\<close>.\<close>

definition chat_ok :: "time \<Rightarrow> nat \<Rightarrow> restream chat_api \<Rightarrow> bool" where
  "chat_ok t0 k c \<longleftrightarrow> limiter_ok (ca_starts c) \<and> rl_burst (ca_starts c) = 5 \<and> rl_interval (ca_starts c) = 12 * Second \<and>
     (rl_last (ca_starts c) = zero_time \<or> t0 \<le> rl_last (ca_starts c)) \<and>
     pend_ok (ca_provider c) \<and> rs_pendingSeq (ca_provider c) \<le> int k"

lemma time_le_ns: "t \<le> u \<longleftrightarrow> time_ns t \<le> time_ns u" "t < u \<longleftrightarrow> time_ns t < time_ns u"
  by (simp_all add: less_eq_time_def less_time_def)

lemma allow_since:
  assumes "limiter_ok l" "zero_time < t0" "t0 \<le> now" "rl_last l = zero_time \<or> t0 \<le> rl_last l" "allow now l = Some (l', granted)"
  shows "limiter_ok l'" "rl_burst l' = rl_burst l" "rl_interval l' = rl_interval l" "t0 \<le> rl_last l'"
    "granted \<Longrightarrow> rl_tokens l' + 1 \<le> rl_burst l"
proof -
  obtain gained where a: "limiter_ok l'" "0 \<le> gained" "rl_interval l' = rl_interval l" "rl_burst l' = rl_burst l"
      "rl_tokens l' = min (rl_tokens l + gained) (rl_burst l) - (if granted then 1 else 0)"
      "time_ns (rl_last l') = (if time_IsZero (rl_last l) then time_ns now else time_ns (rl_last l)) + gained * rl_interval l"
    using allow_ok [OF assms(1), of now] assms(5) by (metis (no_types, lifting) option.inject prod.inject)
  then show "limiter_ok l'" "rl_burst l' = rl_burst l" "rl_interval l' = rl_interval l" "granted \<Longrightarrow> rl_tokens l' + 1 \<le> rl_burst l" by simp_all
  have "0 \<le> gained * rl_interval l" using a(2) assms(1) by (simp add: limiter_ok_def)
  then show "t0 \<le> rl_last l'" using a(6) assms(2,3,4) by (auto simp: time_le_ns time_IsZero_def split: if_splits)
qed

lemma chat_ok_step:
  assumes ok: "chat_ok t0 k c" and t: "zero_time < t0" "t0 \<le> now" and r: "random_ok e" and k: "k < 2 ^ 63"
  shows "\<exists>c'. serve_call parse lib files (e, now, rq) (ChatAPI c) = ChatAPI c' \<and> chat_ok t0 (Suc k) c'"
proof -
  obtain a' where a': "serve_call parse lib files (e, now, rq) (ChatAPI c) = a'" by simp
  then have "\<exists>c'. a' = ChatAPI c' \<and> chat_ok t0 (Suc k) c'"
  proof (cases rule: serve_call_cases)
    case (idle c')
    with ok show ?thesis by (simp add: chat_ok_def)
  next
    case (mints c')
    have "pend_ok (ca_provider c)" using ok by (simp add: chat_ok_def)
    from other_kept(1,2) [OF this disjI1 [OF mints(3)]] ok mints(1,2) show ?thesis by (simp add: chat_ok_def)
  next
    case (completes c')
    have "pend_ok (ca_provider c)" using ok by (simp add: chat_ok_def)
    from other_kept(1,2) [OF this disjI2 [OF completes(3)]] ok completes(1,2) show ?thesis by (simp add: chat_ok_def)
  next
    case (limited c' l)
    have "limiter_ok l" "rl_burst l = 5" "rl_interval l = 12 * Second" "t0 \<le> rl_last l"
      using ok allow_since [OF _ t _ limited(2)] unfolding chat_ok_def by auto
    with ok limited(1,3,4) show ?thesis by (simp add: chat_ok_def)
  next
    case (starts c' l)
    have l: "limiter_ok l" "rl_burst l = 5" "rl_interval l = 12 * Second" "t0 \<le> rl_last l"
      using ok allow_since [OF _ t _ starts(2)] unfolding chat_ok_def by auto
    have p: "pend_ok (ca_provider c)" "rs_pendingSeq (ca_provider c) \<le> int k" using ok unfolding chat_ok_def by blast+
    have "int k < 2 ^ 63" using k by (simp flip: of_nat_less_iff)
    then have small: "rs_pendingSeq (ca_provider c) + 1 < 2 ^ 64" using p(2) by simp
    have "pend_ok (ca_provider c') \<and> rs_pendingSeq (ca_provider c') \<le> int (Suc k)"
    proof (cases "en_random e")
      case None
      with p starts(4) show ?thesis by (simp add: LoginURL_def)
    next
      case (Some st)
      with LoginURL_kept(1,2) [OF p(1) small random_ok_nonempty [OF r Some], of "ca_provider c'" "en_now e"] starts(4) p(2)
      show ?thesis by simp
    qed
    with l starts(1,3) show ?thesis by (simp add: chat_ok_def)
  qed
  with a' show ?thesis by simp
qed

lemma chat_ok_run:
  assumes "chat_ok t0 k c" "zero_time < t0" "\<forall>(e, now, rq) \<in> set calls. t0 \<le> now \<and> random_ok e" "k + length calls < 2 ^ 63"
  shows "\<exists>c'. serve_calls parse lib files calls (ChatAPI c) = ChatAPI c' \<and> chat_ok t0 (k + length calls) c'"
  using assms
proof (induction calls arbitrary: k c)
  case (Cons call calls)
  obtain e now rq where call: "call = (e, now, rq)" by (cases call)
  with Cons.prems chat_ok_step [of t0 k c now e parse lib files rq] obtain c1
    where "serve_call parse lib files call (ChatAPI c) = ChatAPI c1" "chat_ok t0 (Suc k) c1" by auto
  with Cons.IH [of "Suc k" c1] Cons.prems show ?case by (auto simp: serve_calls_def)
qed (auto simp: serve_calls_def)

lemma chat_ok_built:
  assumes "build b e path = Inr (cl, ChatAPI c)"
  shows "chat_ok t0 0 c"
proof -
  obtain cfg where cfg: "fst (Load (bt_load b) path) = Inr cfg"
    using assms by (cases "fst (Load (bt_load b) path)") (simp_all add: build_def)
  then obtain cl' where cl': "New (bt_parse b) (BaseURL (cfg_Companion cfg)) [] = Inr cl'"
    using assms by (cases "New (bt_parse b) (BaseURL (cfg_Companion cfg)) []") (simp_all add: build_def)
  then obtain x where x: "chat_provider_of b (cfg_Chat cfg) = Inr x"
    using assms cfg by (cases "chat_provider_of b (cfg_Chat cfg)") (simp_all add: build_def Let_def)
  then obtain r where p: "chat_provider_of b (cfg_Chat cfg) = Inr (Some r)"
    using assms cfg cl' by (cases x) (simp_all add: build_def Let_def)
  have c: "c = new_chat_api e (NewServer cfg version (bt_hostname b) (satellite_of cfg)) r"
    using assms cfg cl' p by (simp add: build_def Let_def)
  have "rs_pending r = [] \<and> rs_pendingSeq r = 0"
    using p by (auto simp: chat_provider_of_def NewRestream_def Let_def split: sum.splits if_splits)
  then show ?thesis
    by (simp add: c chat_ok_def new_chat_api_def newRateLimiter_def limiter_ok_def pend_ok_def chatStartBurst_def chatStartEvery_def
        Second_def maxInt64_def)
qed


section \<open>The ten minutes after a start\<close>

text \<open>
  \<open>l0\<close> is the limiter right after the start, \<open>g\<close> the permits it has granted since, all before
  \<open>latest\<close>.  The authorizations newer than the one watched are at most those.
\<close>

definition watched :: "rate_limiter \<Rightarrow> time \<Rightarrow> string \<Rightarrow> pending_login \<Rightarrow> nat \<Rightarrow> restream chat_api \<Rightarrow> bool" where
  "watched l0 latest st l g c \<longleftrightarrow>
     rl_last l0 \<le> rl_last (ca_starts c) \<and> rl_last (ca_starts c) \<le> max (rl_last l0) latest \<and>
     (int g + rl_tokens (ca_starts c)) * (12 * Second) + time_ns (rl_last l0) \<le> rl_tokens l0 * (12 * Second) + time_ns (rl_last (ca_starts c)) \<and>
     gm_get (rs_pending (ca_provider c)) st = Some l \<and> card (newer (pl_seq l) (ca_provider c)) \<le> g"

lemma allow_account:
  assumes "limiter_ok l" "rl_interval l = 12 * Second" "zero_time < rl_last l" "now \<le> latest" "allow now l = Some (l', granted)"
  shows "limiter_ok l'" "rl_last l \<le> rl_last l'" "rl_last l' \<le> max (rl_last l) latest"
    "((if granted then 1 else 0) + rl_tokens l') * (12 * Second) + time_ns (rl_last l) \<le> rl_tokens l * (12 * Second) + time_ns (rl_last l')"
proof -
  have nz: "\<not> time_IsZero (rl_last l)" using assms(3) by (auto simp: time_IsZero_def)
  obtain l2 g2 gained where b: "allow now l = Some (l2, g2)" "limiter_ok l2" "0 \<le> gained"
      "rl_tokens l2 = min (rl_tokens l + gained) (rl_burst l) - (if g2 then 1 else 0)"
      "time_ns (rl_last l2) = (if time_IsZero (rl_last l) then time_ns now else time_ns (rl_last l)) + gained * rl_interval l"
      "gained = 0 \<or> time_ns (rl_last l2) \<le> time_ns now"
    by (rule allow_ok [OF assms(1), of now])
  have same: "l2 = l'" "g2 = granted" using b(1) assms(5) by simp_all
  note a = b(2,3) b(4) [unfolded same] b(5) [unfolded same if_not_P [OF nz] assms(2)] b(6)
  note a = a(1) [unfolded same] a(2-4) a(5) [unfolded same]
  show "limiter_ok l'" by (rule a(1))
  show "rl_last l \<le> rl_last l'" using a(2,4) by (simp add: time_le_ns Second_def)
  show "rl_last l' \<le> max (rl_last l) latest"
    using a(4,5) assms(4) by (cases "gained = 0") (auto simp: time_le_ns max_def Second_def)
  have "((if granted then 1 else 0) + rl_tokens l') * (12 * Second) \<le> (rl_tokens l + gained) * (12 * Second)"
    using a(3) by (intro mult_right_mono) (simp_all add: Second_def)
  then show "((if granted then 1 else 0) + rl_tokens l') * (12 * Second) + time_ns (rl_last l) \<le> rl_tokens l * (12 * Second) + time_ns (rl_last l')"
    unfolding a(4) by (simp only: distrib_right)
qed

text \<open>Four permits left and one every twelve seconds: never enough to fill the 64.\<close>

lemma watched_few:
  assumes "watched l0 latest st l g c" "limiter_ok (ca_starts c)" "rl_tokens l0 \<le> 4"
    and "time_ns latest - time_ns (rl_last l0) < 612 * Second"
  shows "g < 55"
proof -
  have "0 \<le> rl_tokens (ca_starts c) * (12 * Second)" using assms(2) by (simp add: limiter_ok_def Second_def)
  moreover have "rl_tokens l0 * (12 * Second) \<le> 4 * (12 * Second)" using assms(3) by (simp add: Second_def)
  moreover have "time_ns (rl_last (ca_starts c)) - time_ns (rl_last l0) < 612 * Second"
    using assms(1,4) by (auto simp: watched_def time_le_ns max_def Second_def split: if_splits)
  ultimately have "int g * (12 * Second) < 55 * (12 * Second)"
    using assms(1) by (simp add: watched_def Second_def algebra_simps)
  then show ?thesis by (simp add: Second_def)
qed

lemma watched_step:
  assumes w: "watched l0 latest st l g c" and ok: "chat_ok t0 k c" and t: "zero_time < t0" and k: "k < 2 ^ 63"
    and l0: "zero_time < rl_last l0" "rl_tokens l0 \<le> 4" "time_ns latest - time_ns (rl_last l0) < 612 * Second"
    and e: "now \<le> latest" "\<not> pl_expires l < en_now e" "\<not> pl_expires l < ce_now (en_complete e)" "en_random e \<noteq> Some st"
      "Header_Get (hq_Query rq) ''state'' \<noteq> st" "random_ok e"
    and step: "serve_call parse lib files (e, now, rq) (ChatAPI c) = ChatAPI c'"
  shows "\<exists>g'. watched l0 latest st l g' c'"
proof -
  have lim: "limiter_ok (ca_starts c)" "rl_interval (ca_starts c) = 12 * Second" and p: "pend_ok (ca_provider c)" "rs_pendingSeq (ca_provider c) \<le> int k"
    using ok unfolding chat_ok_def by blast+
  have last: "rl_last l0 \<le> rl_last (ca_starts c)" and get: "gm_get (rs_pending (ca_provider c)) st = Some l"
    and few: "card (newer (pl_seq l) (ca_provider c)) \<le> g"
    using w unfolding watched_def by blast+
  have z: "zero_time < rl_last (ca_starts c)" using l0(1) last by (rule less_le_trans)
  have acc: "watched l0 latest st l (g + (if granted then 1 else 0)) c2"
    if "allow now (ca_starts c) = Some (l', granted)" "ca_starts c2 = l'" "gm_get (rs_pending (ca_provider c2)) st = Some l"
      "card (newer (pl_seq l) (ca_provider c2)) \<le> g + (if granted then 1 else 0)" for l' granted c2
  proof -
    note a = allow_account [OF lim z e(1) that(1)]
    have "(int (g + (if granted then 1 else 0)) + rl_tokens l') * (12 * Second) =
        int g * (12 * Second) + ((if granted then 1 else 0) + rl_tokens l') * (12 * Second)" by (simp add: algebra_simps)
    moreover have "int g * (12 * Second) + rl_tokens (ca_starts c) * (12 * Second) + time_ns (rl_last l0)
        \<le> rl_tokens l0 * (12 * Second) + time_ns (rl_last (ca_starts c))"
      using w unfolding watched_def by (simp add: algebra_simps)
    moreover have "rl_last l' \<le> max (rl_last l0) latest" using a(3) w unfolding watched_def by (auto simp: le_max_iff_disj)
    moreover have "rl_last l0 \<le> rl_last l'" using last a(2) by (rule order_trans)
    ultimately show ?thesis using a(4) that(2-4) unfolding watched_def by auto
  qed
  have same: "watched l0 latest st l g c2"
    if "ca_starts c2 = ca_starts c" "gm_get (rs_pending (ca_provider c2)) st = Some l" "newer (pl_seq l) (ca_provider c2) \<subseteq> newer (pl_seq l) (ca_provider c)" for c2
    using that w card_mono [OF finite_newer that(3)] few unfolding watched_def by auto
  from step show ?thesis
  proof (cases rule: serve_call_cases)
    case (idle c2)
    then show ?thesis using same [of c'] get by auto
  next
    case (mints c2)
    with other_kept(3,5) [OF p(1) disjI1 [OF mints(3)]] same [of c'] get show ?thesis by auto
  next
    case (completes c2)
    with other_kept(3,4) [OF p(1) disjI2 [OF completes(3)]] same [of c'] get e(3,5) show ?thesis by auto
  next
    case (limited c2 l')
    then show ?thesis using acc [OF limited(2), of c'] get few by auto
  next
    case (starts c2 l')
    have "gm_get (rs_pending (ca_provider c')) st = Some l \<and> card (newer (pl_seq l) (ca_provider c')) \<le> Suc g"
    proof (cases "en_random e")
      case None
      with starts(1,4) get few show ?thesis by (simp add: LoginURL_def)
    next
      case (Some st')
      have "int k < 2 ^ 63" using k by (simp flip: of_nat_less_iff)
      then have small: "rs_pendingSeq (ca_provider c) + 1 < 2 ^ 64" using p(2) by simp
      have "g < 55" by (rule watched_few [OF w lim(1) l0(2,3)])
      then have "Suc (card (newer (pl_seq l) (ca_provider c))) < maxPendingLogins" using few by (simp add: maxPendingLogins_def)
      with LoginURL_kept(5) [OF p(1) small random_ok_nonempty [OF e(6) Some], of "ca_provider c'" "en_now e" st l] starts(1,4) Some e(2,4) get few
      show ?thesis by auto
    qed
    with acc [OF starts(2), of c'] starts(1,3) show ?thesis by auto
  qed
qed


lemma watched_run:
  assumes "watched l0 latest st l g c" "chat_ok t0 k c" "zero_time < t0"
    and "zero_time < rl_last l0" "rl_tokens l0 \<le> 4" "time_ns latest - time_ns (rl_last l0) < 612 * Second"
    and "\<forall>(e, now, rq) \<in> set calls. t0 \<le> now \<and> now \<le> latest \<and> random_ok e \<and> \<not> pl_expires l < en_now e \<and>
      \<not> pl_expires l < ce_now (en_complete e) \<and> en_random e \<noteq> Some st \<and> Header_Get (hq_Query rq) ''state'' \<noteq> st"
    and "k + length calls < 2 ^ 63"
  shows "\<exists>c' g'. serve_calls parse lib files calls (ChatAPI c) = ChatAPI c' \<and> watched l0 latest st l g' c' \<and> pend_ok (ca_provider c')"
  using assms
proof (induction calls arbitrary: g k c)
  case Nil
  then show ?case by (auto simp: serve_calls_def chat_ok_def)
next
  case (Cons call calls)
  obtain e now rq where call: "call = (e, now, rq)" by (cases call)
  have this_call: "t0 \<le> now" "now \<le> latest" "random_ok e" "\<not> pl_expires l < en_now e" "\<not> pl_expires l < ce_now (en_complete e)"
      "en_random e \<noteq> Some st" "Header_Get (hq_Query rq) ''state'' \<noteq> st" and k: "k < 2 ^ 63"
    using Cons.prems(7,8) by (auto simp: call)
  obtain c1 where c1: "serve_call parse lib files (e, now, rq) (ChatAPI c) = ChatAPI c1" "chat_ok t0 (Suc k) c1"
    using chat_ok_step [OF Cons.prems(2,3) this_call(1,3) k] by blast
  obtain g1 where g1: "watched l0 latest st l g1 c1"
    using watched_step [OF Cons.prems(1-3) k Cons.prems(4-6) this_call(2,4,5,6,7,3) c1(1)] by blast
  have rest: "\<forall>(e, now, rq) \<in> set calls. t0 \<le> now \<and> now \<le> latest \<and> random_ok e \<and> \<not> pl_expires l < en_now e \<and>
      \<not> pl_expires l < ce_now (en_complete e) \<and> en_random e \<noteq> Some st \<and> Header_Get (hq_Query rq) ''state'' \<noteq> st"
      "Suc k + length calls < 2 ^ 63"
    using Cons.prems(7,8) by auto
  from Cons.IH [OF g1 c1(2) Cons.prems(3-6) rest] c1(1) show ?case by (simp add: serve_calls_def call)
qed

section \<open>Properties\<close>

text \<open>A start request that the limiter grants.\<close>

definition begins_login :: "url_parser \<Rightarrow> call \<Rightarrow> restream chat_api \<Rightarrow> bool" where
  "begins_login parse = (\<lambda>(e, now, rq) c. mux_route True (hq_Path rq) = RouteChatStart \<and>
     reaches_limiter parse (sv_cfg (ca_server c)) rq \<and> map_option snd (allow now (ca_starts c)) = Some True)"

lemma begins_login_step:
  assumes "begins_login parse (e, now, rq) c" "serve_call parse lib files (e, now, rq) (ChatAPI c) = ChatAPI c'"
  obtains l where "allow now (ca_starts c) = Some (l, True)" "ca_starts c' = l"
    "ca_provider c' = fst (LoginURL (en_now e) (en_random e) (ca_provider c))"
proof -
  obtain h where h: "fst (serve_api parse lib files e now rq h (ChatAPI c)) = ChatAPI c'"
    using assms(2) by (auto simp: serve_call_def Handler_def withCommonHeaders_def)
  obtain l where l: "allow now (ca_starts c) = Some (l, True)" using assms(1) by (auto simp: begins_login_def)
  have r: "reaches_limiter parse (sv_cfg (ca_server c)) rq" "mux_route True (hq_Path rq) = RouteChatStart"
    using assms(1) by (simp_all add: begins_login_def)
  from serveChatAuthStart_limited [OF r(1) l, of restream_provider e h] obtain a' rp
    where "serveChatAuthStart parse restream_provider e now h rq c = (a', Some rp)" "ca_starts a' = l"
      "ca_provider a' = fst (pv_LoginURL restream_provider e (ca_provider c))" by auto
  with h r(2) that [OF l] show thesis by (simp add: serve_api_def restream_provider_def)
qed

text \<open>
  C8: An authorization an operator starts cannot be pushed out.  Whatever requests the listener
  has served since it was built and serves in the ten minutes after the start, on any route, from
  anyone and in any order, the state handed out is still accepted, unless a callback presents it
  first: the rate limiter lets fewer starts through than there is room for.
\<close>

theorem started_login_stays:
  assumes "build b e0 path = Inr (cl, ChatAPI c0)" "serve_calls parse lib files before (ChatAPI c0) = ChatAPI c"
    and "begins_login parse (e, now, rq) c" "en_random e = Some st"
    and "\<forall>(e, now, rq) \<in> set (before @ (e, now, rq) # after). t0 \<le> now \<and> now \<le> t1 \<and> random_ok e"
    and "zero_time < t0" "time_ns t1 - time_ns t0 \<le> maxInt64" "length before + length after < 2 ^ 62"
    and "\<forall>(e', now', rq') \<in> set after. now' \<le> time_Add now loginStateTTL \<and> en_now e' \<le> time_Add (en_now e) loginStateTTL \<and>
      ce_now (en_complete e') \<le> time_Add (en_now e) loginStateTTL \<and> en_random e' \<noteq> Some st \<and> Header_Get (hq_Query rq') ''state'' \<noteq> st"
  shows "\<exists>c'. serve_calls parse lib files (before @ (e, now, rq) # after) (ChatAPI c0) = ChatAPI c' \<and>
    (\<forall>t \<le> time_Add (en_now e) loginStateTTL. snd (claim_login t st (ca_provider c')))"
proof -
  let ?x = "time_Add (en_now e) loginStateTTL" and ?latest = "time_Add now loginStateTTL"
  have all: "t0 \<le> now' \<and> now' \<le> t1 \<and> random_ok e'" if "(e', now', rq') \<in> set (before @ (e, now, rq) # after)" for e' now' rq'
    using bspec [OF assms(5) that] by simp
  have before: "\<forall>(e, now, rq) \<in> set before. t0 \<le> now \<and> random_ok e" and this_call: "t0 \<le> now" "now \<le> t1" "random_ok e"
    using all [of e now rq] all by auto
  obtain c2 where "serve_calls parse lib files before (ChatAPI c0) = ChatAPI c2" "chat_ok t0 (length before) c2"
    using chat_ok_run [OF chat_ok_built [OF assms(1)] assms(6) before, where parse = parse and lib = lib and files = files] assms(8) by auto
  with assms(2) have ok: "chat_ok t0 (length before) c" by simp
  have k: "length before < 2 ^ 63" using assms(8) by simp
  obtain c1 where c1: "serve_call parse lib files (e, now, rq) (ChatAPI c) = ChatAPI c1" "chat_ok t0 (Suc (length before)) c1"
    using chat_ok_step [OF ok assms(6) this_call(1,3) k] by blast
  obtain l0 where l0: "allow now (ca_starts c) = Some (l0, True)" "ca_starts c1 = l0"
      "ca_provider c1 = fst (LoginURL (en_now e) (en_random e) (ca_provider c))"
    by (rule begins_login_step [OF assms(3) c1(1)])
  have lim: "limiter_ok (ca_starts c)" "rl_burst (ca_starts c) = 5" "rl_interval (ca_starts c) = 12 * Second"
      "rl_last (ca_starts c) = zero_time \<or> t0 \<le> rl_last (ca_starts c)" and p: "pend_ok (ca_provider c)" "rs_pendingSeq (ca_provider c) \<le> int (length before)"
    using ok unfolding chat_ok_def by blast+
  have since: "t0 \<le> rl_last l0" "rl_tokens l0 \<le> 4" using allow_since(4,5) [OF lim(1) assms(6) this_call(1) lim(4) l0(1)] lim(2) by simp_all
  have "rl_last (ca_starts c) = zero_time \<or> time_ns now - time_ns (rl_last (ca_starts c)) \<le> maxInt64"
    using lim(4) this_call(2) assms(7) by (auto simp: time_le_ns)
  from allow_recent [OF lim(1) this l0(1)] have "time_ns now - time_ns (rl_last l0) < 12 * Second" by (simp add: lim(3))
  then have close: "time_ns ?latest - time_ns (rl_last l0) < 612 * Second" by (simp add: loginStateTTL_def Minute_def)
  have z: "zero_time < rl_last l0" using assms(6) since(1) by (rule less_le_trans)
  have "int (length before) < 2 ^ 63" using k by (simp flip: of_nat_less_iff)
  then have small: "rs_pendingSeq (ca_provider c) + 1 < 2 ^ 64" using p(2) by simp
  define l where "l = \<lparr>pl_expires = ?x, pl_seq = rs_pendingSeq (ca_provider c1)\<rparr>"
  have prov: "ca_provider c1 = fst (LoginURL (en_now e) (Some st) (ca_provider c))" using l0(3) assms(4) by simp
  note kept = LoginURL_kept [OF p(1) small random_ok_nonempty [OF this_call(3) assms(4)] prov]
  have "watched l0 ?latest st l 0 c1" using kept(3,4) by (simp add: watched_def l0(2) l_def)
  moreover have "\<forall>(e, now, rq) \<in> set after. t0 \<le> now \<and> now \<le> ?latest \<and> random_ok e \<and> \<not> pl_expires l < en_now e \<and>
      \<not> pl_expires l < ce_now (en_complete e) \<and> en_random e \<noteq> Some st \<and> Header_Get (hq_Query rq) ''state'' \<noteq> st"
    using assms(9) all by (fastforce simp: l_def)
  ultimately obtain c' g where c': "serve_calls parse lib files after (ChatAPI c1) = ChatAPI c'" "watched l0 ?latest st l g c'" "pend_ok (ca_provider c')"
    using watched_run [OF _ c1(2) assms(6) z since(2) close, of st l 0 after parse lib files] assms(8) by auto
  have "gm_get (rs_pending (ca_provider c')) st = Some l" "gm_wf (rs_pending (ca_provider c'))"
    using c'(2,3) unfolding watched_def pend_ok_def by blast+
  then have "snd (claim_login t st (ca_provider c'))" if "t \<le> ?x" for t
    using that by (auto simp: claim_login_def Let_def prune_get l_def)
  moreover have "serve_calls parse lib files (before @ (e, now, rq) # after) (ChatAPI c0) = ChatAPI c'"
    using assms(2) c1(1) c'(1) by (simp add: serve_calls_def)
  ultimately show ?thesis by blast
qed


text \<open>An operator starts an authorization, then seven strangers do.\<close>

definition start_call :: "char \<Rightarrow> call" where
  "start_call x = (demo_call\<lparr>en_random := randomState (Some (replicate 32 x))\<rparr>, Time 1, demo_start)"

lemma demo_boot_builds:
  "\<exists>cl c. build demo_boot demo_call ''c.toml'' = Inr (cl, ChatAPI c) \<and> sv_cfg (ca_server c) = witness_chat \<and>
     ca_starts c = newRateLimiter chatStartBurst chatStartEvery"
proof -
  have v: "Config_validate witness_parse witness_chat = None" by code_simp
  have cfg: "fst (Load (bt_load demo_boot) ''c.toml'') = Inr witness_chat"
    using v by (simp add: Load_def demo_boot_def witness_chat_def Let_def)
  obtain cl where cl: "New (bt_parse demo_boot) (BaseURL (cfg_Companion witness_chat)) [] = Inr cl"
    by (simp add: New_def demo_boot_def Let_def)
  have "\<not> ChatConfig_Disabled (cfg_Chat witness_chat)" by code_simp
  with chat_provider_of_ok [OF v, of demo_boot] obtain r where "chat_provider_of demo_boot (cfg_Chat witness_chat) = Inr (Some r)" by blast
  with cfg cl show ?thesis by (simp add: build_def Let_def new_chat_api_def NewServer_def)
qed

lemma started_login_stays_witness:
  "\<exists>cl c0 c' st. build demo_boot demo_call ''c.toml'' = Inr (cl, ChatAPI c0) \<and>
     serve_calls witness_parse demo_lib demo_bundle (start_call (CHR ''M'') # replicate 7 (start_call (CHR ''N''))) (ChatAPI c0) = ChatAPI c' \<and>
     en_random (fst (start_call (CHR ''M''))) = Some st \<and> snd (claim_login (Time (10 * Minute)) st (ca_provider c'))"
proof -
  obtain cl c0 where c0: "build demo_boot demo_call ''c.toml'' = Inr (cl, ChatAPI c0)" "sv_cfg (ca_server c0) = witness_chat"
      "ca_starts c0 = newRateLimiter chatStartBurst chatStartEvery" using demo_boot_builds by blast
  let ?e = "\<lambda>x. demo_call\<lparr>en_random := randomState (Some (replicate 32 x))\<rparr>"
  define st where "st = EncodeToString (replicate 32 (CHR ''M''))"
  have call: "start_call x = (?e x, Time 1, demo_start)" for x by (simp add: start_call_def)
  have st: "en_random (?e (CHR ''M'')) = Some st" by (simp add: randomState_def st_def)
  have "length st = 43" by (simp add: st_def Encode_length)
  have "mux_route True (hq_Path demo_start) = RouteChatStart" "reaches_limiter witness_parse witness_chat demo_start" by code_simp+
  moreover have "map_option snd (allow (Time 1) (newRateLimiter chatStartBurst chatStartEvery)) = Some True" by code_simp
  ultimately have b: "begins_login witness_parse (?e (CHR ''M''), Time 1, demo_start) c0" by (simp add: begins_login_def c0(2,3))
  have rnd: "random_ok (?e x)" for x by (auto simp: random_ok_def)
  have "EncodeToString (replicate 32 (CHR ''N'')) \<noteq> st" by (simp add: st_def Encode_inject)
  moreover have "Header_Get (hq_Query demo_start) ''state'' \<noteq> st" using \<open>length st = 43\<close> by (auto simp: demo_start_def demo_get_def Header_Get_def)
  moreover have "ce_now (en_complete demo_call) \<le> time_Add (Time 0) loginStateTTL" by code_simp
  ultimately have after: "\<forall>(e', now', rq') \<in> set (replicate 7 (start_call (CHR ''N''))). now' \<le> time_Add (Time 1) loginStateTTL \<and>
      en_now e' \<le> time_Add (en_now (?e (CHR ''M''))) loginStateTTL \<and> ce_now (en_complete e') \<le> time_Add (en_now (?e (CHR ''M''))) loginStateTTL \<and>
      en_random e' \<noteq> Some st \<and> Header_Get (hq_Query rq') ''state'' \<noteq> st"
    by (auto simp: call demo_call_def time_le_ns loginStateTTL_def Minute_def Second_def randomState_def)
  have all: "\<forall>(e, now, rq) \<in> set ([] @ (?e (CHR ''M''), Time 1, demo_start) # replicate 7 (start_call (CHR ''N''))).
      Time 1 \<le> now \<and> now \<le> Time 1 \<and> random_ok e" by (auto simp: call rnd)
  from started_login_stays [OF c0(1) _ b st all _ _ _ after, of demo_lib demo_bundle]
  obtain c' where c': "serve_calls witness_parse demo_lib demo_bundle ([] @ (?e (CHR ''M''), Time 1, demo_start) # replicate 7 (start_call (CHR ''N''))) (ChatAPI c0) = ChatAPI c'"
      "\<forall>t \<le> time_Add (en_now (?e (CHR ''M''))) loginStateTTL. snd (claim_login t st (ca_provider c'))"
    by (auto simp: serve_calls_def zero_time_def maxInt64_def)
  have "Time (10 * Minute) \<le> time_Add (en_now (?e (CHR ''M''))) loginStateTTL" by (simp add: demo_call_def time_le_ns loginStateTTL_def)
  with c' st c0(1) show ?thesis by (intro exI [of _ cl] exI [of _ c0] exI [of _ c'] exI [of _ st]) (simp add: call)
qed

end
