(* ===== verification/Pages.thy ===== *)
theory Pages
  imports LoginFlow
begin

text \<open>
  What the handlers' answers are as bytes, and what holds of every answer of the listener: the
  callback page of server/internal/api/chat.go, the page of server/internal/webui/webui.go that
  says no client is bundled, the files the binary embeds, and the headers of
  \<open>withCommonHeaders\<close>.
\<close>

section \<open>Pages\<close>

definition em_dash :: string where
  "em_dash = [CHR 0xE2, CHR 0x80, CHR 0x94]"

definition quoted :: "string \<Rightarrow> string" where
  "quoted s = CHR 0x22 # s @ [CHR 0x22]"

definition text_lines :: "string list \<Rightarrow> string" where
  "text_lines ls = concat (map (\<lambda>l. l @ [CHR 0x0A]) ls)"

text \<open>What \<open>html/template\<close> does to a string in the text of an element, title or not.\<close>

definition html_escape_char :: "char \<Rightarrow> string" where
  "html_escape_char c =
     (if c = CHR 0x00 then [CHR 0xEF, CHR 0xBF, CHR 0xBD]
      else if c = CHR 0x22 then ''&#34;''
      else if c = CHR ''&'' then ''&amp;''
      else if c = CHR 0x27 then ''&#39;''
      else if c = CHR ''+'' then ''&#43;''
      else if c = CHR ''<'' then ''&lt;''
      else if c = CHR ''>'' then ''&gt;''
      else [c])"

definition html_escape :: "string \<Rightarrow> string" where
  "html_escape s = concat (map html_escape_char s)"

definition chatCallbackPage :: "string \<Rightarrow> string \<Rightarrow> string" where
  "chatCallbackPage title msg =
     text_lines
       [''<!doctype html>'',
        ''<html lang='' @ quoted ''en'' @ ''>'',
        ''<head>'',
        ''<meta charset='' @ quoted ''utf-8'' @ ''>'',
        ''<meta name='' @ quoted ''viewport'' @ '' content='' @ quoted ''width=device-width, initial-scale=1'' @ ''>''] @
     ''<title>'' @ html_escape title @
     text_lines
       ['' '' @ em_dash @ '' CueBooth</title>'',
        ''<style>'',
        ''  body { font-family: system-ui, sans-serif; background: #11151b; color: #e3e7ec;'',
        ''         display: flex; min-height: 100vh; margin: 0; align-items: center; justify-content: center; }'',
        ''  main { max-width: 26rem; padding: 2rem; text-align: center; }'',
        ''  h1 { font-size: 1.4rem; margin: 0 0 0.75rem; }'',
        ''  p { color: #9aa4b0; line-height: 1.6; margin: 0; }'',
        ''</style>'',
        ''</head>''] @
     ''<body><main><h1>'' @ html_escape title @
     ''</h1><p>'' @ html_escape msg @
     text_lines
       [''</p></main></body>'',
        ''</html>'']"

definition missingPage :: string where
  "missingPage = text_lines
     [''<!doctype html>'',
      ''<html lang='' @ quoted ''en'' @ ''>'',
      ''<head>'',
      ''<meta charset='' @ quoted ''utf-8'' @ ''>'',
      ''<meta name='' @ quoted ''viewport'' @ '' content='' @ quoted ''width=device-width, initial-scale=1'' @ ''>'',
      ''<title>No client bundled '' @ em_dash @ '' CueBooth</title>'',
      ''<style>'',
      ''  body { font-family: system-ui, sans-serif; background: #11151b; color: #e3e7ec;'',
      ''         display: flex; min-height: 100vh; margin: 0; align-items: center; justify-content: center; }'',
      ''  main { max-width: 30rem; padding: 2rem; }'',
      ''  h1 { font-size: 1.4rem; margin: 0 0 0.75rem; }'',
      ''  p { color: #9aa4b0; line-height: 1.6; }'',
      ''  code { background: #212932; padding: 0.15em 0.4em; border-radius: 3px; }'',
      ''</style>'',
      ''</head>'',
      ''<body><main>'',
      ''<h1>No web client in this build</h1>'',
      ''<p>The server is running and its WebSocket API is available, but no client was'',
      ''built into this binary.</p>'',
      ''<p>Build one with <code>make web</code> in <code>server/</code>, then rebuild'',
      ''the server. A native client can still connect to this server directly.</p>'',
      ''</main></body>'',
      ''</html>'']"

text \<open>The bytes of an answer's body; a JSON object is left to the encoder.\<close>

fun page_of :: "content \<Rightarrow> string option" where
  "page_of (CallbackPage title msg) = Some (chatCallbackPage title msg)"
| "page_of MissingPage = Some missingPage"
| "page_of _ = None"

section \<open>The embedded files\<close>

text \<open>\<open>fs.Sub\<close> of what \<open>go:embed all:dist\<close> embeds.\<close>

definition assets :: "web_files \<Rightarrow> web_files" where
  "assets embedded = map (\<lambda>(name, n). (drop 5 name, n)) (filter (\<lambda>(name, _). HasPrefix name ''dist/'') embedded)"

definition Bundled :: "web_files \<Rightarrow> bool" where
  "Bundled embedded = bundledIn (assets embedded)"

definition webui_Handler :: "web_lib \<Rightarrow> web_files \<Rightarrow> headers \<Rightarrow> http_request \<Rightarrow> response" where
  "webui_Handler lib embedded = handlerFrom lib (assets embedded)"

text \<open>What reading one file meets: it may not open, or fail half way.\<close>

datatype file_read = NoOpen | ReadFails | ReadAll string

definition hashFile :: "web_lib \<Rightarrow> file_read \<Rightarrow> (unit, string) result" where
  "hashFile lib f = (case f of ReadAll body \<Rightarrow> Inr (wl_sha256 lib body) | _ \<Rightarrow> Inl ())"





section \<open>What the answers hold\<close>

text \<open>An escaped string has no character that opens or closes markup, and escaping loses nothing.\<close>

lemma html_escape_plain: "set (html_escape s) \<inter> {CHR ''<'', CHR ''>'', CHR 0x22, CHR 0x27} = {}"
  by (induction s) (auto simp: html_escape_def html_escape_char_def)

lemma html_escape_fixed:
  "set s \<inter> {CHR 0x00, CHR 0x22, CHR ''&'', CHR 0x27, CHR ''+'', CHR ''<'', CHR ''>''} = {} \<Longrightarrow> html_escape s = s"
  by (induction s) (auto simp: html_escape_def html_escape_char_def)
















section \<open>Properties\<close>




end
