(* ===== verification/Startup.thy ===== *)
theory Startup
  imports Pages
begin

text \<open>
  How the process puts itself together and what its end is reported as: the functional options of
  server/internal/api/server.go and server/internal/chat/restream.go, \<open>NewServer\<close> and
  \<open>NewRestream\<close> applying them in order, \<open>run\<close> and \<open>main\<close> of server/cmd/cuebooth-server, and
  the choice between an interactive run and the Windows service.  \<open>Service.build\<close> names the
  server that results; here it is shown to be what the options give.
\<close>

section \<open>Options of the chat provider\<close>

text \<open>The HTTP client, the logger and the clock are handles; \<open>None\<close> is nil.\<close>

datatype ('h, 'l, 'n) restream_option =
    WithRestreamHTTPClient "'h option"
  | WithRestreamAPIBase string
  | WithRestreamLogger "'l option"
  | WithRestreamClock "'n option"

record ('h, 'l, 'n) restream_handles =
  rh_http :: 'h
  rh_logger :: 'l
  rh_now :: 'n

fun apply_restream_option ::
  "('h, 'l, 'n) restream_option \<Rightarrow> restream \<times> ('h, 'l, 'n) restream_handles \<Rightarrow> restream \<times> ('h, 'l, 'n) restream_handles" where
  "apply_restream_option (WithRestreamHTTPClient c) (r, hs) = (r, case c of Some x \<Rightarrow> hs\<lparr>rh_http := x\<rparr> | None \<Rightarrow> hs)"
| "apply_restream_option (WithRestreamAPIBase base) (r, hs) =
     (if base \<noteq> '''' then r\<lparr>rs_apiBase := TrimRight base (CHR ''/'')\<rparr> else r, hs)"
| "apply_restream_option (WithRestreamLogger l) (r, hs) = (r, case l of Some x \<Rightarrow> hs\<lparr>rh_logger := x\<rparr> | None \<Rightarrow> hs)"
| "apply_restream_option (WithRestreamClock n) (r, hs) = (r, case n of Some x \<Rightarrow> hs\<lparr>rh_now := x\<rparr> | None \<Rightarrow> hs)"

definition NewRestreamWith ::
  "restream_config \<Rightarrow> ('h, 'l, 'n) restream_handles \<Rightarrow> ('h, 'l, 'n) restream_option list \<Rightarrow>
    (TokenStore.store_error, tokens) result \<Rightarrow> (chat_error, restream \<times> ('h, 'l, 'n) restream_handles) result" where
  "NewRestreamWith cfg defaults opts loaded =
     (case NewRestream cfg None loaded of
        Inl err \<Rightarrow> Inl err
      | Inr r \<Rightarrow> Inr (fold apply_restream_option opts (r, defaults)))"

text \<open>The provider itself is set by the last base that is not empty; the other options are handles.\<close>

fun last_base :: "('h, 'l, 'n) restream_option list \<Rightarrow> string option" where
  "last_base [] = None"
| "last_base (opt # opts) =
     (case last_base opts of
        Some b \<Rightarrow> Some b
      | None \<Rightarrow> (case opt of WithRestreamAPIBase b \<Rightarrow> if b = '''' then None else Some b | _ \<Rightarrow> None))"

lemma last_base_nonempty: "last_base opts \<noteq> Some ''''"
  by (induction opts) (auto split: option.splits restream_option.splits)

lemma restream_options_base:
  "fst (fold apply_restream_option opts (r, hs)) =
     (case last_base opts of Some b \<Rightarrow> r\<lparr>rs_apiBase := TrimRight b (CHR ''/'')\<rparr> | None \<Rightarrow> r)"
proof (induction opts arbitrary: r hs)
  case (Cons opt opts)
  show ?case by (cases opt) (auto simp: Cons.IH split: option.split)
qed simp

lemma NewRestream_options:
  "map_sum id fst (NewRestreamWith cfg defaults opts loaded) = NewRestream cfg (last_base opts) loaded"
  using last_base_nonempty [of opts]
  by (auto simp: NewRestreamWith_def NewRestream_def restream_options_base Let_def split: option.split)

section \<open>Options of the server\<close>

datatype ('l, 's) api_option =
    WithLogger "'l option"
  | WithVersion string
  | WithServerID string
  | WithPollInterval int
  | WithSources "'s list"
  | WithSatellite "satellite option"
  | WithChat "restream option"

record ('l, 's) server_parts =
  pt_logger :: 'l
  pt_version :: string
  pt_serverID :: string
  pt_pollInterval :: int
  pt_sources :: "'s list"
  pt_satellite :: "satellite option"
  pt_chat :: "restream option"

fun apply_option :: "('l, 's) api_option \<Rightarrow> ('l, 's) server_parts \<Rightarrow> ('l, 's) server_parts" where
  "apply_option (WithLogger l) p = (case l of Some x \<Rightarrow> p\<lparr>pt_logger := x\<rparr> | None \<Rightarrow> p)"
| "apply_option (WithVersion v) p = (if v \<noteq> '''' then p\<lparr>pt_version := v\<rparr> else p)"
| "apply_option (WithServerID i) p = (if i \<noteq> '''' then p\<lparr>pt_serverID := i\<rparr> else p)"
| "apply_option (WithPollInterval d) p = p\<lparr>pt_pollInterval := d\<rparr>"
| "apply_option (WithSources sources) p = p\<lparr>pt_sources := pt_sources p @ sources\<rparr>"
| "apply_option (WithSatellite sat) p = (case sat of Some s \<Rightarrow> p\<lparr>pt_satellite := Some s\<rparr> | None \<Rightarrow> p)"
| "apply_option (WithChat c) p = (case c of Some r \<Rightarrow> p\<lparr>pt_chat := Some r\<rparr> | None \<Rightarrow> p)"

text \<open>\<open>hostname\<close> is empty when the system does not tell it.\<close>

definition default_parts :: "'l \<Rightarrow> string \<Rightarrow> ('l, 's) server_parts" where
  "default_parts logger hostname =
     \<lparr>pt_logger = logger, pt_version = ''0.1.0'', pt_serverID = hostname, pt_pollInterval = 0, pt_sources = [],
      pt_satellite = None, pt_chat = None\<rparr>"

text \<open>\<open>NewServer\<close> with its options: the server as its routes see it, and its poller.\<close>

definition NewServerWith ::
  "chat_env \<Rightarrow> config \<Rightarrow> 'l \<Rightarrow> string \<Rightarrow> ('l, 's) api_option list \<Rightarrow> api \<times> poller" where
  "NewServerWith e cfg logger hostname opts =
     (let p = fold apply_option opts (default_parts logger hostname);
          s = NewServer cfg (pt_version p) (pt_serverID p) (pt_satellite p)
      in (case pt_chat p of None \<Rightarrow> PlainAPI s | Some r \<Rightarrow> ChatAPI (new_chat_api e s r),
          NewPoller (pt_pollInterval p) (length (pt_sources p))))"

section \<open>Running\<close>

text \<open>\<open>Server.Run\<close>: \<open>bound\<close> tells whether the address could be listened on.\<close>

definition server_of :: "api \<Rightarrow> server" where
  "server_of a = (case a of PlainAPI s \<Rightarrow> s | ChatAPI c \<Rightarrow> ca_server c)"

definition has_chat :: "api \<Rightarrow> bool" where
  "has_chat a = (case a of PlainAPI _ \<Rightarrow> False | ChatAPI _ \<Rightarrow> True)"

definition Server_Run :: "bool \<Rightarrow> serve_outcome \<Rightarrow> api \<Rightarrow> run_error option" where
  "Server_Run bound outcome a = (if \<not> bound then Some ServeFailed else serve_result (has_chat a) (server_of a) outcome)"

text \<open>What the startup announced, and the error \<open>run\<close> returns.\<close>

definition run_options :: "'l \<Rightarrow> config \<Rightarrow> restream option \<Rightarrow> ('l, 's) api_option list" where
  "run_options logger cfg provider =
     [WithLogger (Some logger), WithVersion version] @
     (case satellite_of cfg of Some sat \<Rightarrow> [WithSatellite (Some sat)] | None \<Rightarrow> []) @
     (case provider of Some r \<Rightarrow> [WithChat (Some r)] | None \<Rightarrow> [])"

definition start :: "boot \<Rightarrow> chat_env \<Rightarrow> 'l \<Rightarrow> string \<Rightarrow> (run_error, client \<times> api \<times> poller) result" where
  "start b e logger configPath =
     (case fst (Load (bt_load b) configPath) of
        Inl err \<Rightarrow> Inl (LoadFailed err)
      | Inr cfg \<Rightarrow>
          (case New (bt_parse b) (BaseURL (cfg_Companion cfg)) [] of
             Inl err \<Rightarrow> Inl (ClientFailed err)
           | Inr cl \<Rightarrow>
               (case chat_provider_of b (cfg_Chat cfg) of
                  Inl err \<Rightarrow> Inl (ProviderFailed err)
                | Inr provider \<Rightarrow>
                    Inr (cl, NewServerWith e cfg logger (bt_hostname b)
                      (run_options logger cfg provider :: ('l, unit) api_option list)))))"

definition run :: "boot \<Rightarrow> chat_env \<Rightarrow> web_files \<Rightarrow> 'l \<Rightarrow> bool \<Rightarrow> serve_outcome \<Rightarrow> string \<Rightarrow> (level \<times> string) list \<times> run_error option" where
  "run b e embedded logger bound outcome configPath =
     (case start b e logger configPath of
        Inl err \<Rightarrow> ([], Some err)
      | Inr (_, a, _) \<Rightarrow> ([webClientStatus (Bundled embedded)], Server_Run bound outcome a))"

section \<open>The process\<close>

text \<open>
  \<open>runAsService\<close>: \<open>detected\<close> is what \<open>svc.IsWindowsService\<close> answers.  The configuration the
  service runs with, \<open>None\<close> to run interactively.
\<close>

definition runAsService :: "(unit, bool) result \<Rightarrow> load_env \<Rightarrow> string option \<Rightarrow> string \<Rightarrow> string option" where
  "runAsService detected le exe configPath =
     (case detected of Inr True \<Rightarrow> Some (resolveServiceConfigPath le exe configPath) | _ \<Rightarrow> None)"

definition runAsService_other :: "string \<Rightarrow> string option" where
  "runAsService_other configPath = None"

text \<open>
  The exit status of \<open>main\<close>, and what the service manager is told when it launched the process:
  \<open>before\<close> are its requests up to the end of \<open>run\<close>.
\<close>

datatype ending = Exit nat | ServiceEnd "svc_status list" "(bool \<times> nat) option"

definition main :: "bool \<Rightarrow> (unit, bool) result \<Rightarrow> string option \<Rightarrow> svc_cmd list \<Rightarrow>
    boot \<Rightarrow> chat_env \<Rightarrow> web_files \<Rightarrow> 'l \<Rightarrow> bool \<Rightarrow> serve_outcome \<Rightarrow> string \<Rightarrow> ending" where
  "main windows detected exe before b e embedded logger bound outcome configPath =
     (case (if windows then runAsService detected (bt_load b) exe configPath else runAsService_other configPath) of
        Some path \<Rightarrow>
          (let (st, r) = Execute (map Request before @ [RunEnded (snd (run b e embedded logger bound outcome path))])
           in ServiceEnd st r)
      | None \<Rightarrow> Exit (case snd (run b e embedded logger bound outcome configPath) of Some _ \<Rightarrow> 1 | None \<Rightarrow> 0))"

section \<open>What the options amount to\<close>

lemma parts_of_run:
  "fold apply_option (run_options logger cfg provider) (default_parts logger hostname) =
     \<lparr>pt_logger = logger, pt_version = version, pt_serverID = hostname, pt_pollInterval = 0, pt_sources = [],
      pt_satellite = satellite_of cfg, pt_chat = provider\<rparr>"
  by (simp add: run_options_def default_parts_def version_def split: option.split)

text \<open>\<open>start\<close> is \<open>build\<close> with a poller that has nothing to poll.\<close>

lemma start_build:
  "start b e logger configPath =
     map_sum id (\<lambda>(cl, a). (cl, a, NewPoller 0 0)) (build b e configPath)"
  by (simp add: start_def build_def NewServerWith_def parts_of_run Let_def split: sum.split option.split)

text \<open>Without sources the poller never writes: the state changes only through commands and the chat status.\<close>

lemma started_poller_idle:
  "start b e logger configPath = Inr (cl, a, p) \<Longrightarrow> Run p first later s w = (s, w)"
  by (cases "build b e configPath") (auto simp: start_build Run_def NewPoller_def split: prod.splits)

text \<open>The warning at the start is about what a browser would see.\<close>

lemma warned_page:
  assumes "fst (webClientStatus (Bundled embedded)) = LevelWarn" "hq_Method rq \<in> {''GET'', ''HEAD''}"
  shows "rp_Status (webui_Handler lib embedded h rq) = 404 \<and> rp_Content (webui_Handler lib embedded h rq) = MissingPage"
  using assms
  by (auto simp: webClientStatus_def Bundled_def webui_Handler_def handlerFrom_def guard_def serveMissing_def split: if_splits)

lemma serve_result_None:
  "serve_result chat s outcome = None \<longleftrightarrow>
     (case outcome of StopRequested sp \<Rightarrow> sp_idle sp \<le> shutdownTimeout | ListenerEnded byUs \<Rightarrow> byUs)"
proof (cases outcome)
  case (StopRequested sp)
  have "0 \<le> shutdownTimeout" by (simp add: shutdownTimeout_def Second_def)
  then have "sr_shutdownOK (serve_stop sp chat s) \<longleftrightarrow> sp_idle sp \<le> shutdownTimeout"
    by (auto simp: serve_stop_def wait_for_def split: prod.splits)
  with StopRequested show ?thesis by simp
qed simp

text \<open>Building can fail in two ways only.\<close>

lemma build_fails:
  "(\<exists>err. build b e path = Inl err) \<longleftrightarrow>
     \<not> (\<exists>cfg cl. fst (Load (bt_load b) path) = Inr cfg \<and> New (bt_parse b) (BaseURL (cfg_Companion cfg)) [] = Inr cl)"
proof (cases "fst (Load (bt_load b) path)")
  case (Inr cfg)
  show ?thesis
  proof (cases "New (bt_parse b) (BaseURL (cfg_Companion cfg)) []")
    case (Inr cl)
    from chat_provider_of_ok [OF Load_validated [OF \<open>fst (Load (bt_load b) path) = Inr cfg\<close>], of b]
    show ?thesis using Inr \<open>fst (Load (bt_load b) path) = Inr cfg\<close> by (auto simp: build_def Let_def)
  qed (use Inr in \<open>simp add: build_def\<close>)
qed (simp add: build_def)

section \<open>Properties\<close>

text \<open>The run whose end is not an error.\<close>

definition clean_run :: "boot \<Rightarrow> bool \<Rightarrow> serve_outcome \<Rightarrow> string \<Rightarrow> bool" where
  "clean_run b bound outcome path \<longleftrightarrow>
     (\<exists>cfg cl. fst (Load (bt_load b) path) = Inr cfg \<and> New (bt_parse b) (BaseURL (cfg_Companion cfg)) [] = Inr cl) \<and> bound \<and>
     (case outcome of StopRequested sp \<Rightarrow> sp_idle sp \<le> shutdownTimeout | ListenerEnded byUs \<Rightarrow> byUs)"

lemma run_error: "snd (run b e embedded logger bound outcome path) = None \<longleftrightarrow> clean_run b bound outcome path"
proof (cases "build b e path")
  case (Inl err)
  with build_fails [of b e path] show ?thesis by (auto simp: run_def start_build clean_run_def)
next
  case (Inr x)
  then have "\<exists>cfg cl. fst (Load (bt_load b) path) = Inr cfg \<and> New (bt_parse b) (BaseURL (cfg_Companion cfg)) [] = Inr cl"
    using build_fails [of b e path] by auto
  then show ?thesis using Inr
    by (auto simp: run_def start_build clean_run_def Server_Run_def serve_result_None split: prod.split)
qed

text \<open>
  C35: However the process is launched, its end is reported for what it was.  Run interactively,
  or not recognised as a service, it exits with 0 exactly when the configuration loaded, the
  address of Companion is one, the listener was bound and serving ended by a stop in time; run
  as a service, the manager is told \<open>Stopped\<close> last, with a failure exactly in the other cases,
  and a relative configuration path is then the installed binary's.
\<close>

theorem process_outcome:
  "main windows detected exe before b e embedded logger bound outcome configPath =
     (if windows \<and> detected = Inr True
      then (let path = (if le_IsAbs (bt_load b) configPath then configPath
                        else case exe of None \<Rightarrow> configPath | Some x \<Rightarrow> le_PathJoin (bt_load b) (le_Dir (bt_load b) x) configPath);
                ok = clean_run b bound outcome path
            in ServiceEnd ([StartPending, Running] @
                 (if Stop \<in> set before \<or> Shutdown \<in> set before
                  then replicate (length (filter ((=) Interrogate) (takeWhile (\<lambda>c. c \<notin> {Stop, Shutdown}) before))) CurrentStatus @ [StopPending waitHint]
                  else replicate (length (filter ((=) Interrogate) before)) CurrentStatus) @ [Stopped])
               (Some (\<not> ok, if ok then 0 else 1)))
      else Exit (if clean_run b bound outcome configPath then 0 else 1))"
proof -
  have await: "await_run (map Request cs @ [RunEnded err]) = ([Stopped], Some (err \<noteq> None, if err = None then 0 else 1))" for cs err
    by (induction cs) (simp_all add: stopped_def split: option.split)
  have loop: "svc_loop (map Request cs @ [RunEnded err]) =
      ((if Stop \<in> set cs \<or> Shutdown \<in> set cs
        then replicate (length (filter ((=) Interrogate) (takeWhile (\<lambda>c. c \<notin> {Stop, Shutdown}) cs))) CurrentStatus @ [StopPending waitHint]
        else replicate (length (filter ((=) Interrogate) cs)) CurrentStatus) @ [Stopped],
       Some (err \<noteq> None, if err = None then 0 else 1))" for cs err
  proof (induction cs)
    case (Cons c cs)
    then show ?case by (cases c) (auto simp: await)
  qed (simp add: stopped_def split: option.split)
  show ?thesis
    by (auto simp: main_def runAsService_def runAsService_other_def resolveServiceConfigPath_def Execute_def loop run_error [of b e embedded logger bound outcome, symmetric] Let_def
        split: sum.split bool.split option.split)
qed

end
