(* ===== verification/Actuation.thy ===== *)
theory Actuation
  imports Handlers CompanionClient
begin

text \<open>
  A client's command all the way to the equipment: \<open>clientConn.handle\<close>, the dispatcher of
  server/internal/api/dispatch.go and, behind its interface \<open>buttonPresser\<close>, the HTTP client of
  server/internal/companion/client.go.  \<open>Dispatch\<close> leaves open what a press is; here it is the
  requests the client sends and what became of them.
\<close>

section \<open>The buttons a configuration names\<close>

definition buttons_of :: "action_table \<Rightarrow> string list" where
  "buttons_of m = map (\<lambda>e. CompanionButton (snd e)) m"

definition configured_buttons :: "presets_config \<Rightarrow> string list" where
  "configured_buttons p =
     concat (map (\<lambda>c. buttons_of (snd c)) (pc_Camera p)) @ buttons_of (pc_Scene p) @
     buttons_of (Mute (pc_Audio p)) @ buttons_of (Unmute (pc_Audio p)) @
     buttons_of (pc_Streaming p) @ buttons_of (pc_Recording p) @ buttons_of (pc_Slides p)"

definition names_button :: "presets_config \<Rightarrow> location \<Rightarrow> bool" where
  "names_button p loc \<longleftrightarrow> list_ex (\<lambda>s. ParseLocation s = Inr loc) (configured_buttons p)"

text \<open>A resolution that can only yield a button of one of the tables.\<close>

definition from_table :: "presets_config \<Rightarrow> (resolve_error, action) result \<Rightarrow> bool" where
  "from_table p r \<longleftrightarrow> (\<forall>act loc. r = Inr act \<longrightarrow> act_Button act = Some loc \<longrightarrow> names_button p loc)"

lemma resolve_button: "resolve ref = Inr act \<Longrightarrow> act_Button act = Some loc \<Longrightarrow> ParseLocation (CompanionButton ref) = Inr loc"
  by (auto simp: resolve_def split: if_splits sum.splits)

lemma resolveNamed_from:
  assumes "set (buttons_of m) \<subseteq> set (configured_buttons p)"
  shows "from_table p (resolveNamed m name)"
proof -
  have "names_button p loc" if "gm_get m name = Some ref" "resolve ref = Inr act" "act_Button act = Some loc" for ref act loc
    using map_of_SomeD [OF that(1)] resolve_button [OF that(2,3)] assms
    by (force simp: names_button_def list_ex_iff buttons_of_def)
  then show ?thesis by (auto simp: from_table_def resolveNamed_def split: option.splits)
qed

lemma resolutions_from_tables:
  "from_table p (ResolveScene p name)" "from_table p (ResolveAudioMute p name)" "from_table p (ResolveAudioUnmute p name)"
  "from_table p (ResolveStreaming p name)" "from_table p (ResolveRecording p name)" "from_table p (ResolveSlides p name)"
  unfolding resolve_defs by (rule resolveNamed_from, auto simp: configured_buttons_def)+

lemma camera_from_tables: "from_table p (ResolveCameraPreset p cam name)"
proof (cases "gm_get (pc_Camera p) cam")
  case None
  then show ?thesis by (simp add: ResolveCameraPreset_def from_table_def)
next
  case (Some names)
  then have "set (buttons_of names) \<subseteq> set (configured_buttons p)"
    by (auto simp: configured_buttons_def dest!: map_of_SomeD)
  from resolveNamed_from [OF this, of name] Some show ?thesis
    by (simp add: ResolveCameraPreset_def resolveNamed_def)
qed

text \<open>
  What a dispatch presses is a configured button, and a mutation comes only with a press.
\<close>

definition presses_configured :: "presets_config \<Rightarrow> dispatched \<Rightarrow> bool" where
  "presses_configured p d \<longleftrightarrow>
     list_all (names_button p) (fst d) \<and> (\<forall>f. snd d = Inr (Some f) \<longrightarrow> fst d \<noteq> [])"

lemma presses_none [simp]: "presses_configured p (nakErr code)" "presses_configured p ([], Inr None)"
    "presses_configured p (resolveErr e)"
  by (simp_all add: presses_configured_def nakErr_def resolveErr_def split: resolve_error.split)

lemma press_resolved_configured:
  assumes "from_table p r" "\<And>e. presses_configured p (on_err e)"
  shows "presses_configured p (press_resolved press_ok on_err r mutate)"
  using assms
  by (auto simp: press_resolved_def press_def presses_configured_def from_table_def split: sum.split option.split)

lemma Dispatch_configured: "presses_configured (cfg_Presets cfg) (Dispatch cfg press_ok c)"
  unfolding Dispatch_def dispatch_camera_def dispatch_scene_def dispatch_audio_def streamingOrRecording_def
    dispatch_slides_def Let_def
  by (auto intro!: press_resolved_configured resolutions_from_tables camera_from_tables split: option.split)

section \<open>The interface to the presser\<close>

text \<open>
  What a dispatch relies on of \<open>buttonPresser\<close>: of the requests one press sends, whatever the
  network does, at most one can have acted, and the press succeeds exactly when one certainly did.
\<close>

locale button_presser =
  fixes sends :: "'net \<Rightarrow> location \<Rightarrow> http_outcome list" and succeeds :: "'net \<Rightarrow> location \<Rightarrow> bool"
  assumes once: "length (filter may_have_acted (sends net loc)) \<le> 1"
    and performed: "succeeds net loc \<longleftrightarrow> (\<exists>out \<in> set (sends net loc). acted out)"
begin

lemma dispatch_acts:
  assumes "Presets_validate (cfg_Presets cfg) = None"
  shows "snd (Dispatch cfg (succeeds net) c) \<noteq> Inl codeInternal \<and> (case fst (Dispatch cfg (succeeds net) c) of
      [] \<Rightarrow> \<not> (\<exists>f. snd (Dispatch cfg (succeeds net) c) = Inr (Some f))
    | [loc] \<Rightarrow> location_ok loc \<and> names_button (cfg_Presets cfg) loc \<and>
        length (filter may_have_acted (sends net loc)) \<le> 1 \<and>
        (if \<exists>out \<in> set (sends net loc). acted out then \<exists>m. snd (Dispatch cfg (succeeds net) c) = Inr m
         else snd (Dispatch cfg (succeeds net) c) = Inl codeDeviceUnavailable)
    | _ \<Rightarrow> False)"
  using Dispatch_ok [OF assms, of "succeeds net" c] Dispatch_configured [of cfg "succeeds net" c]
  by (auto simp: dispatch_ok_def presses_configured_def performed once [simplified] split: list.splits)

end

text \<open>The Companion client as the presser.\<close>

definition press_sends :: "client \<Rightarrow> network \<Rightarrow> location \<Rightarrow> http_outcome list" where
  "press_sends cl net loc = fst (snd (Press cl net loc))"

definition press_succeeds :: "client \<Rightarrow> network \<Rightarrow> location \<Rightarrow> bool" where
  "press_succeeds cl net loc = (case snd (snd (Press cl net loc)) of Inl _ \<Rightarrow> False | Inr _ \<Rightarrow> True)"

interpretation companion_http: button_presser "press_sends cl" "press_succeeds cl" for cl
proof unfold_locales
  fix net loc
  note post = post_never_doubled [of cl net loc "''press''", folded Press_def]
  from post show "length (filter may_have_acted (press_sends cl net loc)) \<le> 1"
    by (simp add: press_sends_def)
  from post show "press_succeeds cl net loc \<longleftrightarrow> (\<exists>out \<in> set (press_sends cl net loc). acted out)"
    by (auto simp: press_sends_def press_succeeds_def split: sum.splits)
qed

section \<open>A stream of frames\<close>

text \<open>What serving one frame sends to Companion, with the answers it queues for the client.\<close>

type_synonym served = "(request \<times> http_outcome list \<times> (client_error, string) result) list \<times> locked list"

definition serve_frame :: "client \<Rightarrow> config \<Rightarrow> bool \<Rightarrow> network \<times> rjson option \<Rightarrow> served" where
  "serve_frame cl cfg surf =
     (\<lambda>(net, data). let (ps, secs) = handle cfg surf (press_succeeds cl net) data in (map (Press cl net) ps, secs))"

definition outcomes :: "served \<Rightarrow> http_outcome list" where
  "outcomes sv = concat (map (\<lambda>call. fst (snd call)) (fst sv))"

fun acked :: "locked list \<Rightarrow> string list" where
  "acked [] = []"
| "acked (Enqueue (AckFrame i) # r) = i # acked r"
| "acked (_ # r) = acked r"

fun naked :: "locked list \<Rightarrow> error_code list" where
  "naked [] = []"
| "naked (Enqueue (NakFrame i e m) # r) = e # naked r"
| "naked (_ # r) = naked r"

fun applied :: "locked list \<Rightarrow> nat" where
  "applied [] = 0"
| "applied (Apply f # r) = Suc (applied r)"
| "applied (_ # r) = applied r"

text \<open>A press of a button the configuration names, at the path Companion documents.\<close>

definition press_request :: "client \<Rightarrow> presets_config \<Rightarrow> request \<Rightarrow> bool" where
  "press_request cl p rq \<longleftrightarrow> rq_method rq = MethodPost \<and> rq_body rq = '''' \<and>
     (\<exists>loc. location_ok loc \<and> names_button p loc \<and>
        rq_url rq = cl_baseURL cl @ ''/api/location/'' @ location_String loc @ ''/press'')"

text \<open>
  The contract of one frame: at most one call, a press of a configured button; the ack of a
  command that pressed says the press was performed, its nak that no press is known to be;
  any other rejection, and a frame that is no command, sent nothing; state changes only after
  a press that was performed; and no rejection is an internal error.
\<close>

definition frame_acts :: "client \<Rightarrow> presets_config \<Rightarrow> rjson option \<Rightarrow> served \<Rightarrow> bool" where
  "frame_acts cl p data sv \<longleftrightarrow>
     length (fst sv) \<le> length (command_id data) \<and> (\<forall>call \<in> set (fst sv). press_request cl p (fst call)) \<and>
     length (filter may_have_acted (outcomes sv)) \<le> length (fst sv) \<and>
     (fst sv \<noteq> [] \<longrightarrow> (if \<exists>out \<in> set (outcomes sv). acted out then acked (snd sv) = command_id data \<and> naked (snd sv) = []
        else acked (snd sv) = [] \<and> naked (snd sv) = [codeDeviceUnavailable])) \<and>
     (applied (snd sv) > 0 \<longrightarrow> (\<exists>out \<in> set (outcomes sv). acted out)) \<and>
     codeInternal \<notin> set (naked (snd sv))"

lemma no_answers [simp]:
  "acked (protocol_error msg) = []" "naked (protocol_error msg) = []" "applied (protocol_error msg) = 0"
  "naked (handleSubscription surf data sub) = []" "naked (handleSurfacePress surf data) = []" "naked (handlePing data) = []"
  "applied (handleSubscription surf data sub) = 0" "applied (handleSurfacePress surf data) = 0" "applied (handlePing data) = 0"
  by (auto simp: protocol_error_def handleSubscription_def handleSurfacePress_def handlePing_def
      split: option.splits bool.splits)

lemma frame_acts_silent: "applied secs = 0 \<Longrightarrow> codeInternal \<notin> set (naked secs) \<Longrightarrow> frame_acts cl p data ([], secs)"
  by (simp add: frame_acts_def outcomes_def)

lemma Press_request:
  "location_ok loc \<Longrightarrow> names_button p loc \<Longrightarrow> press_request cl p (fst (Press cl net loc))"
  by (auto simp: press_request_def Press_def actuate_def do_request_def location_String_def)

lemma handleCmd_acts:
  assumes "Presets_validate (cfg_Presets cfg) = None" "decode_envelope data = Some ''cmd''"
    and "handleCmd cfg (press_succeeds cl net) data = (ps, secs)"
  shows "frame_acts cl (cfg_Presets cfg) data (map (Press cl net) ps, secs)"
proof (cases "command_id data")
  case Nil
  then have "ps = [] \<and> applied secs = 0 \<and> naked secs = []"
    using assms(2,3) by (auto simp: handleCmd_def command_id_def split: option.splits if_splits)
  then show ?thesis by (simp add: frame_acts_silent)
next
  case (Cons i r)
  then obtain f where f: "decode_cmd data = Some f" "cf_id f \<noteq> ''''" "cf_target f \<noteq> ''''"
    and cid: "command_id data = [cf_id f]"
    by (auto simp: command_id_def split: option.splits if_splits)
  obtain d where d: "Dispatch cfg (press_succeeds cl net) f = (ps, d)"
    and secs: "secs = (case d of Inl code \<Rightarrow> [Enqueue (NakFrame (cf_id f) code '''')]
      | Inr mutate \<Rightarrow> Enqueue (AckFrame (cf_id f)) # (case mutate of Some g \<Rightarrow> [Apply g] | None \<Rightarrow> []))"
    using assms(3) f by (auto simp: handleCmd_def split: prod.splits sum.splits)
  note acts = companion_http.dispatch_acts [OF assms(1), of cl net f, unfolded d, simplified]
  show ?thesis
  proof (cases ps)
    case Nil
    with acts secs show ?thesis by (auto intro!: frame_acts_silent split: sum.splits option.splits)
  next
    case (Cons loc qs)
    with acts have ps: "ps = [loc]" by (cases qs) simp_all
    have out: "outcomes ([Press cl net loc], ss) = press_sends cl net loc" for ss
      by (simp add: outcomes_def press_sends_def)
    from acts ps secs cid show ?thesis
      by (auto simp: frame_acts_def out Press_request split: if_splits sum.splits option.splits)
  qed
qed

lemma serve_frame_acts:
  assumes "Presets_validate (cfg_Presets cfg) = None"
  shows "frame_acts cl (cfg_Presets cfg) (snd input) (serve_frame cl cfg surf input)"
proof -
  obtain net data where input: "input = (net, data)" by (cases input)
  show ?thesis
  proof (cases "decode_envelope data = Some ''cmd''")
    case True
    with handleCmd_acts [OF assms True, of cl net] show ?thesis
      by (auto simp: input serve_frame_def handle_def split: prod.splits)
  next
    case False
    then show ?thesis
      by (auto simp: input serve_frame_def handle_def frame_acts_silent protocol_error_def split: option.splits)
  qed
qed

lemma acked_append [simp]: "acked (xs @ ys) = acked xs @ acked ys"
  by (induction xs rule: acked.induct) simp_all

lemma filter_le: "(\<And>x. P x \<Longrightarrow> Q x) \<Longrightarrow> length (filter P xs) \<le> length (filter Q xs)"
  by (induction xs) auto

lemma acted_may_have: "acted out \<Longrightarrow> may_have_acted out"
  by (simp add: acted_def may_have_acted_def split: http_outcome.splits)

text \<open>What the contract of one frame says of the numbers that add up over a stream.\<close>

lemma frame_acts_counts:
  assumes "frame_acts cl p data sv"
  shows "length (filter may_have_acted (outcomes sv)) \<le> length (command_id data)"
    and "length (filter acted (outcomes sv)) \<le> length (acked (snd sv))"
proof -
  show may: "length (filter may_have_acted (outcomes sv)) \<le> length (command_id data)"
    using assms by (simp add: frame_acts_def)
  show "length (filter acted (outcomes sv)) \<le> length (acked (snd sv))"
  proof (cases "\<exists>out \<in> set (outcomes sv). acted out")
    case True
    then have "fst sv \<noteq> []" by (auto simp: outcomes_def)
    with True assms have "acked (snd sv) = command_id data" by (simp add: frame_acts_def)
    with may filter_le [of acted may_have_acted "outcomes sv"] acted_may_have show ?thesis by auto
  next
    case False
    then have "filter acted (outcomes sv) = []" by (simp add: filter_empty_conv)
    then show ?thesis by simp
  qed
qed

lemma stream_counts:
  assumes "Presets_validate (cfg_Presets cfg) = None"
  shows "length (filter may_have_acted (concat (map (\<lambda>x. outcomes (serve_frame cl cfg surf x)) inputs)))
      \<le> length (concat (map (\<lambda>x. command_id (snd x)) inputs)) \<and>
    length (filter acted (concat (map (\<lambda>x. outcomes (serve_frame cl cfg surf x)) inputs)))
      \<le> length (acked (concat (map (\<lambda>x. snd (serve_frame cl cfg surf x)) inputs)))"
proof (induction inputs)
  case (Cons x inputs)
  from Cons.IH frame_acts_counts [OF serve_frame_acts [OF assms, of cl x surf]] show ?case
    by (simp add: add_mono)
qed simp

section \<open>Properties\<close>

text \<open>
  C9: From a client's frames to the equipment.  Under a validated configuration each frame makes
  at most one call to Companion, and only a well-formed command does: a press, at Companion's
  documented path, of a button the presets name.  However the network behaves, at most one request of
  the call can have been performed; the command is acked if one was answered as performed and
  gets one \<open>device_unavailable\<close> otherwise; the state changes only if one was; and nothing is
  rejected as an internal error.  Over the whole
  stream no more presses can have happened than commands came, and there is an ack for every press
  that certainly did.
\<close>

theorem commands_act_once:
  assumes "Config_validate parse cfg = None"
  shows "(\<forall>x \<in> set inputs. frame_acts cl (cfg_Presets cfg) (snd x) (serve_frame cl cfg surf x)) \<and>
    length (filter may_have_acted (concat (map (\<lambda>x. outcomes (serve_frame cl cfg surf x)) inputs)))
      \<le> length (concat (map (\<lambda>x. command_id (snd x)) inputs)) \<and>
    length (filter acted (concat (map (\<lambda>x. outcomes (serve_frame cl cfg surf x)) inputs)))
      \<le> length (acked (concat (map (\<lambda>x. snd (serve_frame cl cfg surf x)) inputs)))"
proof -
  have "Presets_validate (cfg_Presets cfg) = None" using Config_validated(3) [OF assms] .
  with serve_frame_acts stream_counts show ?thesis by blast
qed

text \<open>
  The same preset twice: Companion is busy once and then performs the press, the second time the
  connection breaks.
\<close>

definition preset_data :: "string \<Rightarrow> rjson option" where
  "preset_data i = Some (RObj [(''type'', RStr ''cmd''), (''id'', RStr i), (''target'', RStr ''camera''),
     (''action'', RStr ''preset''), (''value'', RStr ''wide'')])"

definition busy_then_ok :: network where
  "busy_then_ok = \<lparr>net_outcome = (\<lambda>n. if n = 0 then Response 503 None else Response 200 None),
     net_done = (\<lambda>_. False), net_slept = (\<lambda>_. True)\<rparr>"

lemma preset_served:
  "fst (serve_frame demo_client demo_config True (busy_then_ok, preset_data ''1'')) =
     [(\<lparr>rq_method = MethodPost, rq_url = ''http://c/api/location/7/0/2/press'', rq_body = '''', rq_contentType = ''''\<rparr>,
       [Response 503 None, Response 200 None], Inr '''')]"
  "fst (serve_frame demo_client demo_config True (flaky, preset_data ''2'')) =
     [(\<lparr>rq_method = MethodPost, rq_url = ''http://c/api/location/7/0/2/press'', rq_body = '''', rq_contentType = ''''\<rparr>,
       [Response 503 None, TransportError], Inl Transport)]"
  "command_id (preset_data ''1'') = [''1'']" "command_id (preset_data ''2'') = [''2'']"
  by code_simp+

lemma commands_act_once_witness:
  "let first = serve_frame demo_client demo_config True (busy_then_ok, preset_data ''1'');
       second = serve_frame demo_client demo_config True (flaky, preset_data ''2'') in
   outcomes first = [Response 503 None, Response 200 None] \<and> acked (snd first) = [''1''] \<and>
   outcomes second = [Response 503 None, TransportError] \<and> naked (snd second) = [codeDeviceUnavailable]"
proof -
  have acts: "\<forall>x \<in> set [(busy_then_ok, preset_data ''1''), (flaky, preset_data ''2'')].
      frame_acts demo_client (cfg_Presets demo_config) (snd x) (serve_frame demo_client demo_config True x)"
    using commands_act_once [OF demo_config_valid] by blast
  from acts show ?thesis
    by (simp add: frame_acts_def outcomes_def preset_served acted_def Let_def)
qed

end
