(* ===== verification/ClientSession.thy ===== *)
theory ClientSession
  imports StateTypes Handlers "HOL-Library.Monad_Syntax"
begin

text \<open>
  The Flutter client's session (client/lib/services/session.dart with app_state.dart,
  surface_state.dart and protocol.dart): how it folds the server's frames into the state and the
  surface it shows, and what it sends.  A frame is the object its JSON text decodes to; \<open>None\<close> is
  an uncaught \<open>TypeError\<close> of a cast.  Images decoded in the background are left out, a key's
  colour is the text it is parsed from, and notice texts that embed a value are left empty.
\<close>

section \<open>The version handshake\<close>

definition clientProtoVersion :: string where
  "clientProtoVersion = ''1.1''"

definition protoMajor :: "string option \<Rightarrow> int option" where
  "protoMajor proto =
     (case proto of
        None \<Rightarrow> None
      | Some p \<Rightarrow>
          if CHR ''.'' \<notin> set p then None
          else
            let major = takeWhile (\<lambda>c. c \<noteq> CHR ''.'') p in
            if major = '''' then None
            else if length major > 1 \<and> hd major = CHR ''0'' then None
            else Atoi (TrimSpace major))"

section \<open>The mirrored state\<close>

record app_state =
  ap_data :: jobj
  ap_rev :: int
  ap_baseline :: bool

definition new_app_state :: app_state where
  "new_app_state = \<lparr>ap_data = [], ap_rev = 0, ap_baseline = False\<rparr>"

definition applySnapshot :: "int \<Rightarrow> jobj \<Rightarrow> app_state" where
  "applySnapshot r topicsData = \<lparr>ap_data = topicsData, ap_rev = r, ap_baseline = True\<rparr>"

datatype delta_outcome = Applied | Stale | Gap

definition applyDelta :: "int \<Rightarrow> jobj \<Rightarrow> app_state \<Rightarrow> app_state \<times> delta_outcome" where
  "applyDelta r patch a =
     (if \<not> ap_baseline a then (a, Gap)
      else if r \<le> ap_rev a then (a, Stale)
      else if r \<noteq> ap_rev a + 1 then (a, Gap)
      else (a\<lparr>ap_data := merge_entries (ap_data a) patch, ap_rev := r\<rparr>, Applied))"

section \<open>The mirrored surface\<close>

record surface_button =
  sb_row :: int
  sb_col :: int
  sb_keyType :: string
  sb_pressed :: bool
  sb_color :: "string option"

record surface_state =
  ss_rows :: int
  ss_cols :: int
  ss_bitmapSize :: int
  ss_keys :: "(int, surface_button) gomap"
  ss_seq :: "(int, int) gomap"

definition new_surface_state :: surface_state where
  "new_surface_state = \<lparr>ss_rows = 0, ss_cols = 0, ss_bitmapSize = 0, ss_keys = [], ss_seq = []\<rparr>"

definition seq_or_zero :: "surface_state \<Rightarrow> int \<Rightarrow> int" where
  "seq_or_zero s k = (case gm_get (ss_seq s) k of Some n \<Rightarrow> n | None \<Rightarrow> 0)"

definition surface_applyLayout :: "int \<Rightarrow> int \<Rightarrow> int \<Rightarrow> int \<Rightarrow> surface_state \<Rightarrow> surface_state" where
  "surface_applyLayout rows cols bitmapSize sq s =
     (let dropped = (\<lambda>k. gm_get (ss_keys s) k \<noteq> None \<and> seq_or_zero s k \<le> sq) in
      s\<lparr>ss_rows := rows, ss_cols := cols, ss_bitmapSize := bitmapSize,
        ss_keys := filter (\<lambda>(k, _). \<not> dropped k) (ss_keys s),
        ss_seq := filter (\<lambda>(k, _). \<not> dropped k) (ss_seq s)\<rparr>)"

definition surface_applyKey :: "int \<Rightarrow> int \<Rightarrow> surface_button \<Rightarrow> surface_state \<Rightarrow> surface_state" where
  "surface_applyKey k sq b s =
     (if (case gm_get (ss_seq s) k of Some prev \<Rightarrow> sq \<le> prev | None \<Rightarrow> False) then s
      else s\<lparr>ss_seq := gm_put k sq (ss_seq s), ss_keys := gm_put k b (ss_keys s)\<rparr>)"

definition surface_reset :: "surface_state \<Rightarrow> surface_state" where
  "surface_reset s =
     (if ss_keys s = [] \<and> \<not> (ss_rows s > 0 \<and> ss_cols s > 0) then s
      else s\<lparr>ss_rows := 0, ss_cols := 0, ss_bitmapSize := 0, ss_keys := [], ss_seq := []\<rparr>)"

section \<open>The session\<close>

datatype notice_severity = NoticeInfo | NoticeWarn | NoticeError

text \<open>\<open>se_sent\<close> is what was handed to the transport.\<close>

record session =
  se_state :: app_state
  se_surface :: surface_state
  se_ready :: bool
  se_incompatible :: bool
  se_serverVersion :: "string option"
  se_serverId :: "string option"
  se_awaiting :: bool
  se_cmdSeq :: int
  se_notices :: "(notice_severity \<times> string) list"
  se_sent :: "rjson list"

definition new_session :: session where
  "new_session = \<lparr>se_state = new_app_state, se_surface = new_surface_state, se_ready = False,
     se_incompatible = False, se_serverVersion = None, se_serverId = None, se_awaiting = False,
     se_cmdSeq = 0, se_notices = [], se_sent = []\<rparr>"

definition emit :: "notice_severity \<Rightarrow> string \<Rightarrow> session \<Rightarrow> session" where
  "emit sev msg s = s\<lparr>se_notices := se_notices s @ [(sev, msg)]\<rparr>"

text \<open>The casts \<open>as String?\<close>, \<open>as bool?\<close> and \<open>(as num?)?.toInt()\<close>.\<close>

definition as_string :: "json option \<Rightarrow> string option option" where
  "as_string v = (case v of None \<Rightarrow> Some None | Some JNull \<Rightarrow> Some None | Some (JStr s) \<Rightarrow> Some (Some s) | _ \<Rightarrow> None)"

definition as_bool :: "json option \<Rightarrow> bool option option" where
  "as_bool v = (case v of None \<Rightarrow> Some None | Some JNull \<Rightarrow> Some None | Some (JBool b) \<Rightarrow> Some (Some b) | _ \<Rightarrow> None)"

definition toInt :: "rat \<Rightarrow> int" where
  "toInt q = (if 0 \<le> q then \<lfloor>q\<rfloor> else \<lceil>q\<rceil>)"

definition as_int :: "json option \<Rightarrow> int option option" where
  "as_int v = (case v of None \<Rightarrow> Some None | Some JNull \<Rightarrow> Some None | Some (JNum q) \<Rightarrow> Some (Some (toInt q)) | _ \<Rightarrow> None)"

abbreviation int_field :: "jobj \<Rightarrow> string \<Rightarrow> int option" where
  "int_field frame k \<equiv> map_option (\<lambda>n. case n of Some i \<Rightarrow> i | None \<Rightarrow> 0) (as_int (gm_get frame k))"

definition onHello :: "jobj \<Rightarrow> session \<Rightarrow> session option" where
  "onHello frame s = do {
     v \<leftarrow> as_string (gm_get frame ''server_version'');
     sid \<leftarrow> as_string (gm_get frame ''server_id'');
     proto \<leftarrow> as_string (gm_get frame ''proto'');
     let s1 = s\<lparr>se_serverVersion := v, se_serverId := sid\<rparr>;
     Some (if protoMajor proto \<noteq> protoMajor (Some clientProtoVersion)
       then emit NoticeError '''' (s1\<lparr>se_incompatible := True, se_ready := False\<rparr>)
       else s1\<lparr>se_incompatible := False, se_ready := True\<rparr>)
   }"

definition onState :: "jobj \<Rightarrow> session \<Rightarrow> session option" where
  "onState frame s = do {
     r \<leftarrow> int_field frame ''rev'';
     Some (s\<lparr>se_state := applySnapshot r (filter (\<lambda>(k, _). k \<noteq> ''type'' \<and> k \<noteq> ''rev'') frame), se_awaiting := False\<rparr>)
   }"

definition getState :: rjson where
  "getState = RObj [(''type'', RStr ''get_state'')]"

definition onDelta :: "jobj \<Rightarrow> session \<Rightarrow> session option" where
  "onDelta frame s = do {
     r \<leftarrow> int_field frame ''rev'';
     Some (case gm_get frame ''patch'' of
         Some (JObj patch) \<Rightarrow>
           if se_ready s then
             (let (a, outcome) = applyDelta r patch (se_state s);
                  s1 = s\<lparr>se_state := a\<rparr>
              in if outcome = Gap \<and> \<not> se_awaiting s
                 then s1\<lparr>se_awaiting := True, se_sent := se_sent s @ [getState]\<rparr> else s1)
           else s
       | _ \<Rightarrow> s)
   }"

definition onSurfaceLayout :: "jobj \<Rightarrow> session \<Rightarrow> session option" where
  "onSurfaceLayout frame s = do {
     rows \<leftarrow> int_field frame ''rows'';
     cols \<leftarrow> int_field frame ''cols'';
     b \<leftarrow> int_field frame ''bitmap_size'';
     sq \<leftarrow> int_field frame ''seq'';
     Some (s\<lparr>se_surface := surface_applyLayout rows cols b sq (se_surface s)\<rparr>)
   }"

definition onSurfaceKey :: "jobj \<Rightarrow> session \<Rightarrow> session option" where
  "onSurfaceKey frame s = do {
     key \<leftarrow> as_int (gm_get frame ''key'');
     (case key of
        None \<Rightarrow> Some s
      | Some k \<Rightarrow> do {
          sq \<leftarrow> int_field frame ''seq'';
          row \<leftarrow> int_field frame ''row'';
          col \<leftarrow> int_field frame ''col'';
          keyType \<leftarrow> as_string (gm_get frame ''key_type'');
          pressed \<leftarrow> as_bool (gm_get frame ''pressed'');
          color \<leftarrow> as_string (gm_get frame ''color'');
          bitmap \<leftarrow> as_string (gm_get frame ''bitmap'');
          Some (s\<lparr>se_surface := surface_applyKey k sq
            \<lparr>sb_row = row, sb_col = col, sb_keyType = (case keyType of Some t \<Rightarrow> t | None \<Rightarrow> ''BUTTON''),
             sb_pressed = (pressed = Some True), sb_color = color\<rparr> (se_surface s)\<rparr>)
        })
   }"

definition onEvent :: "jobj \<Rightarrow> session \<Rightarrow> session" where
  "onEvent frame s =
     (let sev = (if gm_get frame ''severity'' = Some (JStr ''error'') then NoticeError
                 else if gm_get frame ''severity'' = Some (JStr ''warn'') then NoticeWarn else NoticeInfo)
      in case gm_get frame ''message'' of Some (JStr msg) \<Rightarrow> emit sev msg s | _ \<Rightarrow> s)"

definition errorText :: "json option \<Rightarrow> string \<Rightarrow> string" where
  "errorText err fallback =
     (case err of
        Some (JObj e) \<Rightarrow> (case gm_get e ''message'' of Some (JStr msg) \<Rightarrow> msg | _ \<Rightarrow> fallback)
      | _ \<Rightarrow> fallback)"

definition onFrame :: "jobj \<Rightarrow> session \<Rightarrow> session option" where
  "onFrame frame s =
     (let typ = gm_get frame ''type'' in
      if typ = Some (JStr ''hello'') then onHello frame s
      else if typ = Some (JStr ''state'') then onState frame s
      else if typ = Some (JStr ''state-delta'') then onDelta frame s
      else if typ = Some (JStr ''surface-layout'') then onSurfaceLayout frame s
      else if typ = Some (JStr ''surface-key'') then onSurfaceKey frame s
      else if typ = Some (JStr ''nak'') then Some (emit NoticeError (errorText (gm_get frame ''error'') ''command rejected'') s)
      else if typ = Some (JStr ''event'') then Some (onEvent frame s)
      else if typ = Some (JStr ''error'') then Some (emit NoticeError (errorText (Some (JObj frame)) ''protocol error'') s)
      else Some s)"

text \<open>The frames of a connection, as the server encodes them.\<close>

fun receive :: "frame list \<Rightarrow> session \<Rightarrow> session option" where
  "receive [] s = Some s"
| "receive (f # fs) s = do { s' \<leftarrow> onFrame (frame_json f) s; receive fs s' }"

definition handleDisconnected :: "session \<Rightarrow> session" where
  "handleDisconnected s =
     (if \<not> se_ready s \<and> \<not> se_incompatible s then s
      else s\<lparr>se_ready := False, se_incompatible := False, se_awaiting := False,
             se_state := new_app_state, se_surface := surface_reset (se_surface s)\<rparr>)"

section \<open>What the client sends\<close>

definition cmd_json :: "string \<Rightarrow> string \<Rightarrow> string \<Rightarrow> rjson option \<Rightarrow> string option \<Rightarrow> rjson" where
  "cmd_json i target action val cam =
     RObj ([(''type'', RStr ''cmd''), (''id'', RStr i), (''target'', RStr target), (''action'', RStr action)] @
       (case val of Some v \<Rightarrow> [(''value'', v)] | None \<Rightarrow> []) @
       (case cam of Some c \<Rightarrow> [(''camera_id'', RStr c)] | None \<Rightarrow> []))"

definition sendCommand :: "bool \<Rightarrow> string \<Rightarrow> string \<Rightarrow> rjson option \<Rightarrow> string option \<Rightarrow> session \<Rightarrow> session \<times> string option" where
  "sendCommand online target action val cameraId s =
     (if \<not> se_ready s \<or> se_incompatible s then (emit NoticeWarn ''Not connected to the server yet.'' s, None)
      else
        let s1 = s\<lparr>se_cmdSeq := se_cmdSeq s + 1\<rparr>;
            i = CHR ''c'' # Itoa (se_cmdSeq s1);
            frame = cmd_json i target action val cameraId
        in if \<not> online then (emit NoticeWarn ''Command not sent'' s1, None)
           else (s1\<lparr>se_sent := se_sent s1 @ [frame]\<rparr>, Some i))"

definition sendSurfacePress :: "bool \<Rightarrow> int \<Rightarrow> bool \<Rightarrow> session \<Rightarrow> session \<times> bool" where
  "sendSurfacePress online key pressed s =
     (if \<not> se_ready s \<or> se_incompatible s \<or> \<not> online then (s, False)
      else (s\<lparr>se_sent := se_sent s @ [RObj [(''type'', RStr ''surface-press''), (''key'', RNum (Itoa key)),
        (''pressed'', RBool pressed)]]\<rparr>, True))"

section \<open>What a frame does to the session\<close>

lemma toInt_of_int [simp]: "toInt (of_int n) = n"
  by (simp add: toInt_def)

lemma as_simps [simp]:
  "as_int (Some (jint n)) = Some (Some n)" "as_int None = Some None"
  "as_string (Some (JStr x)) = Some (Some x)" "as_string None = Some None"
  "as_bool (Some (JBool b)) = Some (Some b)"
  by (simp_all add: as_int_def as_string_def as_bool_def)

definition compatible :: "string \<Rightarrow> bool" where
  "compatible p \<longleftrightarrow> protoMajor (Some p) = protoMajor (Some clientProtoVersion)"

lemma compatible_ProtoVersion [simp]: "compatible ProtoVersion"
  by code_simp

lemma onFrame_hello:
  "onFrame (frame_json (HelloFrame p v i)) s =
     Some (let s1 = s\<lparr>se_serverVersion := Some v, se_serverId := Some i\<rparr> in
       if compatible p then s1\<lparr>se_incompatible := False, se_ready := True\<rparr>
       else emit NoticeError '''' (s1\<lparr>se_incompatible := True, se_ready := False\<rparr>))"
  by (simp add: onFrame_def onHello_def compatible_def Let_def)

text \<open>A snapshot that no topic spoils: its object is what is left without type and revision.\<close>

definition topics_only :: "jobj option \<Rightarrow> bool" where
  "topics_only d \<longleftrightarrow> gm_wf (or_empty d) \<and> gm_get (or_empty d) ''type'' = None \<and> gm_get (or_empty d) ''rev'' = None"

lemma state_frame_fields:
  assumes "topics_only d"
  shows "gm_get (frame_json (StateFrame r d)) ''type'' = Some (JStr ''state'')"
    "gm_get (frame_json (StateFrame r d)) ''rev'' = Some (jint r)"
    "filter (\<lambda>(k, _). k \<noteq> ''type'' \<and> k \<noteq> ''rev'') (frame_json (StateFrame r d)) = or_empty d"
proof -
  let ?out = "[(''rev'', jint r), (''type'', JStr ''state'')]"
  have wf: "gm_wf ?out" "gm_wf (or_empty d)" using assms by (auto simp: gm_wf_Cons topics_only_def)
  note get = get_flatten [OF wf]
  show "gm_get (frame_json (StateFrame r d)) ''type'' = Some (JStr ''state'')"
    "gm_get (frame_json (StateFrame r d)) ''rev'' = Some (jint r)"
    using assms by (simp_all add: get topics_only_def)
  show "filter (\<lambda>(k, _). k \<noteq> ''type'' \<and> k \<noteq> ''rev'') (frame_json (StateFrame r d)) = or_empty d"
    using assms wf flatten_wf [OF wf(1)]
    by (intro gm_eqI) (auto simp: gm_get_filter get topics_only_def split: option.splits)
qed

lemma onFrame_state:
  assumes "topics_only d"
  shows "onFrame (frame_json (StateFrame r d)) s =
    Some (s\<lparr>se_state := applySnapshot r (or_empty d), se_awaiting := False\<rparr>)"
  unfolding onFrame_def onState_def Let_def
  using state_frame_fields [OF assms, of r] by (simp del: frame_json.simps)

lemma onFrame_delta:
  "onFrame (frame_json (StateDeltaFrame r p)) s = onDelta (frame_json (StateDeltaFrame r p)) s"
  by (simp add: onFrame_def)

definition button_of :: "surface_key_frame \<Rightarrow> surface_button" where
  "button_of f = \<lparr>sb_row = skf_row f, sb_col = skf_col f, sb_keyType = skf_key_type f, sb_pressed = skf_pressed f,
     sb_color = (if skf_color f = '''' then None else Some (skf_color f))\<rparr>"

lemma onFrame_key:
  "onFrame (frame_json (SurfaceKeyFrame f)) s =
     Some (s\<lparr>se_surface := surface_applyKey (skf_key f) (skf_seq f) (button_of f) (se_surface s)\<rparr>)"
  by (simp add: onFrame_def onSurfaceKey_def button_of_def)

lemma onFrame_layout:
  "onFrame (frame_json (SurfaceLayoutFrame f)) s =
     Some (s\<lparr>se_surface := surface_applyLayout (slf_rows f) (slf_cols f) (slf_bitmap_size f) (slf_seq f) (se_surface s)\<rparr>)"
  by (simp add: onFrame_def onSurfaceLayout_def)

text \<open>Frames that only raise a notice, or nothing.\<close>

lemma onFrame_notices:
  "onFrame (frame_json (AckFrame i)) s = Some s" "onFrame (frame_json (PongFrame i)) s = Some s"
  "onFrame (frame_json (NakFrame i c msg)) s = Some (emit NoticeError msg s)"
  "onFrame (frame_json (ErrorFrame c msg)) s = Some (emit NoticeError msg s)"
  "onFrame (frame_json (EventFrame sev src msg)) s =
     Some (emit (if sev = ''error'' then NoticeError else if sev = ''warn'' then NoticeWarn else NoticeInfo) msg s)"
  by (simp_all add: onFrame_def onEvent_def errorText_def)

lemma control_not_stream:
  assumes "control_frame f"
  shows "f \<noteq> StateFrame r d" "f \<noteq> StateDeltaFrame r p" "f \<noteq> SurfaceKeyFrame k" "f \<noteq> SurfaceLayoutFrame l"
proof -
  have v: "see_state v f = v" and d: "frame_dec f = None" for v using assms by (auto simp: control_frame_def)
  show "f \<noteq> StateFrame r d" using v [of JNull] by auto
  show "f \<noteq> StateDeltaFrame r p" using v [of JNull] by (auto simp: applyMergePatch.simps)
  show "f \<noteq> SurfaceKeyFrame k" "f \<noteq> SurfaceLayoutFrame l" using d by auto
qed

section \<open>Following the state stream\<close>

text \<open>
  What matters of a stream for the session's state: whether the handshake succeeded, the
  revision it stands at, and whether a delta was not taken since the last snapshot.
\<close>

record track =
  tr_ready :: bool
  tr_rev :: "int option"
  tr_lost :: bool

fun see_track :: "track \<Rightarrow> frame \<Rightarrow> track" where
  "see_track t (HelloFrame p v i) = t\<lparr>tr_ready := compatible p\<rparr>"
| "see_track t (StateFrame r d) = t\<lparr>tr_rev := Some r, tr_lost := False\<rparr>"
| "see_track t (StateDeltaFrame r p) =
     (if tr_ready t \<and> tr_rev t = Some (r - 1) \<and> p \<noteq> None then t\<lparr>tr_rev := Some r\<rparr> else t\<lparr>tr_lost := True\<rparr>)"
| "see_track t _ = t"

definition track_of :: "frame list \<Rightarrow> track" where
  "track_of fs = foldl see_track \<lparr>tr_ready = False, tr_rev = None, tr_lost = False\<rparr> fs"

fun frame_fine :: "frame \<Rightarrow> bool" where
  "frame_fine (StateFrame r d) = topics_only d"
| "frame_fine _ = True"

text \<open>The session against the track and the merged object.\<close>

definition follows :: "track \<Rightarrow> json \<Rightarrow> session \<Rightarrow> bool" where
  "follows t v s \<longleftrightarrow> se_ready s = tr_ready t \<and> (tr_ready t \<longrightarrow> \<not> se_incompatible s) \<and>
     (\<forall>r. tr_rev t = Some r \<longrightarrow> \<not> tr_lost t \<longrightarrow>
        ap_baseline (se_state s) \<and> ap_rev (se_state s) = r \<and> JObj (ap_data (se_state s)) = v \<and> \<not> se_awaiting s)"

lemma follows_start: "follows (track_of []) v new_session"
  by (simp add: follows_def track_of_def new_session_def)

lemma follows_delta:
  assumes "follows t v s"
  obtains s' where "onFrame (frame_json (StateDeltaFrame r p)) s = Some s'" "se_surface s' = se_surface s"
    "follows (see_track t (StateDeltaFrame r p)) (see_state v (StateDeltaFrame r p)) s'"
proof (cases "se_ready s \<and> tr_rev t = Some (r - 1) \<and> \<not> tr_lost t \<and> p \<noteq> None")
  case True
  then obtain q where q: "p = Some q" by blast
  from True assms have st: "ap_baseline (se_state s)" "ap_rev (se_state s) = r - 1"
      "v = JObj (ap_data (se_state s))" "\<not> se_awaiting s" "tr_ready t" "\<not> se_incompatible s"
    by (auto simp: follows_def)
  let ?s = "s\<lparr>se_state := (se_state s)\<lparr>ap_data := merge_entries (ap_data (se_state s)) q, ap_rev := r\<rparr>\<rparr>"
  have "onFrame (frame_json (StateDeltaFrame r p)) s = Some ?s"
    unfolding onFrame_delta using True st by (simp add: onDelta_def q applyDelta_def)
  moreover have "follows (see_track t (StateDeltaFrame r p)) (see_state v (StateDeltaFrame r p)) ?s"
    using True st by (simp add: follows_def q applyMergePatch.simps)
  ultimately show thesis using that [of ?s] by simp
next
  case False
  let ?f = "frame_json (StateDeltaFrame r p)"
  have off: "\<forall>r'. tr_rev (see_track t (StateDeltaFrame r p)) = Some r' \<longrightarrow> tr_lost (see_track t (StateDeltaFrame r p))"
    using False assms by (auto simp: follows_def)
  obtain s' where s': "onDelta ?f s = Some s'" "se_ready s' = se_ready s" "se_incompatible s' = se_incompatible s"
      "se_surface s' = se_surface s"
    by (cases p; cases "applyDelta r (or_empty p) (se_state s)") (auto simp: onDelta_def Let_def)
  have "follows (see_track t (StateDeltaFrame r p)) (see_state v (StateDeltaFrame r p)) s'"
    using off assms s' by (auto simp: follows_def)
  with s' that show thesis by (simp add: onFrame_delta del: frame_json.simps)
qed

text \<open>The session's surface against the abstract view of a surface stream.\<close>

primrec button_of_frame :: "frame \<Rightarrow> surface_button option" where
  "button_of_frame (SurfaceKeyFrame f) = Some (button_of f)"
| "button_of_frame (SurfaceLayoutFrame f) = None"
| "button_of_frame (HelloFrame p v i) = None"
| "button_of_frame (StateFrame r d) = None"
| "button_of_frame (StateDeltaFrame r p) = None"
| "button_of_frame (AckFrame i) = None"
| "button_of_frame (NakFrame i c m) = None"
| "button_of_frame (PongFrame i) = None"
| "button_of_frame (ErrorFrame c m) = None"
| "button_of_frame (EventFrame a b c) = None"

definition key_mirrored :: "frame surface_view \<Rightarrow> surface_state \<Rightarrow> int \<Rightarrow> bool" where
  "key_mirrored v s k \<longleftrightarrow>
     (case sv_keys v k of
        None \<Rightarrow> gm_get (ss_keys s) k = None \<and> gm_get (ss_seq s) k = None
      | Some (n, d) \<Rightarrow> gm_get (ss_seq s) k = Some n \<and>
          (\<exists>b. button_of_frame d = Some b \<and> gm_get (ss_keys s) k = Some b))"

definition mirrors :: "frame surface_view \<Rightarrow> surface_state \<Rightarrow> bool" where
  "mirrors v s \<longleftrightarrow> gm_wf (ss_keys s) \<and> gm_wf (ss_seq s) \<and> (\<forall>k. key_mirrored v s k) \<and>
     (\<forall>f. sv_layout v = Some (SurfaceLayoutFrame f) \<longrightarrow>
        ss_rows s = slf_rows f \<and> ss_cols s = slf_cols f \<and> ss_bitmapSize s = slf_bitmap_size f)"

lemma mirrors_start: "mirrors empty_view new_surface_state"
  by (simp add: mirrors_def key_mirrored_def empty_view_def new_surface_state_def)

lemma mirrors_key:
  assumes "mirrors v s"
  shows "mirrors (applyKey k sq (SurfaceKeyFrame f) v) (surface_applyKey k sq (button_of f) s)"
proof -
  have wf: "gm_wf (ss_keys s)" "gm_wf (ss_seq s)" and keys: "key_mirrored v s j" for j
    using assms by (auto simp: mirrors_def)
  have "key_mirrored (applyKey k sq (SurfaceKeyFrame f) v) (surface_applyKey k sq (button_of f) s) j" for j
    using keys [of j] keys [of k] wf
    by (auto simp: key_mirrored_def applyKey_def surface_applyKey_def gm_get_put split: option.splits)
  moreover have "sv_layout (applyKey k sq (SurfaceKeyFrame f) v) = sv_layout v"
    by (simp add: applyKey_def split: option.split)
  ultimately show ?thesis
    using assms wf by (auto simp: mirrors_def surface_applyKey_def)
qed

lemma mirrors_layout:
  assumes "mirrors v s"
  shows "mirrors (applyLayout (slf_seq f) (SurfaceLayoutFrame f) v)
    (surface_applyLayout (slf_rows f) (slf_cols f) (slf_bitmap_size f) (slf_seq f) s)"
proof -
  have wf: "gm_wf (ss_keys s)" "gm_wf (ss_seq s)" and keys: "key_mirrored v s j" for j
    using assms by (auto simp: mirrors_def)
  have "key_mirrored (applyLayout (slf_seq f) (SurfaceLayoutFrame f) v)
      (surface_applyLayout (slf_rows f) (slf_cols f) (slf_bitmap_size f) (slf_seq f) s) j" for j
  proof (cases "sv_keys v j")
    case None
    with keys [of j] wf show ?thesis
      by (simp add: key_mirrored_def applyLayout_def surface_applyLayout_def gm_get_filter Let_def)
  next
    case (Some e)
    obtain n d where "e = (n, d)" by (cases e)
    with Some keys [of j] wf show ?thesis
      by (auto simp: key_mirrored_def applyLayout_def surface_applyLayout_def seq_or_zero_def gm_get_filter Let_def)
  qed
  then show ?thesis using wf by (simp add: mirrors_def applyLayout_def surface_applyLayout_def Let_def)
qed

section \<open>One frame, and a stream\<close>

definition view_after :: "frame surface_view \<Rightarrow> frame \<Rightarrow> frame surface_view" where
  "view_after v f = (case frame_dec f of Some g \<Rightarrow> apply_frame v g | None \<Rightarrow> v)"

lemma receive_frame:
  assumes "follows t v s" "mirrors sv (se_surface s)" "frame_fine f"
  shows "\<exists>s'. onFrame (frame_json f) s = Some s' \<and> follows (see_track t f) (see_state v f) s' \<and>
    mirrors (view_after sv f) (se_surface s')"
proof (cases f)
  case (StateDeltaFrame r p)
  obtain s' where "onFrame (frame_json (StateDeltaFrame r p)) s = Some s'" "se_surface s' = se_surface s"
    "follows (see_track t (StateDeltaFrame r p)) (see_state v (StateDeltaFrame r p)) s'"
    by (rule follows_delta [OF assms(1)])
  moreover have "view_after sv f = sv" by (simp add: view_after_def StateDeltaFrame)
  ultimately show ?thesis using assms(2) StateDeltaFrame by (intro exI [of _ s']) simp
next
  case (StateFrame r d)
  with assms(3) have d: "topics_only d" by simp
  from assms(1,2) show ?thesis
    unfolding StateFrame onFrame_state [OF d] by (simp add: follows_def applySnapshot_def view_after_def)
next
  case (HelloFrame p v i)
  from assms(1,2) show ?thesis
    unfolding HelloFrame onFrame_hello by (simp add: follows_def emit_def view_after_def Let_def)
next
  case (SurfaceLayoutFrame l)
  from assms(1) mirrors_layout [OF assms(2), of l] show ?thesis
    unfolding SurfaceLayoutFrame onFrame_layout by (simp add: follows_def view_after_def)
next
  case (SurfaceKeyFrame k)
  from assms(1) mirrors_key [OF assms(2), of "skf_key k" "skf_seq k" k] show ?thesis
    unfolding SurfaceKeyFrame onFrame_key by (simp add: follows_def view_after_def)
next
  case (AckFrame i)
  from assms(1,2) show ?thesis unfolding AckFrame onFrame_notices by (simp add: follows_def view_after_def)
next
  case (NakFrame i c msg)
  from assms(1,2) show ?thesis unfolding NakFrame onFrame_notices by (simp add: follows_def emit_def view_after_def)
next
  case (PongFrame i)
  from assms(1,2) show ?thesis unfolding PongFrame onFrame_notices by (simp add: follows_def view_after_def)
next
  case (ErrorFrame c msg)
  from assms(1,2) show ?thesis unfolding ErrorFrame onFrame_notices by (simp add: follows_def emit_def view_after_def)
next
  case (EventFrame sev src msg)
  from assms(1,2) show ?thesis unfolding EventFrame onFrame_notices by (simp add: follows_def emit_def view_after_def)
qed

lemma receive_stream:
  assumes "follows t v s" "mirrors sv (se_surface s)" "list_all frame_fine fs"
  shows "\<exists>s'. receive fs s = Some s' \<and> follows (foldl see_track t fs) (foldl see_state v fs) s' \<and>
    mirrors (foldl view_after sv fs) (se_surface s')"
  using assms
proof (induction fs arbitrary: t v sv s)
  case (Cons f fs)
  then obtain s1 where s1: "onFrame (frame_json f) s = Some s1" "follows (see_track t f) (see_state v f) s1"
      "mirrors (view_after sv f) (se_surface s1)"
    using receive_frame [of t v s sv f] by auto
  from Cons.IH [OF s1(2,3)] Cons.prems(3) s1(1) show ?case by (simp del: frame_json.simps)
qed simp

lemma receive_all:
  assumes "list_all frame_fine fs"
  shows "\<exists>s'. receive fs new_session = Some s' \<and> follows (track_of fs) (state_view fs) s' \<and>
    mirrors (foldl view_after empty_view fs) (se_surface s')"
proof -
  have "mirrors empty_view (se_surface new_session)" using mirrors_start by (simp add: new_session_def)
  from receive_stream [OF follows_start this assms] show ?thesis
    by (simp add: track_of_def state_view_def)
qed

section \<open>What the server makes of the client's frames\<close>

lemma own_names [simp]:
  "fold_name ''type'' = ''type''" "fold_name ''id'' = ''id''" "fold_name ''target'' = ''target''"
  "fold_name ''action'' = ''action''" "fold_name ''value'' = ''value''" "fold_name ''camera_id'' = ''camera_id''"
  "fold_name ''key'' = ''key''" "fold_name ''pressed'' = ''pressed''"
  by code_simp+

declare fold_name.simps [simp del]

lemma cmd_json_decodes:
  "decode_envelope (Some (cmd_json i target action val cam)) = Some ''cmd''"
  "decode_cmd (Some (cmd_json i target action val cam)) =
     Some \<lparr>cf_id = i, cf_target = target, cf_action = action, cf_value = val,
       cf_camera_id = (case cam of Some c \<Rightarrow> c | None \<Rightarrow> '''')\<rparr>"
  by (cases val; cases cam; simp add: cmd_json_def decode_envelope_def decode_cmd_def unmarshal_def
      into_string_def skip_type_def Let_def)+

lemma press_json_decodes:
  assumes "in_int64 key"
  shows "handle cfg surf press_ok (Some (RObj [(''type'', RStr ''surface-press''), (''key'', RNum (Itoa key)), (''pressed'', RBool pressed)])) =
    ([], if surf then [SurfacePress key pressed] else [Enqueue (EventFrame ''warn'' ''surface'' ''no Companion surface configured'')])"
  using assms
  by (simp add: handle_def handleSurfacePress_def decode_envelope_def decode_surface_press_def unmarshal_def
      into_string_def into_int_ptr_def into_bool_ptr_def skip_type_def Atoi_Itoa Let_def)

lemma getState_handled: "handle cfg surf press_ok (Some getState) = ([], [TakeSnapshot False])"
  by (simp add: handle_def getState_def decode_envelope_def unmarshal_def into_string_def Let_def)

text \<open>A run of commands over an open connection: the ids they were given.\<close>

type_synonym command = "string \<times> string \<times> rjson option \<times> string option"

fun send_commands :: "command list \<Rightarrow> session \<Rightarrow> session \<times> string list" where
  "send_commands [] s = (s, [])"
| "send_commands ((target, action, val, cam) # cs) s =
     (let (s1, r) = sendCommand True target action val cam s; (s2, ids) = send_commands cs s1
      in (s2, (case r of Some i \<Rightarrow> [i] | None \<Rightarrow> []) @ ids))"

definition command_ids :: "int \<Rightarrow> nat \<Rightarrow> string list" where
  "command_ids n k = map (\<lambda>j. CHR ''c'' # Itoa (n + 1 + int j)) [0..<k]"

lemma command_ids_Suc: "command_ids n (Suc k) = (CHR ''c'' # Itoa (n + 1)) # command_ids (n + 1) k"
  by (simp add: command_ids_def map_upt_Suc add.assoc del: upt.simps)

lemma Itoa_inject: "0 \<le> a \<Longrightarrow> 0 \<le> b \<Longrightarrow> Itoa a = Itoa b \<longleftrightarrow> a = b"
proof -
  assume pos: "0 \<le> a" "0 \<le> b"
  have "nat a = nat b" if "nat_string (nat a) = nat_string (nat b)"
    using parse_nat_string [of "nat a"] parse_nat_string [of "nat b"] unfolding that
    by (simp only: option.inject)
  with pos show ?thesis by (simp add: Itoa_def eq_nat_nat_iff) (metis eq_nat_nat_iff)
qed

lemma command_ids_distinct: "0 \<le> n \<Longrightarrow> distinct (command_ids n k)"
proof -
  assume "0 \<le> n"
  then have "inj_on (\<lambda>j. CHR ''c'' # Itoa (n + 1 + int j)) {0..<k}"
    by (intro inj_onI) (simp add: Itoa_inject)
  then show ?thesis by (simp add: command_ids_def distinct_map del: upt.simps)
qed

lemma send_commands_sends:
  assumes "se_ready s" "\<not> se_incompatible s"
  shows "snd (send_commands cs s) = command_ids (se_cmdSeq s) (length cs) \<and>
    se_sent (fst (send_commands cs s)) = se_sent s @
      map (\<lambda>(i, target, action, val, cam). cmd_json i target action val cam) (zip (command_ids (se_cmdSeq s) (length cs)) cs)"
  using assms
proof (induction cs arbitrary: s)
  case (Cons c cs)
  obtain target action val cam where c: "c = (target, action, val, cam)" by (cases c)
  let ?i = "CHR ''c'' # Itoa (se_cmdSeq s + 1)"
  let ?s = "s\<lparr>se_cmdSeq := se_cmdSeq s + 1, se_sent := se_sent s @ [cmd_json ?i target action val cam]\<rparr>"
  have "sendCommand True target action val cam s = (?s, Some ?i)"
    using Cons.prems by (simp add: sendCommand_def Let_def)
  with Cons.IH [of ?s] Cons.prems show ?case
    by (auto simp: c command_ids_Suc split: prod.splits)
qed (simp add: command_ids_def)

section \<open>Property\<close>

text \<open>
  C10: What the client's session sends is what the server reads.  The commands sent on a ready
  session get distinct ids; the server decodes each as the command meant, with its id, target,
  action, value and camera, and answers exactly these ids, in order; a key press reaches the
  handler with its key and state, and a resync request is answered with a snapshot.
\<close>

theorem commands_reach_server:
  assumes "se_ready s" "\<not> se_incompatible s" "0 \<le> se_cmdSeq s" "\<forall>(target, _) \<in> set cs. target \<noteq> ''''"
    and "sent = drop (length (se_sent s)) (se_sent (fst (send_commands cs s)))" "ids = snd (send_commands cs s)"
  shows "distinct ids \<and> length ids = length cs \<and>
    map (\<lambda>f. decode_cmd (Some f)) sent = map (\<lambda>(i, target, action, val, cam).
      Some \<lparr>cf_id = i, cf_target = target, cf_action = action, cf_value = val,
        cf_camera_id = (case cam of Some c \<Rightarrow> c | None \<Rightarrow> '''')\<rparr>) (zip ids cs) \<and>
    answered (handled cfg surf (map (\<lambda>f. (press_ok, Some f)) sent)) = ids \<and>
    (\<forall>key pressed s'. in_int64 key \<longrightarrow> sendSurfacePress True key pressed s = (s', True) \<longrightarrow>
       handle cfg True press_ok (Some (last (se_sent s'))) = ([], [SurfacePress key pressed])) \<and>
    handle cfg surf press_ok (Some getState) = ([], [TakeSnapshot False])"
proof -
  let ?ids = "command_ids (se_cmdSeq s) (length cs)"
  let ?json = "\<lambda>(i, target, action, val, cam). cmd_json i target action val cam"
  note sends = send_commands_sends [OF assms(1,2), of cs]
  have ids: "ids = ?ids" and sent: "sent = map ?json (zip ids cs)" using sends assms(5,6) by simp_all
  have len: "length ids = length cs" by (simp add: ids command_ids_def)
  have "map (\<lambda>f. decode_cmd (Some f)) sent = map (\<lambda>(i, target, action, val, cam).
      Some \<lparr>cf_id = i, cf_target = target, cf_action = action, cf_value = val,
        cf_camera_id = (case cam of Some c \<Rightarrow> c | None \<Rightarrow> '''')\<rparr>) (zip ids cs)"
    by (auto simp: sent cmd_json_decodes)
  moreover have "answered (handled cfg surf (map (\<lambda>f. (press_ok, Some f)) (map ?json (zip xs ds)))) = xs"
    if "length xs = length ds" "\<forall>i \<in> set xs. i \<noteq> ''''" "\<forall>(target, _) \<in> set ds. target \<noteq> ''''" for xs ds
    using that
    by (induction xs ds rule: list_induct2) (auto simp: answered_handle command_id_def cmd_json_decodes)
  from this [OF len] have "answered (handled cfg surf (map (\<lambda>f. (press_ok, Some f)) sent)) = ids"
    using assms(4) unfolding sent by (auto simp: ids command_ids_def)
  moreover have "handle cfg True press_ok (Some (last (se_sent s'))) = ([], [SurfacePress key pressed])"
    if "in_int64 key" "sendSurfacePress True key pressed s = (s', True)" for key pressed s'
    using that assms(1,2) press_json_decodes [OF that(1), of cfg True] by (auto simp: sendSurfacePress_def)
  ultimately show ?thesis
    using command_ids_distinct [OF assms(3)] len getState_handled by (simp add: ids)
qed

lemma commands_reach_server_witness:
  "let s = new_session\<lparr>se_ready := True\<rparr>; cs = [(''camera'', ''preset'', Some (RStr ''wide''), None), (''slides'', ''next'', None, Some ''x'')];
       sent = se_sent (fst (send_commands cs s)) in
   snd (send_commands cs s) = [''c1'', ''c2''] \<and>
   answered (handled demo_config True (map (\<lambda>f. (\<lambda>_. True, Some f)) sent)) = [''c1'', ''c2'']"
proof -
  let ?s = "new_session\<lparr>se_ready := True\<rparr>"
  let ?cs = "[(''camera'', ''preset'', Some (RStr ''wide''), None), (''slides'', ''next'', None, Some ''x'')]"
  have s: "se_ready ?s" "\<not> se_incompatible ?s" "0 \<le> se_cmdSeq ?s" "se_sent ?s = []" by (simp_all add: new_session_def)
  have ids: "snd (send_commands ?cs ?s) = [''c1'', ''c2'']" by code_simp
  have "\<forall>(target, _) \<in> set ?cs. target \<noteq> ''''" by simp
  from commands_reach_server [OF s(1-3) this refl refl, of demo_config True "\<lambda>_. True"] ids s(4) show ?thesis
    by (simp add: Let_def)
qed

end
