(* ===== verification/ClientMirror.thy ===== *)
theory ClientMirror
  imports ClientSession
begin

text \<open>
  The server and the client's session together: that the revisions of a subscriber to every topic
  leave no gap, so that the session of \<open>ClientSession\<close>, which checks them, ends up with exactly
  the server's state and surface and never asks for a snapshot.
\<close>

section \<open>Tracks of extended streams\<close>

lemma track_append: "track_of (xs @ ys) = foldl see_track (track_of xs) ys"
  by (simp add: track_of_def)

lemma track_control:
  assumes "list_all control_frame fs"
  shows "list_all frame_fine fs \<and> (tr_ready t \<longrightarrow> tr_ready (foldl see_track t fs)) \<and>
    tr_rev (foldl see_track t fs) = tr_rev t \<and> tr_lost (foldl see_track t fs) = tr_lost t"
  using assms
proof (induction fs arbitrary: t)
  case (Cons f fs)
  then have f: "control_frame f" by simp
  have "frame_fine f \<and> (tr_ready t \<longrightarrow> tr_ready (see_track t f)) \<and> tr_rev (see_track t f) = tr_rev t \<and>
      tr_lost (see_track t f) = tr_lost t"
    using control_not_stream [OF f] f by (cases f) (auto simp: control_frame_def)
  with Cons.IH [of "see_track t f"] Cons.prems show ?case by auto
qed simp

lemma track_surface: "frame_dec f = Some g \<Longrightarrow> see_track t f = t \<and> frame_fine f"
  by (cases f) auto

text \<open>Every topic at once: the subscription of a client that never changes it.\<close>

definition all_topics :: "conn \<Rightarrow> bool" where
  "all_topics c \<longleftrightarrow> list_all (cn_topics c) Topics"

lemma snapshot_topics_only: "store_ok st \<Longrightarrow> topics_only (FilterTopics (so_cur st) topics)"
proof -
  assume "store_ok st"
  then have wf: "gm_wf (so_cur st)" and keys: "set (gm_keys (so_cur st)) \<subseteq> set Topics" by (auto simp: store_ok_def)
  have "or_empty (FilterTopics (so_cur st) topics) = filter (\<lambda>(k, v). topics k) (so_cur st)"
    by (simp add: FilterTopics_def Let_def)
  moreover have "gm_get (so_cur st) ''type'' = None" "gm_get (so_cur st) ''rev'' = None"
    using keys by (auto simp: gm_get_None_iff Topics_def simp del: set_map)
  ultimately show ?thesis using wf by (simp add: topics_only_def gm_get_filter)
qed

lemma patch_scoped:
  assumes "store_ok a" "store_ok b" "diff (so_cur a) (so_cur b) = Some patch" "all_topics c"
  shows "scopePatch patch c \<noteq> None"
proof -
  have or: "or_empty (diff (so_cur a) (so_cur b)) = patch" using assms(3) by simp
  have "patch \<noteq> []" using assms(3) diff_eq_None [of "so_cur a" "so_cur b"] or by auto
  then obtain k v r where p: "patch = (k, v) # r" by (cases patch) auto
  have "gm_wf (so_cur b)" using assms(2) by (simp add: store_ok_def)
  from get_diff [OF this, of "so_cur a" k] have "gm_get (so_cur a) k \<noteq> None \<or> gm_get (so_cur b) k \<noteq> None"
    unfolding or p by (auto split: option.splits if_splits)
  then have "k \<in> set Topics" using assms(1,2) by (auto simp: store_ok_def gm_get_None_iff simp del: set_map)
  then have "cn_topics c k" using assms(4) by (simp add: all_topics_def list_all_iff)
  then show ?thesis by (simp add: scopePatch_def FilterTopics_def p Let_def)
qed

section \<open>The revisions a client sees\<close>

text \<open>A goroutine whose next section sends the hello.\<close>

definition due :: "locked list \<Rightarrow> bool" where
  "due secs \<longleftrightarrow> (\<exists>v i rest. secs = Enqueue (HelloFrame ProtoVersion v i) # rest)"

definition conn_stream :: "server \<Rightarrow> (nat \<Rightarrow> frame list) \<Rightarrow> nat \<Rightarrow> frame list" where
  "conn_stream s got i = got i @ sq_state (cn_send (hub_conns (sv_hub s) i))"

definition greeted :: "server \<Rightarrow> (nat \<Rightarrow> frame list) \<Rightarrow> nat \<Rightarrow> bool" where
  "greeted s got i \<longleftrightarrow> (\<not> cn_closing (hub_conns (sv_hub s) i) \<longrightarrow> tr_ready (track_of (conn_stream s got i)))"

definition conn_tracked :: "server \<Rightarrow> (nat \<Rightarrow> frame list) \<Rightarrow> nat \<Rightarrow> bool" where
  "conn_tracked s got i \<longleftrightarrow>
     (let c = hub_conns (sv_hub s) i; t = track_of (conn_stream s got i) in
      \<not> cn_closing c \<longrightarrow> list_all frame_fine (conn_stream s got i) \<and>
        (i \<in> hub_clients (sv_hub s) \<longrightarrow> tr_ready t \<and>
           (all_topics c \<longrightarrow> tr_rev t = Some (so_rev (sv_store s)) \<and> \<not> tr_lost t)))"

definition rev_inv :: "server \<Rightarrow> (nat \<Rightarrow> frame list) \<Rightarrow> (nat \<Rightarrow> locked list) \<Rightarrow> (nat \<Rightarrow> cphase) \<Rightarrow> bool" where
  "rev_inv s got todo phase \<longleftrightarrow>
     (\<forall>i. conn_tracked s got i \<and> (phase i = Absent \<longrightarrow> todo i = []) \<and>
        (phase i \<noteq> Absent \<longrightarrow> due (todo i) \<or> greeted s got i))"

lemma due_simps [simp]: "\<not> due []" "due (sec # rest) \<longleftrightarrow> (\<exists>v i. sec = Enqueue (HelloFrame ProtoVersion v i))"
  by (auto simp: due_def)

lemma harmless_tracked:
  assumes "harmless (hub_conns (sv_hub s) i) (hub_conns (sv_hub s') i)"
    and "so_rev (sv_store s') = so_rev (sv_store s)" "hub_clients (sv_hub s') = hub_clients (sv_hub s)"
  shows "conn_tracked s got i \<Longrightarrow> conn_tracked s' got i" "greeted s got i \<Longrightarrow> greeted s' got i"
proof -
  let ?c = "hub_conns (sv_hub s) i" and ?c' = "hub_conns (sv_hub s') i"
  have ext: "cn_closing ?c' \<or> (\<not> cn_closing ?c \<and> (\<exists>fs. list_all control_frame fs \<and> conn_stream s' got i = conn_stream s got i @ fs))"
    using assms(1) by (auto simp: harmless_def conn_stream_def)
  have topics: "all_topics ?c' = all_topics ?c" using assms(1) by (simp add: harmless_def all_topics_def)
  show "conn_tracked s' got i" if "conn_tracked s got i"
    using ext
  proof (elim disjE conjE exE)
    fix fs assume fs: "\<not> cn_closing ?c" "list_all control_frame fs" "conn_stream s' got i = conn_stream s got i @ fs"
    from track_control [OF fs(2), of "track_of (conn_stream s got i)"] that fs(1) show ?thesis
      by (auto simp: conn_tracked_def Let_def fs(3) track_append topics assms(2,3))
  qed (simp add: conn_tracked_def)
  show "greeted s' got i" if "greeted s got i"
    using ext
  proof (elim disjE conjE exE)
    fix fs assume fs: "\<not> cn_closing ?c" "list_all control_frame fs" "conn_stream s' got i = conn_stream s got i @ fs"
    from track_control [OF fs(2), of "track_of (conn_stream s got i)"] that fs(1) show ?thesis
      by (simp add: greeted_def fs(3) track_append)
  qed (simp add: greeted_def)
qed

lemma rev_inv_harmless:
  assumes "rev_inv s got todo phase" "harmless_server s s'"
    and "\<And>i. phase i = Absent \<Longrightarrow> todo' i = []"
    and "\<And>i. phase i \<noteq> Absent \<Longrightarrow> due (todo i) \<Longrightarrow> due (todo' i) \<or> greeted s' got i"
  shows "rev_inv s' got todo' phase"
proof -
  have h: "harmless (hub_conns (sv_hub s) i) (hub_conns (sv_hub s') i)" "so_rev (sv_store s') = so_rev (sv_store s)"
    "hub_clients (sv_hub s') = hub_clients (sv_hub s)" for i
    using assms(2) by (auto simp: harmless_server_def)
  from assms(1,3,4) harmless_tracked [OF h] show ?thesis
    unfolding rev_inv_def by blast
qed

section \<open>Every section keeps the revisions\<close>

lemma broadcastDelta_stream:
  assumes "i \<in> hub_clients h" "sq_ok (cn_send (hub_conns h i))" "\<not> cn_closing (hub_conns (broadcastDelta r patch h) i)"
  shows "\<not> cn_closing (hub_conns h i) \<and> cn_topics (hub_conns (broadcastDelta r patch h) i) = cn_topics (hub_conns h i) \<and>
    sq_state (cn_send (hub_conns (broadcastDelta r patch h) i)) = sq_state (cn_send (hub_conns h i)) @
      (case scopePatch patch (hub_conns h i) of None \<Rightarrow> [] | Some p \<Rightarrow> [StateDeltaFrame r (Some p)])"
  using assms conn_enqueue_open(3) [OF assms(2)]
  by (auto simp: broadcastDelta_def for_clients_def split: option.splits)

lemma rev_inv_apply:
  assumes inv: "rev_inv s got todo phase" and st: "state_inv s got todo'" and f: "mutator_ok f"
  shows "rev_inv (applyState f s) got todo phase"
proof -
  have ok: "store_ok (sv_store s)" "so_observer (sv_store s) = Some delta_observer" "\<And>i. sq_ok (cn_send (hub_conns (sv_hub s) i))"
    using st by (auto simp: state_inv_def server_ok_def)
  have same: "rev_inv s' got todo phase" if "sv_hub s' = sv_hub s" "so_rev (sv_store s') = so_rev (sv_store s)" for s'
    using inv that by (simp add: rev_inv_def conn_tracked_def greeted_def conn_stream_def)
  from ok(1) f show ?thesis
  proof (cases rule: Update_cases [of "sv_store s" f "sv_hub s"])
    case (failed st)
    then show ?thesis by (intro same) (simp_all add: applyState_def)
  next
    case (unchanged st)
    then show ?thesis by (intro same) (simp_all add: applyState_def)
  next
    case (changed st nxt patch)
    let ?r = "so_rev (sv_store s) + 1"
    let ?h = "broadcastDelta ?r patch (sv_hub s)"
    have s': "applyState f s = s\<lparr>sv_store := st, sv_hub := ?h\<rparr>"
      using changed ok(2) by (simp add: applyState_def delta_observer_def)
    have "conn_tracked (applyState f s) got i \<and> (greeted s got i \<longrightarrow> greeted (applyState f s) got i)" for i
    proof (cases "i \<in> hub_clients (sv_hub s) \<and> \<not> cn_closing (hub_conns ?h i)")
      case True
      let ?c = "hub_conns (sv_hub s) i" and ?t = "track_of (conn_stream s got i)"
      note b = broadcastDelta_stream [OF conjunct1 [OF True] ok(3) conjunct2 [OF True]]
      have strm: "conn_stream (applyState f s) got i = conn_stream s got i @
          (case scopePatch patch ?c of None \<Rightarrow> [] | Some p \<Rightarrow> [StateDeltaFrame ?r (Some p)])"
        using b by (simp add: conn_stream_def s')
      have old: "list_all frame_fine (conn_stream s got i)" "tr_ready ?t"
          "all_topics ?c \<Longrightarrow> tr_rev ?t = Some (so_rev (sv_store s)) \<and> \<not> tr_lost ?t"
        using inv b True by (auto simp: rev_inv_def conn_tracked_def Let_def)
      have "scopePatch patch ?c \<noteq> None" if "all_topics ?c"
        using patch_scoped [OF ok(1) changed(8) _ that] changed(4,5) by simp
      moreover have "all_topics (hub_conns ?h i) = all_topics ?c" using b by (simp add: all_topics_def)
      ultimately show ?thesis
        using old b changed(6) True strm
        by (cases "scopePatch patch ?c")
          (auto simp: conn_tracked_def greeted_def Let_def track_append s' broadcastDelta_clients)
    next
      case False
      have "conn_tracked s got i" using inv by (simp add: rev_inv_def)
      with False show ?thesis
        by (cases "i \<in> hub_clients (sv_hub s)")
          (auto simp: conn_tracked_def greeted_def conn_stream_def s' broadcastDelta_clients broadcastDelta_other Let_def)
    qed
    with inv show ?thesis unfolding rev_inv_def by blast
  qed
qed

lemma rev_inv_snapshot:
  assumes inv: "rev_inv s got todo phase" and st: "state_inv s got todo'" and hd: "todo i = TakeSnapshot a # rest"
  shows "rev_inv (sendSnapshot i a s) got (todo(i := rest)) phase"
proof -
  let ?c = "hub_conns (sv_hub s) i"
  let ?f = "StateFrame (so_rev (sv_store s)) (FilterTopics (so_cur (sv_store s)) (cn_topics ?c))"
  let ?s = "sendSnapshot i a s"
  have ok: "sq_ok (cn_send ?c)" "store_ok (sv_store s)" using st by (auto simp: state_inv_def server_ok_def)
  have s': "?s = s\<lparr>sv_hub := (if a then hub_add i else (\<lambda>h. h)) (on_conn i (conn_enqueue ?f) (sv_hub s))\<rparr>"
    by (simp add: sendSnapshot_def SnapshotInto_def Let_def)
  have conns: "hub_conns (sv_hub ?s) j = (if j = i then conn_enqueue ?f ?c else hub_conns (sv_hub s) j)" for j
    by (simp add: s' hub_add_def on_conn_def)
  have clients: "hub_clients (sv_hub ?s) \<subseteq> insert i (hub_clients (sv_hub s))" "sv_store ?s = sv_store s"
    by (auto simp: s' hub_add_def on_conn_def)
  have "phase i \<noteq> Absent" "\<not> due (todo i)" using inv hd by (auto simp: rev_inv_def)
  then have g: "greeted s got i" using inv unfolding rev_inv_def by blast
  have self: "conn_tracked ?s got i \<and> greeted ?s got i"
  proof (cases "cn_closing (conn_enqueue ?f ?c)")
    case False
    note q = conn_enqueue_open(3) [OF ok(1) False]
    have strm: "conn_stream ?s got i = conn_stream s got i @ [?f]" using q by (simp add: conn_stream_def conns)
    have "list_all frame_fine (conn_stream s got i)" using inv q by (auto simp: rev_inv_def conn_tracked_def Let_def)
    moreover have "tr_ready (track_of (conn_stream s got i))" using g q by (simp add: greeted_def)
    ultimately show ?thesis
      using snapshot_topics_only [OF ok(2)]
      by (simp add: conn_tracked_def greeted_def Let_def strm track_append clients(2))
  qed (simp add: conn_tracked_def greeted_def conns)
  have other: "conn_tracked s got j \<longrightarrow> conn_tracked ?s got j" "greeted s got j \<longrightarrow> greeted ?s got j" if "j \<noteq> i" for j
    using that clients by (auto simp: conn_tracked_def greeted_def conn_stream_def conns Let_def)
  have "conn_tracked ?s got j \<and> (phase j = Absent \<longrightarrow> (todo(i := rest)) j = []) \<and>
      (phase j \<noteq> Absent \<longrightarrow> due ((todo(i := rest)) j) \<or> greeted ?s got j)" for j
    using self other [of j] inv \<open>phase i \<noteq> Absent\<close> unfolding rev_inv_def by (cases "j = i") auto
  then show ?thesis unfolding rev_inv_def by blast
qed

lemma rev_inv_exec:
  assumes inv: "rev_inv s got todo phase" and st: "state_inv s got todo" and hd: "todo i = sec # rest"
  shows "rev_inv (exec accepts i sec s) got (todo(i := rest)) phase"
proof -
  have t: "todo_ok (i \<in> hub_clients (sv_hub s)) (sec # rest)" using st hd unfolding state_inv_def by metis
  have ok: "\<And>j. sq_ok (cn_send (hub_conns (sv_hub s) j))" using st by (simp add: state_inv_def server_ok_def)
  have present: "phase i \<noteq> Absent" using inv hd by (auto simp: rev_inv_def)
  have by_harmless: "rev_inv s' got (todo(i := rest)) phase"
    if "harmless_server s s'" "due (todo i) \<Longrightarrow> greeted s' got i" for s'
  proof (rule rev_inv_harmless [OF inv that(1)])
    show "(todo(i := rest)) j = []" if "phase j = Absent" for j
      using inv present that by (auto simp: rev_inv_def)
    show "due ((todo(i := rest)) j) \<or> greeted s' got j" if "phase j \<noteq> Absent" "due (todo j)" for j
      using that \<open>due (todo i) \<Longrightarrow> greeted s' got i\<close> by (cases "j = i") auto
  qed
  show ?thesis
  proof (cases sec)
    case (Enqueue f)
    have h: "harmless_server s (on_server_conn i (conn_enqueue f) s)"
      using t ok by (auto intro!: harmless_on_conn harmless_enqueue simp: Enqueue)
    have "greeted (on_server_conn i (conn_enqueue f) s) got i" if "due (todo i)"
    proof -
      from that obtain v sid where f: "f = HelloFrame ProtoVersion v sid" by (auto simp: hd Enqueue)
      show ?thesis
        using conn_enqueue_open(3) [OF ok [of i], of f]
        by (auto simp: greeted_def conn_stream_def on_server_conn_def on_conn_def f track_append
            simp flip: append_assoc)
    qed
    with h show ?thesis by (simp add: Enqueue by_harmless)
  next
    case (CloseConn code reason g)
    with hd ok show ?thesis by (auto intro!: by_harmless harmless_on_conn harmless_close)
  next
    case (Apply f)
    with t have f: "mutator_ok f" by simp
    have "rev_inv s got (todo(i := rest)) phase"
      using inv hd Apply present unfolding rev_inv_def by (metis due_simps(2) fun_upd_apply locked.distinct(3))
    from rev_inv_apply [OF this st f] Apply show ?thesis by simp
  next
    case HubRemove
    with inv hd present show ?thesis
      by (auto simp: rev_inv_def conn_tracked_def greeted_def conn_stream_def hub_remove_def Let_def)
  next
    case (SetTopics sub ts)
    with t have "i \<notin> hub_clients (sv_hub s)" by simp
    with SetTopics inv hd present show ?thesis
      by (auto simp: rev_inv_def conn_tracked_def greeted_def conn_stream_def on_server_conn_def on_conn_def set_topics_def Let_def)
  next
    case (TakeSnapshot a)
    with rev_inv_snapshot [OF inv st] hd show ?thesis by simp
  next
    case ReplaySurface
    with hd ok show ?thesis
      by (cases "sv_surface s") (auto intro!: by_harmless harmless_on_conn harmless_sendInitial harmless_same_hub)
  next
    case (SurfacePress key pressed)
    with hd ok show ?thesis by (auto intro!: by_harmless harmless_surface_press)
  next
    case ReleaseHeld
    with hd ok show ?thesis by (auto intro!: by_harmless harmless_release)
  qed
qed

section \<open>Every step keeps the revisions\<close>

lemma rev_inv_write:
  assumes inv: "rev_inv s got todo phase" and ok: "sq_ok (cn_send (hub_conns (sv_hub s) i))"
    and p: "pop (cn_send (hub_conns (sv_hub s) i)) = (q, Some f)"
    and wired: "lane_wired (cn_send (hub_conns (sv_hub s) i))"
  shows "rev_inv (on_server_conn i (\<lambda>c. c\<lparr>cn_send := q\<rparr>) s) (got(i := got i @ [f])) todo phase"
proof -
  let ?s = "on_server_conn i (\<lambda>c. c\<lparr>cn_send := q\<rparr>) s" and ?got = "got(i := got i @ [f])"
  have strm: "track_of (conn_stream ?s ?got j) = track_of (conn_stream s got j) \<and>
      (list_all frame_fine (conn_stream s got j) \<longrightarrow> list_all frame_fine (conn_stream ?s ?got j))" for j
  proof (cases "j = i")
    case True
    show ?thesis
      using ok p
    proof (cases rule: pop_cases)
      case state_frame
      then show ?thesis by (simp add: True conn_stream_def on_server_conn_def on_conn_def)
    next
      case (surface_frame g)
      then have "frame_dec f = Some g" using wired by (simp add: lane_wired_def)
      from track_surface [OF this] surface_frame show ?thesis
        by (simp add: True conn_stream_def on_server_conn_def on_conn_def track_append)
    qed
  qed (simp add: conn_stream_def on_server_conn_def on_conn_def)
  have "conn_tracked s got j \<longrightarrow> conn_tracked ?s ?got j" "greeted s got j \<longrightarrow> greeted ?s ?got j" for j
    using strm [of j]
    by (auto simp: conn_tracked_def greeted_def Let_def on_server_conn_def on_conn_def all_topics_def)
  with inv show ?thesis unfolding rev_inv_def by blast
qed

lemma rev_inv_closed_conn:
  assumes inv: "rev_inv s got todo phase" and "cn_closing (f (hub_conns (sv_hub s) i))"
  shows "rev_inv (on_server_conn i f s) got todo phase"
proof -
  have "conn_tracked s got j \<longrightarrow> conn_tracked (on_server_conn i f s) got j"
      "greeted s got j \<longrightarrow> greeted (on_server_conn i f s) got j" for j
    using assms(2)
    by (auto simp: conn_tracked_def greeted_def conn_stream_def Let_def on_server_conn_def on_conn_def)
  with inv show ?thesis unfolding rev_inv_def by blast
qed

abbreviation w_rev_inv :: "world \<Rightarrow> bool" where
  "w_rev_inv w \<equiv> rev_inv (wd_server w) (wd_got w) (wd_todo w) (wd_phase w)"

lemma rev_inv_step:
  assumes step: "srv_step w w'" and inv: "w_rev_inv w" and st: "w_state_inv w" and wired: "\<And>i. lane_wired (w_queue w i)"
  shows "w_rev_inv w'"
proof -
  have ok: "\<And>i. sq_ok (w_queue w i)" using st by (simp add: state_inv_def server_ok_def)
  have harm: "rev_inv s' (wd_got w) (wd_todo w) (wd_phase w)" if "harmless_server (wd_server w) s'" for s'
    using inv by (intro rev_inv_harmless [OF inv that]) (auto simp: rev_inv_def)
  have turn: "rev_inv (wd_server w) (wd_got w) ((wd_todo w)(i := secs)) ((wd_phase w)(i := ph))"
    if "due secs \<or> greeted (wd_server w) (wd_got w) i" "ph \<noteq> Absent" for i secs ph
    using inv that unfolding rev_inv_def by (metis fun_upd_apply)
  have idle: "greeted (wd_server w) (wd_got w) i" if "wd_phase w i \<noteq> Absent" "wd_todo w i = []" for i
    using inv that unfolding rev_inv_def by (metis due_simps(1))
  show ?thesis
    using step
  proof cases
    case (connects i)
    have "due (run_start (wd_server w))" by (simp add: run_start_def)
    with turn [of "run_start (wd_server w)" i Serving] connects(1) show ?thesis by simp
  next
    case (runs i sec rest accepts)
    from rev_inv_exec [OF inv st runs(2)] runs(1) show ?thesis by (simp add: advance_def Let_def)
  next
    case (receives i press_ok data ps secs)
    have "(wd_phase w)(i := Serving) = wd_phase w" using receives(2) by auto
    with turn [of secs i Serving] idle [of i] receives(1,2,3) show ?thesis by simp
  next
    case (read_ends i)
    with turn [of run_end i Ending] idle [of i] show ?thesis by simp
  next
    case (writes i q f)
    from rev_inv_write [OF inv ok writes(2) wired] writes(1) show ?thesis by (simp add: with_conn_def)
  next
    case (write_fails i q f)
    show ?thesis unfolding write_fails(1) with_conn_def by (simp add: rev_inv_closed_conn [OF inv])
  next
    case (fails i reason)
    show ?thesis unfolding fails with_conn_def by (simp add: rev_inv_closed_conn [OF inv])
  next
    case stops
    have "harmless_server (wd_server w) ((wd_server w)\<lparr>sv_hub := closeAll ''server shutting down'' (sv_hub (wd_server w))\<rparr>)"
      unfolding closeAll_def using ok by (intro harmless_for_clients harmless_close)
    with harm stops show ?thesis by simp
  next
    case (polls f)
    with rev_inv_apply [OF inv st] show ?thesis by simp
  next
    case (event m ev m' b)
    have "harmless_server (wd_server w) ((wd_server w)\<lparr>sv_surface := Some m'\<rparr>)"
      using ok by (intro harmless_same_hub) auto
    with harm event(1) show ?thesis by simp
  next
    case (broadcasts b)
    have "harmless_server (wd_server w) ((wd_server w)\<lparr>sv_hub := deliver b (sv_hub (wd_server w))\<rparr>)"
      using ok by (cases b) (auto simp: broadcastSurfaceKey_def broadcastSurfaceLayout_def
        intro!: harmless_for_clients harmless_surface)
    with harm broadcasts(1) show ?thesis by simp
  qed
qed

lemma reachable_revs:
  assumes "srv_reachable (NewServer cfg v sid sat) w" "Config_validate parse cfg = None"
  shows "w_rev_inv w"
  using assms(1)
proof (induction rule: srv_reachable.induct)
  case srv_start
  show ?case
    by (simp add: rev_inv_def conn_tracked_def conn_stream_def start_world_def NewServer_def newHub_def newClientConn_def
        newSendQueue_def Let_def)
next
  case (srv_next w w')
  from reachable_invs [OF srv_next(1) assms(2)] have "w_state_inv w" "\<And>i. lane_wired (w_queue w i)"
    by (auto simp: surf_inv_def conn_surface_ok_def)
  with srv_next rev_inv_step show ?case by blast
qed

section \<open>The frames a client has received once its queue is drained\<close>

definition drained_frames :: "world \<Rightarrow> nat \<Rightarrow> frame list" where
  "drained_frames w i = wd_got w i @ sq_state (w_queue w i) @ map sf_data (surface_frames (w_queue w i))"

lemma view_after_decoded: "\<forall>f \<in> set fs. frame_dec f = None \<Longrightarrow> foldl view_after v fs = v"
  by (induction fs arbitrary: v) (simp_all add: view_after_def)

lemma view_after_lane: "\<forall>g \<in> set gs. frame_dec (sf_data g) = Some g \<Longrightarrow> foldl view_after v (map sf_data gs) = apply_frames v gs"
  by (induction gs arbitrary: v) (simp_all add: view_after_def)

lemma view_after_client: "foldl view_after v fs = apply_frames v (List.map_filter frame_dec fs)"
  by (induction fs arbitrary: v) (simp_all add: view_after_def List.map_filter_def split: option.splits)

lemma track_lane: "\<forall>g \<in> set gs. frame_dec (sf_data g) = Some g \<Longrightarrow>
    foldl see_track t (map sf_data gs) = t \<and> foldl see_state v (map sf_data gs) = v \<and> list_all frame_fine (map sf_data gs)"
proof (induction gs arbitrary: t v)
  case (Cons g gs)
  then have g: "frame_dec (sf_data g) = Some g" by simp
  from Cons track_surface [OF g] dec_not_state [OF g] show ?case by simp
qed simp

lemma drained_session:
  assumes "conn_surface_ok m (wd_got w i) (w_conn w i)" "list_all frame_fine (conn_stream (wd_server w) (wd_got w) i)"
  shows "\<exists>s. receive (drained_frames w i) new_session = Some s \<and>
    follows (track_of (conn_stream (wd_server w) (wd_got w) i)) (state_view (conn_stream (wd_server w) (wd_got w) i)) s \<and>
    mirrors (surface_view_of (wd_got w i) (w_queue w i)) (se_surface s)"
proof -
  let ?gs = "surface_frames (w_queue w i)"
  have lane: "\<forall>g \<in> set ?gs. frame_dec (sf_data g) = Some g" and plain: "\<forall>f \<in> set (sq_state (w_queue w i)). frame_dec f = None"
    using assms(1) by (auto simp: conn_surface_ok_def lane_wired_def)
  have fs: "drained_frames w i = conn_stream (wd_server w) (wd_got w) i @ map sf_data ?gs"
    by (simp add: drained_frames_def conn_stream_def)
  have "foldl view_after empty_view (drained_frames w i) = surface_view_of (wd_got w i) (w_queue w i)"
    by (simp add: drained_frames_def surface_view_of_def client_view_def view_after_lane [OF lane] view_after_decoded [OF plain]
        view_after_client [of empty_view "wd_got w i"])
  moreover have "list_all frame_fine (drained_frames w i)" using assms(2) track_lane [OF lane] by (simp add: fs)
  moreover have "track_of (drained_frames w i) = track_of (conn_stream (wd_server w) (wd_got w) i)"
      "state_view (drained_frames w i) = state_view (conn_stream (wd_server w) (wd_got w) i)"
    using track_lane [OF lane] by (simp_all add: fs track_append state_view_append)
  ultimately show ?thesis using receive_all [of "drained_frames w i"] by metis
qed

lemma scoped_all: "store_ok st \<Longrightarrow> all_topics c \<Longrightarrow> snapshot_object (cn_topics c) st = JObj (so_cur st)"
proof -
  assume "store_ok st" "all_topics c"
  then have "\<forall>p \<in> set (so_cur st). cn_topics c (fst p)"
    by (auto simp: store_ok_def all_topics_def list_all_iff)
  then show ?thesis by (simp add: snapshot_object_def Snapshot_def scoped_eq)
qed

lemma surface_shown:
  assumes "mirrors v s" "shows_surface m v"
  shows "ss_rows s = sm_rows m \<and> ss_cols s = sm_cols m \<and> ss_bitmapSize s = sm_bitmapSize m \<and>
    (\<forall>k. gm_get (ss_keys s) k = map_option button_of (gm_get (sm_keys m) k))"
proof -
  have "gm_get (ss_keys s) k = map_option button_of (gm_get (sm_keys m) k)" for k
  proof -
    have "key_mirrored v s k" using assms(1) by (simp add: mirrors_def)
    with assms(2) show ?thesis
      by (cases "gm_get (sm_keys m) k") (auto simp: key_mirrored_def shows_surface_def cached_keys_def)
  qed
  with assms show ?thesis by (auto simp: mirrors_def shows_surface_def layout_matches_def)
qed

text \<open>
  The session of a client against the server: past the handshake, waiting for no resync, with the
  server's state at its revision and, once replayed and with no broadcast pending, the manager's
  surface.
\<close>

definition session_shows :: "world \<Rightarrow> nat \<Rightarrow> session \<Rightarrow> bool" where
  "session_shows w i s \<longleftrightarrow>
     se_ready s \<and> \<not> se_incompatible s \<and> \<not> se_awaiting s \<and>
     ap_data (se_state s) = so_cur (sv_store (wd_server w)) \<and> ap_rev (se_state s) = Rev (sv_store (wd_server w)) \<and>
     (\<forall>m. i \<in> wd_synced w \<longrightarrow> sv_surface (wd_server w) = Some m \<longrightarrow> wd_inflight w = None \<longrightarrow>
        ss_rows (se_surface s) = sm_rows m \<and> ss_cols (se_surface s) = sm_cols m \<and>
        ss_bitmapSize (se_surface s) = sm_bitmapSize m \<and>
        (\<forall>k. gm_get (ss_keys (se_surface s)) k = map_option button_of (gm_get (sm_keys m) k)))"

lemma session_shows_server:
  assumes "Config_validate parse cfg = None" "srv_reachable (NewServer cfg v sid sat) w"
    and "i \<in> w_members w" "\<not> cn_closing (w_conn w i)" "all_topics (w_conn w i)"
  shows "\<exists>s. receive (drained_frames w i) new_session = Some s \<and> session_shows w i s"
proof -
  note inv = reachable_invs [OF assms(2,1)]
  let ?fs = "conn_stream (wd_server w) (wd_got w) i" and ?st = "sv_store (wd_server w)"
  have tracked: "list_all frame_fine ?fs" "tr_ready (track_of ?fs)" "tr_rev (track_of ?fs) = Some (so_rev ?st)"
      "\<not> tr_lost (track_of ?fs)"
    using reachable_revs [OF assms(2,1)] assms(3-5) by (auto simp: rev_inv_def conn_tracked_def Let_def)
  have surf: "conn_surface_ok (mgr (wd_server w)) (wd_got w i) (w_conn w i)" using inv by (simp add: surf_inv_def)
  from drained_session [OF surf tracked(1)] obtain s where s: "receive (drained_frames w i) new_session = Some s"
      "follows (track_of ?fs) (state_view ?fs) s" "mirrors (surface_view_of (wd_got w i) (w_queue w i)) (se_surface s)"
    by blast
  have "state_view ?fs = JObj (so_cur ?st)"
    using inv assms(3-5) scoped_all
    by (auto simp: state_inv_def state_synced_def server_ok_def conn_stream_def Let_def)
  with s(2) tracked have state: "se_ready s" "\<not> se_incompatible s" "\<not> se_awaiting s"
      "ap_data (se_state s) = so_cur ?st" "ap_rev (se_state s) = Rev ?st"
    by (auto simp: follows_def Rev_def)
  have "shows_surface m (surface_view_of (wd_got w i) (w_queue w i))"
    if "i \<in> wd_synced w" "sv_surface (wd_server w) = Some m" "wd_inflight w = None" for m
    using inv that assms(4) by (auto simp: surf_inv_def mgr_def)
  with surface_shown [OF s(3)] state have "session_shows w i s" unfolding session_shows_def by blast
  with s(1) show ?thesis by blast
qed

section \<open>Properties\<close>

text \<open>
  C4: The Flutter client and the server together.  In every reachable state of the server, the
  session of a client in the hub that is subscribed to every topic, fed with the JSON of the frames
  written to it and of those still queued, fails no cast, is ready, has asked for no snapshot it
  still waits for, and holds the server's state at the server's revision: the revision checks of the
  client never refuse a delta of this server.  Once it has had its replay and no broadcast is
  pending it also shows the surface the manager caches, key by key, under the manager's layout.
\<close>

theorem session_mirrors_server:
  assumes "Config_validate parse cfg = None" "srv_reachable (NewServer cfg v sid sat) w"
    and "i \<in> w_members w" "\<not> cn_closing (w_conn w i)" "all_topics (w_conn w i)"
  shows "\<exists>s. receive (drained_frames w i) new_session = Some s \<and> session_shows w i s"
  using assms by (rule session_shows_server)

text \<open>A key is rendered and broadcast, and a preset recalled: what the client then shows.\<close>

definition demo_shown :: world where
  "demo_shown =
     (let s = wd_server demo_keyed;
          s1 = s\<lparr>sv_hub := deliver (the (wd_inflight demo_keyed)) (sv_hub s)\<rparr>
      in demo_keyed\<lparr>wd_inflight := None, wd_server := applyState (recall_preset ''main'' ''wide'') s1\<rparr>)"

lemma demo_shown_reachable: "srv_reachable demo_server demo_shown"
proof -
  let ?w = "demo_keyed\<lparr>wd_server := (wd_server demo_keyed)\<lparr>sv_hub := deliver (the (wd_inflight demo_keyed)) (sv_hub (wd_server demo_keyed))\<rparr>,
     wd_inflight := None\<rparr>"
  have "wd_inflight demo_keyed = Some (the (wd_inflight demo_keyed))" by code_simp
  from srv_next [OF demo_keyed_reachable broadcasts [OF this]] have "srv_reachable demo_server ?w" .
  from srv_next [OF this polls [of "recall_preset ''main'' ''wide''"]] show ?thesis
    by (simp add: demo_shown_def Let_def mutator_ok_def recall_preset_ok)
qed

lemma session_mirrors_server_witness:
  "\<exists>s. receive (drained_frames demo_shown 0) new_session = Some s \<and> se_ready s \<and> ap_rev (se_state s) = 1 \<and>
    gm_get (ap_data (se_state s)) ''camera'' \<noteq> None \<and> ss_cols (se_surface s) > 0 \<and>
    gm_get (ss_keys (se_surface s)) 3 \<noteq> None"
proof -
  have here: "0 \<in> w_members demo_shown" "\<not> cn_closing (w_conn demo_shown 0)" "all_topics (w_conn demo_shown 0)"
      "0 \<in> wd_synced demo_shown" "wd_inflight demo_shown = None"
      "sv_surface (wd_server demo_shown) = Some (mgr (wd_server demo_shown))"
    by code_simp+
  have there: "Rev (sv_store (wd_server demo_shown)) = 1" "gm_get (so_cur (sv_store (wd_server demo_shown))) ''camera'' \<noteq> None"
      "sm_cols (mgr (wd_server demo_shown)) > 0" "gm_get (sm_keys (mgr (wd_server demo_shown))) 3 \<noteq> None"
    by code_simp+
  from session_mirrors_server [OF demo_config_valid demo_shown_reachable [unfolded demo_server_def] here(1-3)]
  obtain s where s: "receive (drained_frames demo_shown 0) new_session = Some s" "session_shows demo_shown 0 s"
    by blast
  from s(2) here(4-6) have "ss_cols (se_surface s) = sm_cols (mgr (wd_server demo_shown))"
      "gm_get (ss_keys (se_surface s)) 3 = map_option button_of (gm_get (sm_keys (mgr (wd_server demo_shown))) 3)"
    by (simp_all add: session_shows_def)
  with s there show ?thesis by (auto simp: session_shows_def)
qed

section \<open>Catching up\<close>

text \<open>The write goroutine of client \<open>i\<close> alone, writing up to \<open>n\<close> frames.\<close>

fun write_out :: "nat \<Rightarrow> nat \<Rightarrow> world \<Rightarrow> world" where
  "write_out i 0 w = w"
| "write_out i (Suc n) w =
     (case pop (w_queue w i) of
        (q, Some f) \<Rightarrow> write_out i n ((with_conn i (\<lambda>c. c\<lparr>cn_send := q\<rparr>) w)\<lparr>wd_got := (wd_got w)(i := wd_got w i @ [f])\<rparr>)
      | (q, None) \<Rightarrow> w)"

text \<open>What writing leaves alone.\<close>

definition same_but_written :: "nat \<Rightarrow> world \<Rightarrow> world \<Rightarrow> bool" where
  "same_but_written i w w' \<longleftrightarrow> w_members w' = w_members w \<and> cn_closing (w_conn w' i) = cn_closing (w_conn w i) \<and>
     cn_topics (w_conn w' i) = cn_topics (w_conn w i) \<and> sv_store (wd_server w') = sv_store (wd_server w) \<and>
     sv_surface (wd_server w') = sv_surface (wd_server w) \<and> wd_synced w' = wd_synced w \<and> wd_inflight w' = wd_inflight w"

lemma same_but_written_trans: "same_but_written i a b \<Longrightarrow> same_but_written i b c \<Longrightarrow> same_but_written i a c"
  by (simp add: same_but_written_def)

lemma write_out_reachable:
  assumes "srv_reachable s w" "sq_ok (w_queue w i)" "depth (w_queue w i) \<le> n"
  shows "srv_reachable s (write_out i n w) \<and> depth (w_queue (write_out i n w) i) = 0 \<and> same_but_written i w (write_out i n w)"
  using assms
proof (induction n arbitrary: w)
  case 0
  then show ?case by (simp add: same_but_written_def)
next
  case (Suc n)
  obtain q r where p: "pop (w_queue w i) = (q, r)" by (cases "pop (w_queue w i)")
  have q: "sq_ok q" "depth q = depth (w_queue w i) - 1"
    using sq.pop_ok [OF Suc.prems(2)] pop_depth [OF Suc.prems(2)] by (simp_all add: p)
  show ?case
  proof (cases r)
    case None
    then have "depth (w_queue w i) = 0"
      using sq.pop_lanes [OF Suc.prems(2)] p
      by (cases "sq_state (w_queue w i)"; cases "surface_frames (w_queue w i)") (auto simp: depth_def surface_frames_def)
    with p None Suc.prems(1) show ?thesis by (simp add: same_but_written_def)
  next
    case (Some f)
    let ?w = "(with_conn i (\<lambda>c. c\<lparr>cn_send := q\<rparr>) w)\<lparr>wd_got := (wd_got w)(i := wd_got w i @ [f])\<rparr>"
    have "srv_reachable s ?w" using srv_next [OF Suc.prems(1) writes [of w i q f]] p Some by simp
    moreover have "w_queue ?w i = q" by (simp add: with_conn_def on_server_conn_def on_conn_def)
    moreover have "same_but_written i w ?w"
      by (simp add: same_but_written_def with_conn_def on_server_conn_def on_conn_def)
    ultimately show ?thesis
      using Suc.IH [of ?w] q Suc.prems(3) p Some same_but_written_trans [of i w ?w] by simp
  qed
qed

text \<open>
  C5: A client catches up.  From every reachable state, the writes of a client's own goroutine
  alone, no more of them than its queue is deep, lead to a reachable state with the same server
  and an empty queue in which the frames the client has received, and nothing else, make its
  session hold the server's state at its revision, and show its surface.
\<close>

theorem session_catches_up:
  assumes "Config_validate parse cfg = None" "srv_reachable (NewServer cfg v sid sat) w"
    and "i \<in> w_members w" "\<not> cn_closing (w_conn w i)" "all_topics (w_conn w i)"
    and "w' = write_out i (depth (w_queue w i)) w"
  shows "srv_reachable (NewServer cfg v sid sat) w' \<and> depth (w_queue w' i) = 0 \<and> same_but_written i w w' \<and>
    (\<exists>s. receive (wd_got w' i) new_session = Some s \<and> session_shows w i s)"
proof -
  have "sq_ok (w_queue w i)" using reachable_invs [OF assms(2,1)] by (simp add: state_inv_def server_ok_def)
  from write_out_reachable [OF assms(2) this order.refl] have w':
    "srv_reachable (NewServer cfg v sid sat) w'" "depth (w_queue w' i) = 0" "same_but_written i w w'"
    by (simp_all add: assms(6))
  then have "drained_frames w' i = wd_got w' i" by (simp add: drained_frames_def depth_def surface_frames_def)
  moreover have "i \<in> w_members w'" "\<not> cn_closing (w_conn w' i)" "all_topics (w_conn w' i)"
    using w'(3) assms(3-5) by (simp_all add: same_but_written_def all_topics_def)
  note session_shows_server [OF assms(1) w'(1) this]
  ultimately obtain s where "receive (wd_got w' i) new_session = Some s" "session_shows w' i s" by metis
  moreover have "session_shows w' i s = session_shows w i s"
    using w'(3) by (simp add: session_shows_def same_but_written_def)
  ultimately show ?thesis using w' by blast
qed

lemma session_catches_up_witness:
  "\<exists>s. receive (wd_got (write_out 0 (depth (w_queue demo_shown 0)) demo_shown) 0) new_session = Some s \<and>
     ap_rev (se_state s) = 1 \<and> depth (w_queue demo_shown 0) = 5 \<and> wd_got demo_shown 0 = []"
proof -
  have here: "0 \<in> w_members demo_shown" "\<not> cn_closing (w_conn demo_shown 0)" "all_topics (w_conn demo_shown 0)"
      "Rev (sv_store (wd_server demo_shown)) = 1" "depth (w_queue demo_shown 0) = 5" "wd_got demo_shown 0 = []"
    by code_simp+
  from session_catches_up [OF demo_config_valid demo_shown_reachable [unfolded demo_server_def] here(1-3) refl] here(4-6)
  show ?thesis by (auto simp: session_shows_def)
qed

section \<open>A subscriber to some topics\<close>

text \<open>
  The gap check of the client presumes a subscription to every topic.  A delta that touches none of
  a client's topics advances the revision and sends it nothing, so the next delta it is sent is two
  revisions ahead: the session takes it for a loss and asks for a snapshot, with nothing lost.
\<close>

lemma subset_subscriber_resyncs:
  assumes "scopePatch patch (hub_conns h i) = None" "scopePatch patch' (hub_conns h i) = Some p"
    and "se_ready s" "\<not> se_awaiting s" "ap_baseline (se_state s)" "ap_rev (se_state s) = r"
  shows "hub_conns (broadcastDelta (r + 1) patch h) i = hub_conns h i"
    "\<exists>s'. receive [StateDeltaFrame (r + 2) (Some p)] s = Some s' \<and> se_state s' = se_state s \<and>
       se_awaiting s' \<and> se_sent s' = se_sent s @ [getState]"
proof -
  have "as_int (Some (JNum (of_int r + 2))) = Some (Some (r + 2))" using as_simps(1) [of "r + 2"] by simp
  with assms show "hub_conns (broadcastDelta (r + 1) patch h) i = hub_conns h i"
    "\<exists>s'. receive [StateDeltaFrame (r + 2) (Some p)] s = Some s' \<and> se_state s' = se_state s \<and>
       se_awaiting s' \<and> se_sent s' = se_sent s @ [getState]"
    by (simp_all add: broadcastDelta_def for_clients_def onFrame_def onDelta_def applyDelta_def Let_def)
qed

end
