(* ===== verification/Spec2Isabelle.thy ===== *)
theory Spec2Isabelle
  imports SendQueue RateLimiter Store Dispatch CompanionClient Satellite ClientLifetime Handlers StateTypes
    Listener SatelliteStream PressOrder Startup Actuation ClientMirror
begin

text \<open>
  A verification development of the CueBooth server: the Go program under server/, with the session
  of the Flutter client that its contracts end in (client/lib/services/).

  \<^bold>\<open>The program.\<close>  The server keeps one authoritative state.  Command handlers and pollers change it
  through \<open>Store.Update\<close>; every change is a revision and a JSON merge patch, which the store's
  observer hands, under the store's lock, to the hub, and the hub to the queue of each client that
  subscribed to a topic it touches.  A client's goroutines read frames, dispatch commands to
  Companion's HTTP API, and write what is queued.  Beside the state there is a surface: Companion
  renders buttons to a TCP session of the Satellite protocol, a manager caches the keys, broadcasts
  them over the same queues and passes presses back.  Beside both there are HTTP routes: a chat
  panel whose platform credential the server holds and rotates, and the bundled web client.

  \<^bold>\<open>Theories and sources.\<close>  Each theory opens with what it models; definitions have the source's
  names where HOL leaves them free.
  \<^item> \<open>Prelude\<close>, \<open>GoBase\<close>, \<open>GoStrings\<close>, \<open>Json\<close>, \<open>Http\<close>: what the code uses of Go and its standard
    library.  Results of fallible functions are sums; maps are key-sorted association lists; 64-bit
    arithmetic wraps (\<open>wrap64\<close>); instants and durations are nanoseconds; strings are bytes.
  \<^item> \<open>SurfaceLane\<close>, \<open>SendQueue\<close>: api/sendqueue.go with its element pointers, against a lane that
    coalesces, and what a client makes of the frames (surface_state.dart).
  \<^item> \<open>StateModel\<close>, \<open>MergePatch\<close>, \<open>Store\<close>, \<open>StateTypes\<close>: internal/state, its wire form, deltas, the
    client's merge (protocol.dart), revisions, pollers, and the types of docs/protocol.md.
  \<^item> \<open>Protocol\<close>, \<open>Presets\<close>, \<open>Location\<close>, \<open>Config\<close>, \<open>Dispatch\<close>: frames, configuration and its
    validation, and what each command presses, answers and changes.
  \<^item> \<open>CompanionClient\<close>, \<open>Actuation\<close>: companion/client.go, its escaping and its retry loop, and a
    client's command from the frame through the dispatcher to the requests it makes.
  \<^item> \<open>SatelliteWire\<close>, \<open>Satellite\<close>, \<open>SatelliteStream\<close>: companion/satellite.go, its lines, its sessions
    (the goroutines of a session as a step relation) and the byte stream the lines are cut from.
  \<^item> \<open>Connection\<close>, \<open>ServerModel\<close>, \<open>ClientLifetime\<close>, \<open>Handlers\<close>, \<open>WriteLoop\<close>: api/client.go, hub.go,
    surface.go and server.go.  A handler is a list of sections, one per acquisition of its locks;
    \<open>srv_step\<close> interleaves the sections of any number of clients with pollers, surface callbacks,
    writes, failures and a shutdown.
  \<^item> \<open>ConnLifecycle\<close>, \<open>Listener\<close>: the other side of api/client.go and server.go: the goroutines of
    one connection and which of them touches the socket when, and the handlers of \<open>/ws\<close> and
    \<open>/ws/meters\<close> with the count \<open>conns\<close> that a stop waits for.  \<open>ServerModel\<close> follows the state
    through the queues of all clients; these two follow one connection, and then all of them, from
    the upgrade to the last goroutine.
  \<^item> \<open>SurfaceBridge\<close>, \<open>PressOrder\<close>: \<open>Satellite\<close> and \<open>ServerModel\<close> put together as api/surface.go
    does: the satellite's events are the manager's callbacks, its answers are those of the presses.
  \<^item> \<open>ClientSession\<close>, \<open>ClientMirror\<close>: the other end of the wire: session.dart, app_state.dart and
    surface_state.dart, which read the frames' JSON, check revisions and sequences and send
    commands; and that session fed by \<open>ServerModel\<close>.
  \<^item> \<open>RateLimiter\<close>: api/ratelimit.go, against a bucket that is filled one permit at a time.
  \<^item> \<open>TokenStore\<close>, \<open>Restream\<close>, \<open>RandomState\<close>, \<open>ChatSystem\<close>, \<open>ChatRoutes\<close>: internal/chat and
    api/chat.go.  The credential file against power cuts, the provider call by call, the states it
    hands out, its goroutines around \<open>refreshMu\<close> as a step relation, and the routes over the
    interface \<open>chat.Provider\<close>.
  \<^item> \<open>WebUI\<close>: internal/webui.  \<open>Service\<close>: building the server, the mux, the stop and the Windows
    service.  \<open>Startup\<close>: the functional options, \<open>run\<close> and \<open>main\<close> of cmd/cuebooth-server.
  \<^item> \<open>LoginFlow\<close>, \<open>Pages\<close>: the whole listener over a stream of requests: an authorization from its
    start to its callback through mux, guards, limiter and provider, and what any answer can hold,
    with the two pages and the embedded files.

  \<^bold>\<open>What the lemmas show.\<close>  The lemmas of a component give its invariant, that each operation keeps
  it, and the outcome of each operation on every branch (\<open>Update_cases\<close>, \<open>access_cases\<close>,
  \<open>serveChatURL_cases\<close>, \<open>handler_serves\<close> and the like).  The properties build on them in layers: the
  queue refines a coalescing lane; a delta merged into the old state is the new one; hence a store
  is followed by its deltas; hence, with every goroutine interleaved, a drained client holds the
  server's state scoped to its topics, in the documented types, and the surface the manager caches,
  which with the satellite in place is what Companion last sent; the Flutter session, which checks
  every revision, takes each delta and ends with exactly that state and surface; and presses go the
  other way in the order they were accepted.  A command presses at most one button the configuration
  names, at most once, and is acked if that certainly happened.  Alongside: no key a client pressed
  stays down, each command is answered once and under the id it was sent with, the first close wins,
  the write loop misses no wake signal, a satellite session never panics and a late rejection ends
  it, a press is never made twice, rejected configurations cannot start and validated ones do, a
  rotated credential is neither lost between goroutines nor by a power cut, an authorization state
  is used once and cannot be pushed out while its operator signs in, a chat URL leaves only through
  its guard, no answer repeats anything of its request or a file from outside the bundle, a line cut
  short is not handled, and a stop keeps its budget and ends every connection and goroutine that was
  counted.

  \<^bold>\<open>Interfaces.\<close>  \<open>coalescing_queue\<close> (what a client relies on of the queue) is interpreted as \<open>sq\<close>
  on the pointer implementation; \<open>conn_rel\<close> and \<open>own_rel\<close> (relations between a connection and a
  later state of it that every step keeps) as \<open>closed\<close> and \<open>others\<close>; \<open>chat_provider\<close> (what the
  routes rely on of \<open>chat.Provider\<close>) as \<open>restream\<close>; \<open>satellite_surface\<close> (what the server relies on
  of the interface \<open>satelliteSurface\<close>) as \<open>companion\<close>, on the sessions of \<open>Satellite\<close>;
  \<open>button_presser\<close> (what a dispatch relies on of \<open>buttonPresser\<close>) as \<open>companion_http\<close>, on the HTTP
  client.

  \<^bold>\<open>Bounds and fuel.\<close>  No definition takes fuel.  Loops of the code are structural recursions over
  their input, or functions with a measure (\<open>evict_full\<close>: pending authorizations; \<open>none_match_hits\<close>
  and \<open>strip_all\<close>: the rest of the text; the retry loop: attempts left).  Loops that run for ever
  are step relations (\<open>srv_step\<close>, \<open>sat_step\<close>, \<open>loop_step\<close>, \<open>chat_step\<close>, \<open>own_step\<close>, \<open>ln_step\<close>), or
  take the list of their events (\<open>run_ticks\<close>, \<open>svc_loop\<close>), and what is claimed of them is claimed of
  every reachable state or every list; that the write loop, a connection and a stop come to rest is
  proved with bounds on their steps (\<open>lc_work\<close> and \<open>ln_work\<close> add up what each goroutine has left to
  do and the frames queued).

  \<^bold>\<open>Hypotheses.\<close>  Outside code is a parameter.  What is assumed of it is stated where it is used:
  the text form of an instant reads back as itself (\<open>codec_ok\<close>); mutators keep Go maps free of nil
  pointers (\<open>mutator_ok\<close>, proved for the server's own); a satellite announces the layout it was
  built with (\<open>event_ok\<close>, proved of Companion's in \<open>SurfaceBridge\<close>); the chat platform honours a
  token until a refresh spends it and rejects a grant only if it does not honour it (\<open>platform\<close>);
  the clock stands still between the locks of one mint (\<open>env_steady\<close>); the clock readings of one run
  lie within 292 years of each other and every random draw is 32 bytes long (\<open>random_ok\<close>).  Parsing
  of JSON text, TOML and URLs, SHA-256 and MIME tables are parameters of which nothing is
  assumed.  A number of a frame reaches the client as it was sent: revisions and sequences stay
  below the integers a Dart \<open>num\<close> is exact for.

  \<^bold>\<open>Not modelled.\<close>  Sockets, TLS, timers and the scheduler, which are the nondeterminism of the
  steps; log lines and error texts that only a log or a person reads; the protocol of the upgrade
  and of frames (github.com/coder/websocket); the deadlines of one chat request; Range requests;
  flags, signals and how a service launch is detected.  The packages audio, camera, obs, slides and
  hid hold comments only.  The Flutter client beyond its session is user interface and transport:
  screens, images, sockets and their reconnects.
\<close>

end
